theory Spec2Isabelle
  imports Main "HOL-Library.Monad_Syntax"
begin

section \<open>Vectors and the graph capability\<close>

text \<open>
  The splitters of \<^verbatim>\<open>inc/split.hxx\<close> work on \<^verbatim>\<open>std::vector\<close> buffers indexed by
  vertex ids (the template type \<^verbatim>\<open>K\<close>, an unsigned integer, here \<open>nat\<close>) and on flag
  buffers (the template type \<^verbatim>\<open>B\<close>, here \<open>bool\<close>: \<^verbatim>\<open>B()\<close> is \<open>False\<close>,
  \<^verbatim>\<open>B(1)\<close> is \<open>True\<close>).  \<^verbatim>\<open>operator[]\<close> of a vector does not check its index: an
  access past the end is undefined behaviour.  The model makes every access checked and
  lets the whole run end in \<open>None\<close> at the first access that is out of range, so
  \<open>Some\<close> means: the run made no out-of-range access and this is its result.
\<close>

definition vget :: "'a list \<Rightarrow> nat \<Rightarrow> 'a option" where
  "vget xs i = (if i < length xs then Some (xs ! i) else None)"

definition vset :: "'a list \<Rightarrow> nat \<Rightarrow> 'a \<Rightarrow> 'a list option" where
  "vset xs i a = (if i < length xs then Some (xs[i := a]) else None)"

text \<open>
  The graph is the template parameter \<^verbatim>\<open>G\<close>; the splitters use three of its
  operations only: \<^verbatim>\<open>x.span()\<close>, \<^verbatim>\<open>x.hasVertex(u)\<close> and
  \<^verbatim>\<open>x.forEachEdgeKey(u, f)\<close>, which calls \<^verbatim>\<open>f\<close> on the neighbours of \<^verbatim>\<open>u\<close> in
  order.  The record holds exactly this capability.
\<close>

record graph =
  span :: nat
  hasVertex :: "nat \<Rightarrow> bool"
  edgeKeys :: "nat \<Rightarrow> nat list"

section \<open>Label propagation: \<^verbatim>\<open>splitDisconnectedCommunitiesLpaOmpW\<close>\<close>

text \<open>
  This section is the execution by one thread: the iterations of each
  \<^verbatim>\<open>omp parallel for\<close> loop run one after the other in ascending order of
  \<^verbatim>\<open>u\<close>.  The execution by several threads, in which the iterations of a round
  interleave, is the next section; \<open>lpa_par_one_thread\<close> shows that its instance with
  the empty schedule is the function of this section.  The template flag \<^verbatim>\<open>PRUNE\<close> is
  the first argument of every function below.

  Lines 29 to 32, the initialisation pass over \<^verbatim>\<open>u = 0 .. S-1\<close>:
  \<^verbatim>\<open>vcom[u] = u; if constexpr (PRUNE) vaff[u] = B(1);\<close>
\<close>

fun lpa_init :: "bool \<Rightarrow> nat list \<Rightarrow> nat list \<times> bool list \<Rightarrow> (nat list \<times> bool list) option" where
  "lpa_init PRUNE [] s = Some s"
| "lpa_init PRUNE (u # us) (vcom, vaff) = do {
     vcom' \<leftarrow> vset vcom u u;
     vaff' \<leftarrow> (if PRUNE then vset vaff u True else Some vaff);
     lpa_init PRUNE us (vcom', vaff')
   }"

text \<open>
  Lines 43 to 45, the scan of the neighbours of \<^verbatim>\<open>u\<close>:
  \<^verbatim>\<open>if (vdom[v]==d) c = min(c, vcom[v]);\<close>
\<close>

fun lpa_scan :: "nat list \<Rightarrow> nat list \<Rightarrow> nat \<Rightarrow> nat list \<Rightarrow> nat \<Rightarrow> nat option" where
  "lpa_scan vdom vcom d [] c = Some c"
| "lpa_scan vdom vcom d (v # vs) c = do {
     dv \<leftarrow> vget vdom v;
     if dv = d then do { l \<leftarrow> vget vcom v; lpa_scan vdom vcom d vs (min c l) }
     else lpa_scan vdom vcom d vs c
   }"

text \<open>
  Line 52, marking the neighbours of a changed vertex:
  \<^verbatim>\<open>if (vdom[v]==d && !vaff[v]) vaff[v] = B(1);\<close>
\<close>

fun lpa_mark :: "nat list \<Rightarrow> nat \<Rightarrow> nat list \<Rightarrow> bool list \<Rightarrow> bool list option" where
  "lpa_mark vdom d [] vaff = Some vaff"
| "lpa_mark vdom d (v # vs) vaff = do {
     dv \<leftarrow> vget vdom v;
     if dv = d then do {
       a \<leftarrow> vget vaff v;
       if \<not> a then do { vaff' \<leftarrow> vset vaff v True; lpa_mark vdom d vs vaff' }
       else lpa_mark vdom d vs vaff
     }
     else lpa_mark vdom d vs vaff
   }"

text \<open>
  Lines 38 to 52, the body of the round loop for one vertex \<^verbatim>\<open>u\<close>.  The state is
  \<open>(ndel, vcom, vaff)\<close>.  Each \<^verbatim>\<open>continue\<close> of the source is a branch that returns
  the state as it is at that point.
\<close>

definition lpa_vertex ::
  "bool \<Rightarrow> graph \<Rightarrow> nat list \<Rightarrow> nat \<Rightarrow> nat \<times> nat list \<times> bool list
     \<Rightarrow> (nat \<times> nat list \<times> bool list) option" where
  "lpa_vertex PRUNE x vdom u = (\<lambda>(ndel, vcom, vaff).
     if \<not> hasVertex x u then Some (ndel, vcom, vaff)
     else do {
       skip \<leftarrow> (if PRUNE then do { a \<leftarrow> vget vaff u; Some (\<not> a) } else Some False);
       if skip then Some (ndel, vcom, vaff)
       else do {
         d \<leftarrow> vget vdom u;
         c0 \<leftarrow> vget vcom u;
         c \<leftarrow> lpa_scan vdom vcom d (edgeKeys x u) c0;
         if c = c0 then Some (ndel, vcom, vaff)
         else do {
           vcom' \<leftarrow> vset vcom u c;
           if \<not> PRUNE then Some (ndel + 1, vcom', vaff)
           else do {
             vaff' \<leftarrow> vset vaff u False;
             vaff'' \<leftarrow> lpa_mark vdom d (edgeKeys x u) vaff';
             Some (ndel + 1, vcom', vaff'')
           }
         }
       }
     })"

text \<open>Lines 37 to 53, one round: the body for every \<^verbatim>\<open>u\<close> of the list, in order.\<close>

fun lpa_round ::
  "bool \<Rightarrow> graph \<Rightarrow> nat list \<Rightarrow> nat list \<Rightarrow> nat \<times> nat list \<times> bool list
     \<Rightarrow> (nat \<times> nat list \<times> bool list) option" where
  "lpa_round PRUNE x vdom [] s = Some s"
| "lpa_round PRUNE x vdom (u # us) s = do {
     s' \<leftarrow> lpa_vertex PRUNE x vdom u s;
     lpa_round PRUNE x vdom us s'
   }"

lemma vget_Some: "vget xs i = Some a \<longleftrightarrow> i < length xs \<and> a = xs ! i"
  by (auto simp: vget_def)

lemma vset_Some: "vset xs i a = Some ys \<longleftrightarrow> i < length xs \<and> ys = xs[i := a]"
  by (auto simp: vset_def)

lemma vget_in: "i < length xs \<Longrightarrow> vget xs i = Some (xs ! i)"
  by (simp add: vget_def)

lemma vset_in: "i < length xs \<Longrightarrow> vset xs i a = Some (xs[i := a])"
  by (simp add: vset_def)

lemma lpa_scan_le: "lpa_scan vdom vcom d vs c = Some c' \<Longrightarrow> c' \<le> c"
proof (induction vs arbitrary: c)
  case Nil
  then show ?case by simp
next
  case (Cons v vs)
  then show ?case
    by (fastforce simp: bind_eq_Some_conv split: if_splits)
qed

lemma sum_list_update_less:
  fixes xs :: "nat list"
  assumes "i < length xs" "a < xs ! i"
  shows "sum_list (xs[i := a]) < sum_list xs"
proof -
  have "xs ! i \<le> sum_list xs"
    using assms(1) by (simp add: member_le_sum_list)
  then show ?thesis
    using assms by (simp add: sum_list_update)
qed

lemma lpa_vertex_measure:
  assumes "lpa_vertex PRUNE x vdom u (n, vcom, vaff) = Some (n', vcom', vaff')"
  shows "sum_list vcom' + n' \<le> sum_list vcom + n \<and> n \<le> n'"
proof -
  have upd: "\<And>c. c \<le> vcom ! u \<Longrightarrow> c \<noteq> vcom ! u \<Longrightarrow> u < length vcom
                 \<Longrightarrow> Suc (sum_list (vcom[u := c])) \<le> sum_list vcom"
  proof -
    fix c
    assume "c \<le> vcom ! u" "c \<noteq> vcom ! u" "u < length vcom"
    then have "sum_list (vcom[u := c]) < sum_list vcom"
      by (intro sum_list_update_less) auto
    then show "Suc (sum_list (vcom[u := c])) \<le> sum_list vcom"
      by simp
  qed
  show ?thesis
    using assms
    by (auto simp: lpa_vertex_def bind_eq_Some_conv vget_Some vset_Some
        split: if_splits dest!: lpa_scan_le intro!: upd)
qed

lemma lpa_round_measure:
  "lpa_round PRUNE x vdom us (n, vcom, vaff) = Some (n', vcom', vaff')
     \<Longrightarrow> sum_list vcom' + n' \<le> sum_list vcom + n \<and> n \<le> n'"
proof (induction us arbitrary: n vcom vaff)
  case Nil
  then show ?case by simp
next
  case (Cons u us)
  from Cons.prems obtain n1 vcom1 vaff1 where
    1: "lpa_vertex PRUNE x vdom u (n, vcom, vaff) = Some (n1, vcom1, vaff1)" and
    2: "lpa_round PRUNE x vdom us (n1, vcom1, vaff1) = Some (n', vcom', vaff')"
    by (auto simp: bind_eq_Some_conv)
  from lpa_vertex_measure[OF 1] Cons.IH[OF 2] show ?case by linarith
qed

text \<open>
  Lines 34 to 55, the \<^verbatim>\<open>while (true)\<close> loop: a round with \<^verbatim>\<open>ndel\<close> starting at 0,
  then \<^verbatim>\<open>if (ndel==0) break;\<close>.  Every counted change lowers the sum of the labels,
  which is the measure of the termination proof.
\<close>

function lpa_loop ::
  "bool \<Rightarrow> graph \<Rightarrow> nat list \<Rightarrow> nat list \<times> bool list \<Rightarrow> (nat list \<times> bool list) option" where
  "lpa_loop PRUNE x vdom (vcom, vaff) =
     (case lpa_round PRUNE x vdom [0..<span x] (0, vcom, vaff) of
        None \<Rightarrow> None
      | Some (ndel, vcom', vaff') \<Rightarrow>
          if ndel = 0 then Some (vcom', vaff') else lpa_loop PRUNE x vdom (vcom', vaff'))"
  by pat_completeness auto
termination
proof (relation "measure (\<lambda>(PRUNE, x, vdom, vcom, vaff). sum_list vcom)")
  show "wf (measure (\<lambda>(PRUNE, x, vdom, vcom, vaff). sum_list vcom))"
    by simp
next
  fix PRUNE x vdom vcom vaff r ndel s' vcom' vaff'
  assume "lpa_round PRUNE x vdom [0..<span x] (0, vcom, vaff) = Some r"
    "(ndel, s') = r" "(vcom', vaff') = s'" "ndel \<noteq> 0"
  then have "lpa_round PRUNE x vdom [0..<span x] (0, vcom, vaff) = Some (ndel, vcom', vaff')"
    by simp
  from lpa_round_measure[OF this] \<open>ndel \<noteq> 0\<close>
  show "((PRUNE, x, vdom, vcom', vaff'), (PRUNE, x, vdom, vcom, vaff))
          \<in> measure (\<lambda>(PRUNE, x, vdom, vcom, vaff). sum_list vcom)"
    by simp
qed

text \<open>Lines 25 to 56, the whole operation: the initialisation pass, then the rounds.\<close>

definition splitDisconnectedCommunitiesLpaOmpW ::
  "bool \<Rightarrow> graph \<Rightarrow> nat list \<Rightarrow> nat list \<Rightarrow> bool list \<Rightarrow> (nat list \<times> bool list) option" where
  "splitDisconnectedCommunitiesLpaOmpW PRUNE x vdom vcom vaff = do {
     s \<leftarrow> lpa_init PRUNE [0..<span x] (vcom, vaff);
     lpa_loop PRUNE x vdom s
   }"

text \<open>
  The rounds of the loop, counted: \<open>lpa_iter k\<close> is the outcome of round number \<open>k\<close>
  (from 0) when the rounds of lines 35 to 53 are run one after the other from the given
  state, each starting with \<^verbatim>\<open>ndel = 0\<close>, whatever the rounds before it counted.
\<close>

fun lpa_iter ::
  "nat \<Rightarrow> bool \<Rightarrow> graph \<Rightarrow> nat list \<Rightarrow> nat list \<times> bool list
     \<Rightarrow> (nat \<times> nat list \<times> bool list) option" where
  "lpa_iter 0 PRUNE x vdom (vcom, vaff) = lpa_round PRUNE x vdom [0..<span x] (0, vcom, vaff)"
| "lpa_iter (Suc k) PRUNE x vdom (vcom, vaff) =
     (case lpa_round PRUNE x vdom [0..<span x] (0, vcom, vaff) of
        None \<Rightarrow> None
      | Some (ndel, vcom', vaff') \<Rightarrow> lpa_iter k PRUNE x vdom (vcom', vaff'))"

section \<open>Label propagation with several threads\<close>

text \<open>
  With several threads the iterations of the loop of line 37 run concurrently
  (\<^verbatim>\<open>schedule(dynamic, CHUNK_SIZE)\<close>): a thread takes the next chunk of
  \<^verbatim>\<open>CHUNK_SIZE\<close> iterations, runs them in order, and takes another chunk.  The
  iterations share \<^verbatim>\<open>vcom\<close> and \<^verbatim>\<open>vaff\<close> without any synchronisation.  The model
  assumes that single reads and writes of an entry are atomic and take effect in one
  global order; an iteration is cut into steps that each make at most one access to an
  entry that another iteration can access at the same time (\<^verbatim>\<open>vdom\<close> and the graph are
  read-only, and \<^verbatim>\<open>vcom[u]\<close> is written by the iteration of \<^verbatim>\<open>u\<close> only, so the
  iteration of \<^verbatim>\<open>u\<close> reads it without a race).

  The phase of the iteration of a vertex \<^verbatim>\<open>u\<close> within a round:
  \<open>Waiting\<close>, not started;
  \<open>Scanning d c vs\<close>, inside the scan of lines 43 to 45 with the community \<^verbatim>\<open>d\<close>, the
  minimum \<^verbatim>\<open>c\<close> so far and the neighbours \<open>vs\<close> still to look at;
  \<open>Clearing d\<close>, after the write of line 48, before line 51;
  \<open>Marking d vs\<close>, inside the loop of line 52 with the neighbours \<open>vs\<close> still to look at;
  \<open>Setting d v vs\<close>, inside line 52 for the neighbour \<^verbatim>\<open>v\<close>, after the read of
  \<^verbatim>\<open>vaff[v]\<close> found it clear and before the write of \<^verbatim>\<open>vaff[v]\<close>;
  \<open>Finished\<close>.
\<close>

datatype lpa_phase =
    Waiting
  | Scanning nat nat "nat list"
  | Clearing nat
  | Marking nat "nat list"
  | Setting nat nat "nat list"
  | Finished

type_synonym lpa_shared = "nat \<times> nat list \<times> bool list"

text \<open>
  One step of the iteration of \<^verbatim>\<open>u\<close>, by phase.
  \<open>Waiting\<close>: lines 38 to 41, the two tests (with the read of \<^verbatim>\<open>vaff[u]\<close>) and the
  reads of \<^verbatim>\<open>vdom[u]\<close> and \<^verbatim>\<open>vcom[u]\<close>.
  \<open>Scanning\<close> with a neighbour left: line 44 for that neighbour, the read of
  \<^verbatim>\<open>vcom[v]\<close>.
  \<open>Scanning\<close> with no neighbour left: lines 46 to 50, the comparison with
  \<^verbatim>\<open>vcom[u]\<close>, the write of \<^verbatim>\<open>vcom[u]\<close> and \<^verbatim>\<open>++ndel\<close> (the reduction adds the
  counts of the threads, so one counter is the same).
  \<open>Clearing\<close>: line 51.  \<open>Marking\<close> with a neighbour left: the test of line 52 with the
  read of \<^verbatim>\<open>vaff[v]\<close>.  \<open>Setting\<close>: the write of line 52.
\<close>

fun lpa_micro ::
  "bool \<Rightarrow> graph \<Rightarrow> nat list \<Rightarrow> nat \<Rightarrow> lpa_phase \<Rightarrow> lpa_shared \<Rightarrow> (lpa_phase \<times> lpa_shared) option" where
  "lpa_micro PRUNE x vdom u Waiting (ndel, vcom, vaff) =
     (if \<not> hasVertex x u then Some (Finished, ndel, vcom, vaff)
      else do {
        skip \<leftarrow> (if PRUNE then do { a \<leftarrow> vget vaff u; Some (\<not> a) } else Some False);
        if skip then Some (Finished, ndel, vcom, vaff)
        else do {
          d \<leftarrow> vget vdom u;
          c \<leftarrow> vget vcom u;
          Some (Scanning d c (edgeKeys x u), ndel, vcom, vaff)
        }
      })"
| "lpa_micro PRUNE x vdom u (Scanning d c (v # vs)) (ndel, vcom, vaff) = do {
     dv \<leftarrow> vget vdom v;
     if dv = d then do { l \<leftarrow> vget vcom v; Some (Scanning d (min c l) vs, ndel, vcom, vaff) }
     else Some (Scanning d c vs, ndel, vcom, vaff)
   }"
| "lpa_micro PRUNE x vdom u (Scanning d c []) (ndel, vcom, vaff) = do {
     c0 \<leftarrow> vget vcom u;
     if c = c0 then Some (Finished, ndel, vcom, vaff)
     else do {
       vcom' \<leftarrow> vset vcom u c;
       Some (if PRUNE then Clearing d else Finished, ndel + 1, vcom', vaff)
     }
   }"
| "lpa_micro PRUNE x vdom u (Clearing d) (ndel, vcom, vaff) = do {
     vaff' \<leftarrow> vset vaff u False;
     Some (Marking d (edgeKeys x u), ndel, vcom, vaff')
   }"
| "lpa_micro PRUNE x vdom u (Marking d (v # vs)) (ndel, vcom, vaff) = do {
     dv \<leftarrow> vget vdom v;
     if dv = d then do {
       a \<leftarrow> vget vaff v;
       Some (if \<not> a then Setting d v vs else Marking d vs, ndel, vcom, vaff)
     }
     else Some (Marking d vs, ndel, vcom, vaff)
   }"
| "lpa_micro PRUNE x vdom u (Marking d []) s = Some (Finished, s)"
| "lpa_micro PRUNE x vdom u (Setting d v vs) (ndel, vcom, vaff) = do {
     vaff' \<leftarrow> vset vaff v True;
     Some (Marking d vs, ndel, vcom, vaff')
   }"
| "lpa_micro PRUNE x vdom u Finished s = Some (Finished, s)"

text \<open>
  The state of a round is the phase of every iteration and \<open>(ndel, vcom, vaff)\<close>.  A
  schedule is the list of the vertices whose iterations take the steps, in the order of
  the steps; a vertex that names no iteration, or a finished one, changes nothing.  Every
  way in which threads can run the iterations is such a list.  (With \<^verbatim>\<open>T\<close> threads
  at most \<^verbatim>\<open>T\<close> iterations are in progress at a time, and the iterations of one chunk
  follow each other; a schedule need not be of this kind, so what holds for every schedule
  holds for every number of threads and every chunk size.)
\<close>

definition lpa_par_step ::
  "bool \<Rightarrow> graph \<Rightarrow> nat list \<Rightarrow> nat \<Rightarrow> lpa_phase list \<times> lpa_shared
     \<Rightarrow> (lpa_phase list \<times> lpa_shared) option" where
  "lpa_par_step PRUNE x vdom u = (\<lambda>(ps, s).
     if \<not> u < length ps then Some (ps, s)
     else do {
       (p, s') \<leftarrow> lpa_micro PRUNE x vdom u (ps ! u) s;
       Some (ps[u := p], s')
     })"

fun lpa_par_run ::
  "bool \<Rightarrow> graph \<Rightarrow> nat list \<Rightarrow> nat list \<Rightarrow> lpa_phase list \<times> lpa_shared
     \<Rightarrow> (lpa_phase list \<times> lpa_shared) option" where
  "lpa_par_run PRUNE x vdom [] s = Some s"
| "lpa_par_run PRUNE x vdom (u # sched) s = do {
     s' \<leftarrow> lpa_par_step PRUNE x vdom u s;
     lpa_par_run PRUNE x vdom sched s'
   }"

text \<open>
  A round ends when every iteration has finished (the implicit barrier of the loop).
  After the steps of the given schedule, \<open>lpa_par_finish\<close> lets the iterations
  0 to \<open>S-1\<close> in turn take as many steps as an iteration can need
  (\<open>lpa_round_complete\<close>); so every list is the schedule of a complete round, and the
  empty list is the round of one thread.
\<close>

definition lpa_par_finish :: "graph \<Rightarrow> nat list" where
  "lpa_par_finish x =
     concat (map (\<lambda>u. replicate (if hasVertex x u then 4 + 3 * length (edgeKeys x u) else 1) u)
       [0..<span x])"

definition lpa_par_round ::
  "bool \<Rightarrow> graph \<Rightarrow> nat list \<Rightarrow> nat list \<Rightarrow> nat list \<times> bool list
     \<Rightarrow> (nat \<times> nat list \<times> bool list) option" where
  "lpa_par_round PRUNE x vdom sched = (\<lambda>(vcom, vaff). do {
     (ps, s) \<leftarrow> lpa_par_run PRUNE x vdom (sched @ lpa_par_finish x)
        (replicate (span x) Waiting, 0, vcom, vaff);
     Some s
   })"

text \<open>
  A counted change lowers the sum of the labels in every interleaving: the minimum
  \<^verbatim>\<open>c\<close> of an iteration in progress is at most \<^verbatim>\<open>vcom[u]\<close> (\<open>lpa_ok\<close>), and line 48
  writes it only when it differs.
\<close>

definition lpa_ok :: "lpa_phase list \<Rightarrow> nat list \<Rightarrow> bool" where
  "lpa_ok ps vcom \<longleftrightarrow> (\<forall>u<length ps. \<forall>d c vs. ps ! u = Scanning d c vs \<longrightarrow> c \<le> vcom ! u)"

lemma lpa_okD: "lpa_ok ps vcom \<Longrightarrow> u < length ps \<Longrightarrow> ps ! u = Scanning d c vs \<Longrightarrow> c \<le> vcom ! u"
  unfolding lpa_ok_def by blast

lemma lpa_okI:
  "(\<And>w d c vs. w < length ps \<Longrightarrow> ps ! w = Scanning d c vs \<Longrightarrow> c \<le> vcom ! w) \<Longrightarrow> lpa_ok ps vcom"
  unfolding lpa_ok_def by blast

lemma lpa_micro_measure:
  assumes m: "lpa_micro PRUNE x vdom u p (n, vcom, vaff) = Some (p', n', vcom', vaff')"
    and c: "\<And>d c vs. p = Scanning d c vs \<Longrightarrow> c \<le> vcom ! u"
  shows "sum_list vcom' + n' \<le> sum_list vcom + n \<and> n \<le> n' \<and> length vcom' = length vcom \<and>
         (\<forall>w. w \<noteq> u \<longrightarrow> vcom' ! w = vcom ! w) \<and> vcom' ! u \<le> vcom ! u \<and>
         (\<forall>d c vs. p' = Scanning d c vs \<longrightarrow> c \<le> vcom' ! u)"
proof (cases p)
  case Waiting
  then show ?thesis using m
    by (auto simp: bind_eq_Some_conv vget_Some split: if_splits)
next
  case (Scanning d c vs)
  note cle = c[OF Scanning]
  show ?thesis
  proof (cases vs)
    case Nil
    show ?thesis
    proof (cases "c = vcom ! u")
      case True
      then show ?thesis using m Scanning Nil
        by (auto simp: bind_eq_Some_conv vget_Some vset_Some split: if_splits)
    next
      case False
      with cle have lt: "c < vcom ! u" by simp
      from m Scanning Nil False have ul: "u < length vcom" and
        r: "vcom' = vcom[u := c]" "n' = n + 1"
        by (auto simp: bind_eq_Some_conv vget_Some vset_Some split: if_splits)
      from sum_list_update_less[OF ul lt] have "sum_list (vcom[u := c]) + 1 \<le> sum_list vcom"
        by simp
      moreover have "p' \<noteq> Scanning d' c' vs'" for d' c' vs'
        using m Scanning Nil False
        by (auto simp: bind_eq_Some_conv vget_Some vset_Some split: if_splits)
      ultimately show ?thesis using r ul lt by auto
    qed
  next
    case (Cons v vs')
    then show ?thesis using m Scanning cle
      by (auto simp: bind_eq_Some_conv vget_Some split: if_splits)
  qed
next
  case (Clearing d)
  then show ?thesis using m by (auto simp: bind_eq_Some_conv vset_Some)
next
  case (Marking d vs)
  then show ?thesis using m
    by (cases vs) (auto simp: bind_eq_Some_conv vget_Some split: if_splits)
next
  case (Setting d v vs)
  then show ?thesis using m by (auto simp: bind_eq_Some_conv vset_Some)
next
  case Finished
  then show ?thesis using m by auto
qed

lemma lpa_par_step_measure:
  assumes s: "lpa_par_step PRUNE x vdom u (ps, n, vcom, vaff) = Some (ps', n', vcom', vaff')"
    and ok: "lpa_ok ps vcom"
  shows "sum_list vcom' + n' \<le> sum_list vcom + n \<and> n \<le> n' \<and> lpa_ok ps' vcom'"
proof (cases "u < length ps")
  case False
  then show ?thesis using s ok by (simp add: lpa_par_step_def)
next
  case True
  from s True obtain p where
    m: "lpa_micro PRUNE x vdom u (ps ! u) (n, vcom, vaff) = Some (p, n', vcom', vaff')" and
    ps': "ps' = ps[u := p]"
    by (auto simp: lpa_par_step_def bind_eq_Some_conv)
  note r = lpa_micro_measure[OF m lpa_okD[OF ok True]]
  have "lpa_ok ps' vcom'"
  proof (rule lpa_okI)
    fix w d c vs assume w: "w < length ps'" "ps' ! w = Scanning d c vs"
    show "c \<le> vcom' ! w"
    proof (cases "w = u")
      case True
      then show ?thesis using r w ps' \<open>u < length ps\<close> by simp
    next
      case False
      then have "ps ! w = Scanning d c vs" "w < length ps" using w ps' by simp_all
      from lpa_okD[OF ok this(2,1)] r False show ?thesis by simp
    qed
  qed
  then show ?thesis using r by simp
qed

lemma lpa_par_run_measure:
  "lpa_par_run PRUNE x vdom sched (ps, n, vcom, vaff) = Some (ps', n', vcom', vaff') \<Longrightarrow>
   lpa_ok ps vcom \<Longrightarrow>
   sum_list vcom' + n' \<le> sum_list vcom + n \<and> n \<le> n' \<and> lpa_ok ps' vcom'"
proof (induction sched arbitrary: ps n vcom vaff)
  case Nil
  then show ?case by simp
next
  case (Cons u sched)
  from Cons.prems(1) obtain ps1 n1 vcom1 vaff1 where
    1: "lpa_par_step PRUNE x vdom u (ps, n, vcom, vaff) = Some (ps1, n1, vcom1, vaff1)" and
    2: "lpa_par_run PRUNE x vdom sched (ps1, n1, vcom1, vaff1) = Some (ps', n', vcom', vaff')"
    by (auto simp: bind_eq_Some_conv)
  note a = lpa_par_step_measure[OF 1 Cons.prems(2)]
  from Cons.IH[OF 2] a show ?case by auto
qed

lemma lpa_par_round_measure:
  assumes "lpa_par_round PRUNE x vdom sched (vcom, vaff) = Some (n', vcom', vaff')"
  shows "sum_list vcom' + n' \<le> sum_list vcom"
proof -
  from assms obtain ps' where
    r: "lpa_par_run PRUNE x vdom (sched @ lpa_par_finish x)
          (replicate (span x) Waiting, 0, vcom, vaff) = Some (ps', n', vcom', vaff')"
    by (auto simp: lpa_par_round_def bind_eq_Some_conv)
  have "lpa_ok (replicate (span x) Waiting) vcom" by (simp add: lpa_ok_def)
  from lpa_par_run_measure[OF r this] show ?thesis by simp
qed

text \<open>
  The loop of lines 34 to 55 with one schedule for each round; the rounds after the last
  schedule of the list are rounds of one thread.
\<close>

function lpa_par_loop ::
  "bool \<Rightarrow> graph \<Rightarrow> nat list \<Rightarrow> nat list list \<Rightarrow> nat list \<times> bool list
     \<Rightarrow> (nat list \<times> bool list) option" where
  "lpa_par_loop PRUNE x vdom scheds (vcom, vaff) =
     (case lpa_par_round PRUNE x vdom (case scheds of [] \<Rightarrow> [] | sched # _ \<Rightarrow> sched)
             (vcom, vaff) of
        None \<Rightarrow> None
      | Some (ndel, vcom', vaff') \<Rightarrow>
          if ndel = 0 then Some (vcom', vaff')
          else lpa_par_loop PRUNE x vdom (tl scheds) (vcom', vaff'))"
  by pat_completeness auto
termination
proof (relation "measure (\<lambda>(PRUNE, x, vdom, scheds, vcom, vaff). sum_list vcom)")
  show "wf (measure (\<lambda>(PRUNE, x, vdom, scheds, vcom, vaff). sum_list vcom))"
    by simp
next
  fix PRUNE x vdom scheds vcom vaff r ndel s' vcom' vaff'
  assume "lpa_par_round PRUNE x vdom (case scheds of [] \<Rightarrow> [] | sched # _ \<Rightarrow> sched)
             (vcom, vaff) = Some r"
    "(ndel, s') = r" "(vcom', vaff') = s'" "ndel \<noteq> 0"
  then have "lpa_par_round PRUNE x vdom (case scheds of [] \<Rightarrow> [] | sched # _ \<Rightarrow> sched)
             (vcom, vaff) = Some (ndel, vcom', vaff')"
    by simp
  from lpa_par_round_measure[OF this] \<open>ndel \<noteq> 0\<close>
  show "((PRUNE, x, vdom, tl scheds, vcom', vaff'), (PRUNE, x, vdom, scheds, vcom, vaff))
          \<in> measure (\<lambda>(PRUNE, x, vdom, scheds, vcom, vaff). sum_list vcom)"
    by simp
qed

text \<open>
  Lines 25 to 56 with several threads.  The initialisation pass writes every entry once,
  whatever the order of its iterations, so it is \<open>lpa_init\<close>.
\<close>

definition lpa_par ::
  "bool \<Rightarrow> nat list list \<Rightarrow> graph \<Rightarrow> nat list \<Rightarrow> nat list \<Rightarrow> bool list
     \<Rightarrow> (nat list \<times> bool list) option" where
  "lpa_par PRUNE scheds x vdom vcom vaff = do {
     s \<leftarrow> lpa_init PRUNE [0..<span x] (vcom, vaff);
     lpa_par_loop PRUNE x vdom scheds s
   }"

section \<open>Depth-first traversal: \<^verbatim>\<open>splitDisconnectedCommunitiesDfsOmpW\<close>\<close>

text \<open>
  \<open>unvisited vis\<close> counts the clear flags of a visited buffer; it is the measure of the
  traversals below.
\<close>

definition unvisited :: "bool list \<Rightarrow> nat" where
  "unvisited vis = length (filter Not vis)"

lemma unvisited_mark:
  "i < length vis \<Longrightarrow> \<not> vis ! i \<Longrightarrow> Suc (unvisited (vis[i := True])) = unvisited vis"
  unfolding unvisited_def
proof (induction vis arbitrary: i)
  case Nil
  then show ?case by simp
next
  case (Cons b vis)
  then show ?case by (cases i) auto
qed

text \<open>
  Modelled from the spec: \<^verbatim>\<open>dfsVisitedForEachU\<close>, which \<^verbatim>\<open>split.hxx\<close> calls at line 87
  and includes from \<^verbatim>\<open>dfs.hxx\<close>; that file is not among the sources.  The spec: the
  splitter "starts a depth-first traversal restricted to same-community, unvisited
  vertices, assigning every visited vertex the initial label of the traversal's root";
  the "traversal marks vertices visited as it proceeds to avoid revisiting".  The model
  keeps the vertices still to be looked at on a stack: a vertex that is visited or fails
  the test \<open>ft\<close> is dropped; any other vertex is marked visited, handed to \<open>fp\<close>, and its
  neighbours go on top of the stack.  \<open>ft\<close> and \<open>fp\<close> are the two lambdas of lines 85
  and 86; they read and write vectors, so they can fail.
\<close>

function dfsVisitedForEachU ::
  "graph \<Rightarrow> (nat \<Rightarrow> bool option) \<Rightarrow> (nat \<Rightarrow> 's \<Rightarrow> 's option) \<Rightarrow> nat list \<Rightarrow> bool list \<times> 's
     \<Rightarrow> (bool list \<times> 's) option" where
  "dfsVisitedForEachU x ft fp [] (vis, s) = Some (vis, s)"
| "dfsVisitedForEachU x ft fp (u # st) (vis, s) =
     (case vget vis u of
        None \<Rightarrow> None
      | Some b \<Rightarrow>
          if b then dfsVisitedForEachU x ft fp st (vis, s)
          else (case ft u of
                  None \<Rightarrow> None
                | Some t \<Rightarrow>
                    if \<not> t then dfsVisitedForEachU x ft fp st (vis, s)
                    else (case fp u s of
                            None \<Rightarrow> None
                          | Some s' \<Rightarrow>
                              dfsVisitedForEachU x ft fp (edgeKeys x u @ st)
                                (vis[u := True], s'))))"
  by pat_completeness auto
termination
proof (relation "measures [\<lambda>(x, ft, fp, st, vis, s). unvisited vis,
                           \<lambda>(x, ft, fp, st, vis, s). length st]")
  show "wf (measures [\<lambda>(x, ft, fp, st, vis, s). unvisited vis,
                      \<lambda>(x, ft, fp, st, vis, s). length st])"
    by simp
next
  fix x :: graph and ft :: "nat \<Rightarrow> bool option" and fp :: "nat \<Rightarrow> 's \<Rightarrow> 's option"
    and u st vis and s :: 's and b
  assume "vget vis u = Some b" "b"
  show "((x, ft, fp, st, vis, s), (x, ft, fp, u # st, vis, s))
          \<in> measures [\<lambda>(x, ft, fp, st, vis, s). unvisited vis,
                       \<lambda>(x, ft, fp, st, vis, s). length st]"
    by simp
next
  fix x :: graph and ft :: "nat \<Rightarrow> bool option" and fp :: "nat \<Rightarrow> 's \<Rightarrow> 's option"
    and u st vis and s :: 's and b t
  assume "vget vis u = Some b" "\<not> b" "ft u = Some t" "\<not> t"
  show "((x, ft, fp, st, vis, s), (x, ft, fp, u # st, vis, s))
          \<in> measures [\<lambda>(x, ft, fp, st, vis, s). unvisited vis,
                       \<lambda>(x, ft, fp, st, vis, s). length st]"
    by simp
next
  fix x :: graph and ft :: "nat \<Rightarrow> bool option" and fp :: "nat \<Rightarrow> 's \<Rightarrow> 's option"
    and u st vis and s s' :: 's and b t
  assume "vget vis u = Some b" "\<not> b" "ft u = Some t" "\<not> \<not> t" "fp u s = Some s'"
  then have "Suc (unvisited (vis[u := True])) = unvisited vis"
    by (intro unvisited_mark) (auto simp: vget_Some)
  then show "((x, ft, fp, edgeKeys x u @ st, vis[u := True], s'), (x, ft, fp, u # st, vis, s))
          \<in> measures [\<lambda>(x, ft, fp, st, vis, s). unvisited vis,
                       \<lambda>(x, ft, fp, st, vis, s). length st]"
    by simp
qed

text \<open>
  Modelled from the spec: \<^verbatim>\<open>belongsOmp\<close>, called at line 84 and not defined in the
  sources.  The spec: "community id modulo workerCount deterministically assigns every
  community to exactly one worker".
\<close>

definition belongsOmp :: "nat \<Rightarrow> nat \<Rightarrow> nat \<Rightarrow> bool" where
  "belongsOmp d t T \<longleftrightarrow> d mod T = t"

text \<open>
  Lines 71 to 74, the initialisation pass: \<^verbatim>\<open>vcom[u] = u; vis[u] = B();\<close>
\<close>

fun dfs_init :: "nat list \<Rightarrow> nat list \<times> bool list \<Rightarrow> (nat list \<times> bool list) option" where
  "dfs_init [] s = Some s"
| "dfs_init (u # us) (vcom, vis) = do {
     vcom' \<leftarrow> vset vcom u u;
     vis' \<leftarrow> vset vis u False;
     dfs_init us (vcom', vis')
   }"

text \<open>
  Lines 81 to 87, the body of the scan of worker \<open>t\<close> of \<open>T\<close> for one vertex \<^verbatim>\<open>u\<close>.
  The state is \<open>(vcom, vis)\<close>.  \<^verbatim>\<open>vis[u]\<close> is read only when the community belongs to
  the worker, as the \<^verbatim>\<open>||\<close> of line 84 does.
\<close>

definition dfs_vertex ::
  "graph \<Rightarrow> nat list \<Rightarrow> nat \<Rightarrow> nat \<Rightarrow> nat \<Rightarrow> nat list \<times> bool list
     \<Rightarrow> (nat list \<times> bool list) option" where
  "dfs_vertex x vdom t T u = (\<lambda>(vcom, vis).
     if \<not> hasVertex x u then Some (vcom, vis)
     else do {
       d \<leftarrow> vget vdom u;
       c \<leftarrow> vget vcom u;
       if \<not> belongsOmp d t T then Some (vcom, vis)
       else do {
         b \<leftarrow> vget vis u;
         if b then Some (vcom, vis)
         else do {
           (vis', vcom') \<leftarrow> dfsVisitedForEachU x
              (\<lambda>v. do { dv \<leftarrow> vget vdom v; Some (dv = d) })
              (\<lambda>v vcom. vset vcom v c) [u] (vis, vcom);
           Some (vcom', vis')
         }
       }
     })"

text \<open>Line 80, the scan of one worker over the vertices of the list, in order.\<close>

fun dfs_worker ::
  "graph \<Rightarrow> nat list \<Rightarrow> nat \<Rightarrow> nat \<Rightarrow> nat list \<Rightarrow> nat list \<times> bool list
     \<Rightarrow> (nat list \<times> bool list) option" where
  "dfs_worker x vdom t T [] s = Some s"
| "dfs_worker x vdom t T (u # us) s = do {
     s' \<leftarrow> dfs_vertex x vdom t T u s;
     dfs_worker x vdom t T us s'
   }"

text \<open>
  Lines 76 to 89, the parallel region.  Every worker scans the whole range
  \<^verbatim>\<open>0 .. S-1\<close>.  The workers act on disjoint communities, so the model runs them one
  after the other, in the order of the list of worker numbers.
\<close>

fun dfs_workers ::
  "graph \<Rightarrow> nat list \<Rightarrow> nat \<Rightarrow> nat list \<Rightarrow> nat list \<times> bool list
     \<Rightarrow> (nat list \<times> bool list) option" where
  "dfs_workers x vdom T [] s = Some s"
| "dfs_workers x vdom T (t # ts) s = do {
     s' \<leftarrow> dfs_worker x vdom t T [0..<span x] s;
     dfs_workers x vdom T ts s'
   }"

text \<open>
  Lines 67 to 90, the whole operation; \<open>T\<close> is \<^verbatim>\<open>omp_get_num_threads()\<close>.
\<close>

definition splitDisconnectedCommunitiesDfsOmpW ::
  "nat \<Rightarrow> graph \<Rightarrow> nat list \<Rightarrow> nat list \<Rightarrow> bool list \<Rightarrow> (nat list \<times> bool list) option" where
  "splitDisconnectedCommunitiesDfsOmpW T x vdom vcom vis = do {
     s \<leftarrow> dfs_init [0..<span x] (vcom, vis);
     dfs_workers x vdom T [0..<T] s
   }"

section \<open>Breadth-first traversal: \<^verbatim>\<open>splitDisconnectedCommunitiesBfsOmpW\<close>\<close>

text \<open>
  Modelled from the spec: \<^verbatim>\<open>bfsVisitedForEachU\<close>, which \<^verbatim>\<open>split.hxx\<close> calls at line
  125 and includes from \<^verbatim>\<open>bfs.hxx\<close>; that file is not among the sources.  The spec: the
  worker "performs a breadth-first traversal confined to the claimed community using a
  frontier buffer and a start-set buffer private to that worker (reused across claims,
  cleared before each traversal), assigning every discovered vertex the label of the
  traversal root".  The model is the five definitions from \<open>bfs_edges\<close> to
  \<open>bfsVisitedForEachU\<close>.  The start vertices \<open>us\<close> are marked visited and handed to
  \<open>fp\<close> at depth 0; then, level by level, every neighbour of the current frontier that
  is not yet visited and passes the test \<open>ft\<close> is marked visited, handed to \<open>fp\<close> and
  appended to the next frontier \<open>vs\<close>, until a frontier is empty.  The second argument of
  \<open>ft\<close> and \<open>fp\<close> (ignored by the lambdas of lines 122 and 123) is the depth.  The
  buffers \<^verbatim>\<open>*us[t]\<close> and \<^verbatim>\<open>*vs[t]\<close> are cleared before every traversal (line 124):
  the model passes the start list \<open>[u]\<close> and keeps the frontier local.
\<close>

fun bfs_edges ::
  "(nat \<Rightarrow> nat \<Rightarrow> bool option) \<Rightarrow> (nat \<Rightarrow> nat \<Rightarrow> 's \<Rightarrow> 's option) \<Rightarrow> nat \<Rightarrow> nat list
     \<Rightarrow> bool list \<times> nat list \<times> 's \<Rightarrow> (bool list \<times> nat list \<times> 's) option" where
  "bfs_edges ft fp k [] r = Some r"
| "bfs_edges ft fp k (v # es) (vis, vs, s) = do {
     b \<leftarrow> vget vis v;
     if b then bfs_edges ft fp k es (vis, vs, s)
     else do {
       t \<leftarrow> ft v k;
       if \<not> t then bfs_edges ft fp k es (vis, vs, s)
       else do {
         s' \<leftarrow> fp v k s;
         bfs_edges ft fp k es (vis[v := True], vs @ [v], s')
       }
     }
   }"

fun bfs_frontier ::
  "graph \<Rightarrow> (nat \<Rightarrow> nat \<Rightarrow> bool option) \<Rightarrow> (nat \<Rightarrow> nat \<Rightarrow> 's \<Rightarrow> 's option) \<Rightarrow> nat \<Rightarrow> nat list
     \<Rightarrow> bool list \<times> nat list \<times> 's \<Rightarrow> (bool list \<times> nat list \<times> 's) option" where
  "bfs_frontier x ft fp k [] r = Some r"
| "bfs_frontier x ft fp k (u # us) r = do {
     r' \<leftarrow> bfs_edges ft fp k (edgeKeys x u) r;
     bfs_frontier x ft fp k us r'
   }"

lemma bfs_edges_unvisited:
  "bfs_edges ft fp k es (vis, vs, s) = Some (vis', vs', s') \<Longrightarrow>
     unvisited vis' + length vs' = unvisited vis + length vs"
proof (induction es arbitrary: vis vs s)
  case Nil
  then show ?case by simp
next
  case (Cons v es)
  show ?case
  proof (cases "\<exists>s1. vget vis v = Some False \<and> ft v k = Some True \<and> fp v k s = Some s1")
    case True
    then obtain s1 where a: "vget vis v = Some False" "ft v k = Some True" "fp v k s = Some s1"
      by blast
    then have "bfs_edges ft fp k es (vis[v := True], vs @ [v], s1) = Some (vis', vs', s')"
      using Cons.prems by simp
    from Cons.IH[OF this] unvisited_mark[of v vis] a(1) show ?thesis
      by (simp add: vget_Some)
  next
    case False
    then have "bfs_edges ft fp k es (vis, vs, s) = Some (vis', vs', s')"
      using Cons.prems by (auto simp: bind_eq_Some_conv split: if_splits)
    from Cons.IH[OF this] show ?thesis .
  qed
qed

lemma bfs_frontier_unvisited:
  "bfs_frontier x ft fp k us (vis, vs, s) = Some (vis', vs', s') \<Longrightarrow>
     unvisited vis' + length vs' = unvisited vis + length vs"
proof (induction us arbitrary: vis vs s)
  case Nil
  then show ?case by simp
next
  case (Cons u us)
  from Cons.prems obtain vis1 vs1 s1 where
    1: "bfs_edges ft fp k (edgeKeys x u) (vis, vs, s) = Some (vis1, vs1, s1)" and
    2: "bfs_frontier x ft fp k us (vis1, vs1, s1) = Some (vis', vs', s')"
    by (auto simp: bind_eq_Some_conv)
  from bfs_edges_unvisited[OF 1] Cons.IH[OF 2] show ?case by simp
qed

function bfs_levels ::
  "graph \<Rightarrow> (nat \<Rightarrow> nat \<Rightarrow> bool option) \<Rightarrow> (nat \<Rightarrow> nat \<Rightarrow> 's \<Rightarrow> 's option) \<Rightarrow> nat \<Rightarrow> nat list
     \<Rightarrow> bool list \<times> 's \<Rightarrow> (bool list \<times> 's) option" where
  "bfs_levels x ft fp k us (vis, s) =
     (if us = [] then Some (vis, s)
      else (case bfs_frontier x ft fp k us (vis, [], s) of
              None \<Rightarrow> None
            | Some (vis', vs, s') \<Rightarrow> bfs_levels x ft fp (Suc k) vs (vis', s')))"
  by pat_completeness auto
termination
proof (relation "measure (\<lambda>(x, ft, fp, k, us, vis, s).
                   2 * unvisited vis + (if us = [] then 0 else 1))")
  show "wf (measure (\<lambda>(x, ft, fp, k, us, vis, s).
                   2 * unvisited vis + (if us = [] then 0 else 1)))"
    by simp
next
  fix x :: graph and ft :: "nat \<Rightarrow> nat \<Rightarrow> bool option" and fp :: "nat \<Rightarrow> nat \<Rightarrow> 's \<Rightarrow> 's option"
    and k us vis and s :: 's and r vis' r' vs and s' :: 's
  assume "us \<noteq> []" "bfs_frontier x ft fp k us (vis, [], s) = Some r"
    "(vis', r') = r" "(vs, s') = r'"
  then have "bfs_frontier x ft fp k us (vis, [], s) = Some (vis', vs, s')"
    by simp
  from bfs_frontier_unvisited[OF this] \<open>us \<noteq> []\<close>
  show "((x, ft, fp, Suc k, vs, vis', s'), (x, ft, fp, k, us, vis, s))
          \<in> measure (\<lambda>(x, ft, fp, k, us, vis, s).
                   2 * unvisited vis + (if us = [] then 0 else 1))"
    by (cases vs) auto
qed

fun bfs_starts ::
  "(nat \<Rightarrow> nat \<Rightarrow> 's \<Rightarrow> 's option) \<Rightarrow> nat list \<Rightarrow> bool list \<times> 's \<Rightarrow> (bool list \<times> 's) option" where
  "bfs_starts fp [] r = Some r"
| "bfs_starts fp (u # us) (vis, s) = do {
     vis' \<leftarrow> vset vis u True;
     s' \<leftarrow> fp u 0 s;
     bfs_starts fp us (vis', s')
   }"

definition bfsVisitedForEachU ::
  "graph \<Rightarrow> (nat \<Rightarrow> nat \<Rightarrow> bool option) \<Rightarrow> (nat \<Rightarrow> nat \<Rightarrow> 's \<Rightarrow> 's option) \<Rightarrow> nat list
     \<Rightarrow> bool list \<times> 's \<Rightarrow> (bool list \<times> 's) option" where
  "bfsVisitedForEachU x ft fp us r = do {
     r0 \<leftarrow> bfs_starts fp us r;
     bfs_levels x ft fp 1 us r0
   }"

text \<open>
  The shared state of the parallel region is \<open>(vcom, cbsy, vis)\<close>.  A worker is the list
  of vertices its two loops of lines 129 and 130 have still to pass to \<^verbatim>\<open>fl\<close>, and
  the claim \<open>(u, d, c)\<close> it holds while it is between the exchange of line 121 and the
  release of line 126.
\<close>

type_synonym shared = "nat list \<times> bool list \<times> bool list"
type_synonym worker = "nat list \<times> (nat \<times> nat \<times> nat) option"

text \<open>
  Lines 108 to 112, the initialisation pass:
  \<^verbatim>\<open>vcom[u] = u; cbsy[u] = B(); vis[u] = B();\<close>
\<close>

fun bfs_init :: "nat list \<Rightarrow> shared \<Rightarrow> shared option" where
  "bfs_init [] sh = Some sh"
| "bfs_init (u # us) (vcom, cbsy, vis) = do {
     vcom' \<leftarrow> vset vcom u u;
     cbsy' \<leftarrow> vset cbsy u False;
     vis' \<leftarrow> vset vis u False;
     bfs_init us (vcom', cbsy', vis')
   }"

text \<open>
  Lines 119 to 121, the first half of \<^verbatim>\<open>fl(u)\<close>: the tests, the reads of
  \<^verbatim>\<open>vdom[u]\<close> and \<^verbatim>\<open>vcom[u]\<close>, and the claim of the community.  The plain read of
  \<^verbatim>\<open>cbsy[d]\<close> and the atomic exchange are one step: the claim succeeds exactly when
  the flag was clear.  The result is the claim (or \<open>None\<close> when \<^verbatim>\<open>fl\<close> returns early)
  and the shared state.  Here the three lines are one step, which is what happens when no
  other worker acts between them (always so with one worker); the next section takes
  them apart.
\<close>

definition fl_claim ::
  "graph \<Rightarrow> nat list \<Rightarrow> nat \<Rightarrow> shared \<Rightarrow> ((nat \<times> nat \<times> nat) option \<times> shared) option" where
  "fl_claim x vdom u = (\<lambda>(vcom, cbsy, vis).
     if \<not> hasVertex x u then Some (None, (vcom, cbsy, vis))
     else do {
       b \<leftarrow> vget vis u;
       if b then Some (None, (vcom, cbsy, vis))
       else do {
         d \<leftarrow> vget vdom u;
         c \<leftarrow> vget vcom u;
         busy \<leftarrow> vget cbsy d;
         if busy then Some (None, (vcom, cbsy, vis))
         else Some (Some (u, d, c), (vcom, cbsy[d := True], vis))
       }
     })"

text \<open>
  Lines 122 to 126, the second half of \<^verbatim>\<open>fl(u)\<close>: the traversal from \<^verbatim>\<open>u\<close> and the
  release \<^verbatim>\<open>cbsy[d] = B()\<close>.  While a worker holds a community no other worker gets
  past line 121 for a vertex of it, so the traversal is one step of the model.
\<close>

definition fl_traverse :: "graph \<Rightarrow> nat list \<Rightarrow> nat \<times> nat \<times> nat \<Rightarrow> shared \<Rightarrow> shared option" where
  "fl_traverse x vdom = (\<lambda>(u, d, c) (vcom, cbsy, vis). do {
     (vis', vcom') \<leftarrow> bfsVisitedForEachU x
        (\<lambda>v k. do { dv \<leftarrow> vget vdom v; Some (dv = d) })
        (\<lambda>v k vcom. vset vcom v c) [u] (vis, vcom);
     cbsy' \<leftarrow> vset cbsy d False;
     Some (vcom', cbsy', vis')
   })"

text \<open>
  One step of worker \<open>t\<close>: the second half of \<^verbatim>\<open>fl\<close> when it holds a claim, else the
  first half of \<^verbatim>\<open>fl\<close> for the next vertex of its scan; a worker that has finished,
  and a number that names no worker, do nothing.
\<close>

definition bfs_step ::
  "graph \<Rightarrow> nat list \<Rightarrow> nat \<Rightarrow> shared \<times> worker list \<Rightarrow> (shared \<times> worker list) option" where
  "bfs_step x vdom t = (\<lambda>(sh, ws).
     if \<not> t < length ws then Some (sh, ws)
     else (case ws ! t of (todo, hold) \<Rightarrow>
       (case hold of
          Some h \<Rightarrow> do {
            sh' \<leftarrow> fl_traverse x vdom h sh;
            Some (sh', ws[t := (todo, None)])
          }
        | None \<Rightarrow>
            (case todo of
               [] \<Rightarrow> Some (sh, ws)
             | u # rest \<Rightarrow> do {
                 (h, sh') \<leftarrow> fl_claim x vdom u sh;
                 Some (sh', ws[t := (rest, h)])
               }))))"

text \<open>
  The workers of the parallel region (lines 114 to 131) run concurrently.  A schedule is
  the list of the numbers of the workers in the order in which they take their steps.
\<close>

fun bfs_run ::
  "graph \<Rightarrow> nat list \<Rightarrow> nat list \<Rightarrow> shared \<times> worker list \<Rightarrow> (shared \<times> worker list) option" where
  "bfs_run x vdom [] s = Some s"
| "bfs_run x vdom (t # sched) s = do {
     s' \<leftarrow> bfs_step x vdom t s;
     bfs_run x vdom sched s'
   }"

text \<open>
  Lines 128 to 130: worker \<open>t\<close> of \<open>T\<close> scans from \<^verbatim>\<open>ub = K((double(t)/T) * S)\<close> to
  \<^verbatim>\<open>S-1\<close> and then from 0 to \<^verbatim>\<open>ub-1\<close>.  The model computes \<^verbatim>\<open>ub\<close> in exact
  arithmetic; the rounding of the floating-point product is not modelled.  With one or
  two workers the product is exact; what is proved for any number of workers is proved
  in the next section for arbitrary offsets.
\<close>

definition bfs_scan :: "nat \<Rightarrow> nat \<Rightarrow> nat \<Rightarrow> nat list" where
  "bfs_scan t T S = (let ub = (t * S) div T in [ub..<S] @ [0..<ub])"

text \<open>
  The parallel region ends when every worker has finished its scan.  After the steps of
  the given schedule, \<open>bfs_finish\<close> lets the workers 0 to \<open>T-1\<close> in turn take
  \<open>2 * S\<close> steps each, which is enough for each of them to finish; so every list is a
  schedule of a complete run, and a list that is itself a complete interleaving is
  followed by steps that do nothing.
\<close>

definition bfs_finish :: "nat \<Rightarrow> nat \<Rightarrow> nat list" where
  "bfs_finish T S = concat (map (\<lambda>t. replicate (2 * S) t) [0..<T])"

text \<open>
  Lines 104 to 132, the whole operation, for \<open>T\<close> workers and a schedule.
\<close>

definition splitDisconnectedCommunitiesBfsOmpW ::
  "nat \<Rightarrow> nat list \<Rightarrow> graph \<Rightarrow> nat list \<Rightarrow> nat list \<Rightarrow> bool list \<Rightarrow> bool list \<Rightarrow> shared option" where
  "splitDisconnectedCommunitiesBfsOmpW T sched x vdom vcom cbsy vis = do {
     sh \<leftarrow> bfs_init [0..<span x] (vcom, cbsy, vis);
     (sh', ws) \<leftarrow> bfs_run x vdom (sched @ bfs_finish T (span x))
        (sh, map (\<lambda>t. (bfs_scan t T (span x), None)) [0..<T]);
     Some sh'
   }"

section \<open>The breadth-first splitter, step by step\<close>

text \<open>
  Between the lines of \<^verbatim>\<open>fl(u)\<close> other workers can act.  A worker is the list of the
  vertices it has still to pass to \<^verbatim>\<open>fl\<close> and its phase inside \<^verbatim>\<open>fl\<close>:
  \<open>Idle\<close>, between two calls;
  \<open>Looked u\<close>, after line 119 found \<^verbatim>\<open>u\<close> present and not visited;
  \<open>Read u d c\<close>, after line 120 read \<^verbatim>\<open>d = vdom[u]\<close> and \<^verbatim>\<open>c = vcom[u]\<close>;
  \<open>Held u d c\<close>, after the exchange of line 121 claimed the community \<^verbatim>\<open>d\<close>.
\<close>

datatype bfs_phase = Idle | Looked nat | Read nat nat nat | Held nat nat nat

type_synonym pworker = "nat list \<times> bfs_phase"

text \<open>
  Line 119 (the read of \<^verbatim>\<open>vis[u]\<close>), line 120 (the read of \<^verbatim>\<open>vcom[u]\<close>) and line 121.
  In line 121 the plain read of \<^verbatim>\<open>cbsy[d]\<close> changes nothing and the exchange that
  follows decides alone, so the two are one step.
\<close>

definition fl_look :: "graph \<Rightarrow> nat \<Rightarrow> shared \<Rightarrow> bool option" where
  "fl_look x u = (\<lambda>(vcom, cbsy, vis).
     if \<not> hasVertex x u then Some False else do { b \<leftarrow> vget vis u; Some (\<not> b) })"

definition fl_read :: "nat list \<Rightarrow> nat \<Rightarrow> shared \<Rightarrow> (nat \<times> nat) option" where
  "fl_read vdom u = (\<lambda>(vcom, cbsy, vis). do {
     d \<leftarrow> vget vdom u;
     c \<leftarrow> vget vcom u;
     Some (d, c)
   })"

definition fl_exchange :: "nat \<Rightarrow> shared \<Rightarrow> (bool \<times> shared) option" where
  "fl_exchange d = (\<lambda>(vcom, cbsy, vis). do {
     busy \<leftarrow> vget cbsy d;
     if busy then Some (False, (vcom, cbsy, vis))
     else Some (True, (vcom, cbsy[d := True], vis))
   })"

text \<open>
  One step of a worker, by phase; in the phase \<open>Held\<close> it is \<open>fl_traverse\<close>, the
  traversal and the release of lines 122 to 126.  They are one step because a worker
  that holds the flag of a community is alone in that community: the exchange of line
  121 fails for every other worker there, and a traversal visits and labels vertices
  of the community of its root only (line 122).  A worker that is between two of the
  steps below when the community of its vertex is traversed and released goes on with
  what it has read, as in the code.
\<close>

fun fl_micro ::
  "graph \<Rightarrow> nat list \<Rightarrow> nat list \<Rightarrow> bfs_phase \<Rightarrow> shared \<Rightarrow> (pworker \<times> shared) option" where
  "fl_micro x vdom [] Idle sh = Some (([], Idle), sh)"
| "fl_micro x vdom (u # rest) Idle sh = do {
     b \<leftarrow> fl_look x u sh;
     Some ((rest, if b then Looked u else Idle), sh)
   }"
| "fl_micro x vdom todo (Looked u) sh = do {
     (d, c) \<leftarrow> fl_read vdom u sh;
     Some ((todo, Read u d c), sh)
   }"
| "fl_micro x vdom todo (Read u d c) sh = do {
     (got, sh') \<leftarrow> fl_exchange d sh;
     Some ((todo, if got then Held u d c else Idle), sh')
   }"
| "fl_micro x vdom todo (Held u d c) sh = do {
     sh' \<leftarrow> fl_traverse x vdom (u, d, c) sh;
     Some ((todo, Idle), sh')
   }"

definition bfs_par_step ::
  "graph \<Rightarrow> nat list \<Rightarrow> nat \<Rightarrow> shared \<times> pworker list \<Rightarrow> (shared \<times> pworker list) option" where
  "bfs_par_step x vdom t = (\<lambda>(sh, ws).
     if \<not> t < length ws then Some (sh, ws)
     else do {
       (w, sh') \<leftarrow> fl_micro x vdom (fst (ws ! t)) (snd (ws ! t)) sh;
       Some (sh', ws[t := w])
     })"

fun bfs_par_run ::
  "graph \<Rightarrow> nat list \<Rightarrow> nat list \<Rightarrow> shared \<times> pworker list \<Rightarrow> (shared \<times> pworker list) option" where
  "bfs_par_run x vdom [] s = Some s"
| "bfs_par_run x vdom (t # sched) s = do {
     s' \<leftarrow> bfs_par_step x vdom t s;
     bfs_par_run x vdom sched s'
   }"

text \<open>
  The scan of a worker that starts at the offset \<open>ub\<close> (lines 129 and 130), and the
  parallel region for workers with the offsets \<open>ubs\<close>, one offset for each worker.  The
  offsets are arguments: the code computes \<^verbatim>\<open>K((double(t)/T) * S)\<close>, which is some
  number from 0 to \<^verbatim>\<open>S\<close>, and what is proved below holds for all of them.  After the
  steps of the given schedule \<open>bfs_par_finish\<close> lets the workers in turn take
  \<open>4 * S\<close> steps each, which is enough for each of them to finish.
\<close>

definition bfs_scan_from :: "nat \<Rightarrow> nat \<Rightarrow> nat list" where
  "bfs_scan_from ub S = [ub..<S] @ [0..<ub]"

definition bfs_par_finish :: "nat \<Rightarrow> nat \<Rightarrow> nat list" where
  "bfs_par_finish T S = concat (map (\<lambda>t. replicate (4 * S) t) [0..<T])"

definition bfs_par ::
  "nat list \<Rightarrow> nat list \<Rightarrow> graph \<Rightarrow> nat list \<Rightarrow> nat list \<Rightarrow> bool list \<Rightarrow> bool list
     \<Rightarrow> shared option" where
  "bfs_par ubs sched x vdom vcom cbsy vis = do {
     sh \<leftarrow> bfs_init [0..<span x] (vcom, cbsy, vis);
     (sh', ws) \<leftarrow> bfs_par_run x vdom (sched @ bfs_par_finish (length ubs) (span x))
        (sh, map (\<lambda>ub. (bfs_scan_from ub (span x), Idle)) ubs);
     Some sh'
   }"

text \<open>
  The first half of \<^verbatim>\<open>fl\<close> of the section before is the three steps in a row, and
  its scan is the scan from its offset.
\<close>

lemma fl_claim_steps:
  "fl_claim x vdom u sh = do {
     b \<leftarrow> fl_look x u sh;
     if \<not> b then Some (None, sh)
     else do {
       (d, c) \<leftarrow> fl_read vdom u sh;
       (got, sh') \<leftarrow> fl_exchange d sh;
       Some (if got then Some (u, d, c) else None, sh')
     }
   }"
proof -
  obtain vcom cbsy vis where sh: "sh = (vcom, cbsy, vis)" by (cases sh)
  show ?thesis
    unfolding sh fl_claim_def fl_look_def fl_read_def fl_exchange_def
    by (cases "vget vis u"; cases "vget vdom u"; cases "vget vcom u";
        cases "vget cbsy (the (vget vdom u))") (auto simp: vget_def)
qed

lemma bfs_scan_from: "bfs_scan t T S = bfs_scan_from ((t * S) div T) S"
  by (simp add: bfs_scan_def bfs_scan_from_def Let_def)

section \<open>Connected pieces of a community\<close>

text \<open>
  A same-community edge leads from a present vertex \<open>u\<close> to a neighbour \<open>v\<close> that
  \<^verbatim>\<open>forEachEdgeKey\<close> enumerates and that has the community of \<open>u\<close>.  The piece of
  \<open>u\<close> is everything a path of such edges reaches from \<open>u\<close>.  A graph is well formed
  when the neighbours of a present vertex are present vertices below the span and every
  edge is stored in both directions (the graph is undirected).
\<close>

definition sameEdges :: "graph \<Rightarrow> nat list \<Rightarrow> (nat \<times> nat) set" where
  "sameEdges x vdom =
     {(u, v). u < span x \<and> hasVertex x u \<and> v \<in> set (edgeKeys x u) \<and> vdom ! v = vdom ! u}"

definition piece :: "graph \<Rightarrow> nat list \<Rightarrow> nat \<Rightarrow> nat set" where
  "piece x vdom u = {v. (u, v) \<in> (sameEdges x vdom)\<^sup>*}"

definition wellformed :: "graph \<Rightarrow> bool" where
  "wellformed x \<longleftrightarrow>
     (\<forall>u<span x. hasVertex x u \<longrightarrow>
        (\<forall>v\<in>set (edgeKeys x u). v < span x \<and> hasVertex x v \<and> u \<in> set (edgeKeys x v)))"

definition stable :: "graph \<Rightarrow> nat list \<Rightarrow> nat list \<Rightarrow> nat \<Rightarrow> bool" where
  "stable x vdom vcom u \<longleftrightarrow> (\<forall>v\<in>set (edgeKeys x u). vdom ! v = vdom ! u \<longrightarrow> vcom ! u \<le> vcom ! v)"

definition lpa_inv :: "bool \<Rightarrow> graph \<Rightarrow> nat list \<Rightarrow> nat list \<times> bool list \<Rightarrow> bool" where
  "lpa_inv PRUNE x vdom = (\<lambda>(vcom, vaff).
     span x \<le> length vcom \<and> span x \<le> length vdom \<and> (PRUNE \<longrightarrow> span x \<le> length vaff) \<and>
     (\<forall>u<span x. vcom ! u \<le> u \<and> (u, vcom ! u) \<in> (sameEdges x vdom)\<^sup>*) \<and>
     (PRUNE \<longrightarrow> (\<forall>u<span x. hasVertex x u \<and> \<not> vaff ! u \<longrightarrow> stable x vdom vcom u)))"

text \<open>
  \<open>closed\<close>: every neighbour of a present vertex is a present vertex below the span
  (the first half of \<open>wellformed\<close>, without the symmetry of the edges).  \<open>covers\<close>:
  \<open>vdom\<close> has an entry for every present vertex.  \<open>restricted x\<close> is the graph
  restricted to its present vertices: the absent ids have no neighbours and are nobody's
  neighbour.
\<close>

definition closed :: "graph \<Rightarrow> bool" where
  "closed x \<longleftrightarrow>
     (\<forall>u<span x. hasVertex x u \<longrightarrow> (\<forall>v\<in>set (edgeKeys x u). v < span x \<and> hasVertex x v))"

definition covers :: "graph \<Rightarrow> nat list \<Rightarrow> bool" where
  "covers x vdom \<longleftrightarrow> (\<forall>u<span x. hasVertex x u \<longrightarrow> u < length vdom)"

definition present :: "graph \<Rightarrow> nat \<Rightarrow> bool" where
  "present x u \<longleftrightarrow> u < span x \<and> hasVertex x u"


section \<open>Concrete inputs\<close>

text \<open>
  \<open>graphOf ps es\<close> is the graph with span \<open>length ps\<close>, in which vertex \<open>u\<close> is
  present when \<open>ps ! u\<close> and has the neighbours \<open>es ! u\<close>.  \<open>scenario\<close> is the
  graph with the vertices 0 to 5, the edges 0-1, 1-2 and 3-4 and the isolated vertex 5.
\<close>

definition graphOf :: "bool list \<Rightarrow> nat list list \<Rightarrow> graph" where
  "graphOf ps es = \<lparr>span = length ps, hasVertex = (\<lambda>u. u < length ps \<and> ps ! u),
                   edgeKeys = (\<lambda>u. if u < length es then es ! u else [])\<rparr>"

definition scenario :: graph where
  "scenario = graphOf [True, True, True, True, True, True] [[1], [0, 2], [1], [4], [3], []]"

lemma wellformed_scenario: "wellformed scenario"
  by (simp add: wellformed_def scenario_def graphOf_def less_Suc_eq numeral_eq_Suc All_less_Suc)

lemma lpa_scenario:
  "splitDisconnectedCommunitiesLpaOmpW True scenario [0,0,0,1,1,0] [9,9,9,9,9,9]
     [False,False,False,False,False,False]
   = Some ([0,0,0,3,3,5], [True, True, False, True, False, True])"
  by (simp add: splitDisconnectedCommunitiesLpaOmpW_def scenario_def graphOf_def upt_rec
      lpa_vertex_def vget_def vset_def)

lemmas lpa_eval = splitDisconnectedCommunitiesLpaOmpW_def scenario_def graphOf_def upt_rec
  lpa_vertex_def vget_def vset_def

text \<open>
  Further inputs.  \<open>pair_graph\<close>: the vertices 0 to 3 and the edge 0-1.
  \<open>far_pair_graph\<close>: the vertices 0 to 4 and the edge 1-3.  \<open>one_vertex\<close>: the vertex 0
  alone.  \<open>gap_graph\<close>: the vertices 0 and 2 with the edge 0-2; the id 1 is absent, and its
  slot still lists the neighbours 0 and 2.  \<open>bare_gap_graph\<close>: the same graph with an
  empty slot 1.
\<close>

definition pair_graph :: graph where
  "pair_graph = graphOf [True, True, True, True] [[1], [0], [], []]"

definition far_pair_graph :: graph where
  "far_pair_graph = graphOf [True, True, True, True, True] [[], [3], [], [1], []]"





text \<open>
  \<open>one_way_chain\<close>: the vertices 0 to 3 with edges listed at one end only: vertex 2
  lists 1, vertex 1 lists 3 and vertex 3 lists 0.
\<close>

definition one_way_chain :: graph where
  "one_way_chain = graphOf [True, True, True, True] [[], [3], [1], [0]]"

section \<open>Invariants of the traversals\<close>

text \<open>
  A traversal from the root \<open>r\<close> with the label \<open>c\<close> starts from the flags \<open>vis0\<close>
  and the labels \<open>vcom0\<close>.  \<open>trav_core\<close> holds throughout: flags are only set, a vertex
  that the traversal has marked is in the piece of \<open>r\<close>, and exactly the marked vertices
  carry the label \<open>c\<close>.  A marked vertex is \<open>expanded\<close> when each of its
  same-community neighbours is marked or still pending in \<open>pend\<close>.  \<open>trav_post\<close> is the
  result: the piece of \<open>r\<close> is marked and labelled \<open>c\<close>, and nothing else has changed.
  \<open>dfs_inv\<close> is the invariant of the depth-first traversal with the stack \<open>st\<close>.
\<close>

definition trav_core ::
  "graph \<Rightarrow> nat list \<Rightarrow> nat \<Rightarrow> nat \<Rightarrow> bool list \<Rightarrow> nat list \<Rightarrow> bool list \<times> nat list \<Rightarrow> bool" where
  "trav_core x vdom r c vis0 vcom0 = (\<lambda>(vis, vcom).
     length vis = length vis0 \<and> length vcom = length vcom0 \<and>
     (\<forall>v<length vis0. vis0 ! v \<longrightarrow> vis ! v) \<and>
     (\<forall>v<length vis0. vis ! v \<and> \<not> vis0 ! v \<longrightarrow> v \<in> piece x vdom r) \<and>
     (\<forall>v<length vcom0. vcom ! v = (if v < length vis0 \<and> vis ! v \<and> \<not> vis0 ! v then c
                                    else vcom0 ! v)))"

definition expanded :: "graph \<Rightarrow> nat list \<Rightarrow> nat \<Rightarrow> bool list \<Rightarrow> nat set \<Rightarrow> nat \<Rightarrow> bool" where
  "expanded x vdom d vis pend a \<longleftrightarrow>
     (\<forall>b\<in>set (edgeKeys x a). vdom ! b = d \<longrightarrow> vis ! b \<or> b \<in> pend)"

definition trav_post ::
  "graph \<Rightarrow> nat list \<Rightarrow> nat \<Rightarrow> nat \<Rightarrow> bool list \<Rightarrow> nat list \<Rightarrow> bool list \<times> nat list \<Rightarrow> bool" where
  "trav_post x vdom r c vis0 vcom0 = (\<lambda>(vis, vcom).
     length vis = length vis0 \<and> length vcom = length vcom0 \<and>
     (\<forall>v<length vis0. vis ! v = (vis0 ! v \<or> v \<in> piece x vdom r)) \<and>
     (\<forall>v<length vcom0. vcom ! v = (if v \<in> piece x vdom r then c else vcom0 ! v)))"

definition dfs_inv ::
  "graph \<Rightarrow> nat list \<Rightarrow> nat \<Rightarrow> nat \<Rightarrow> bool list \<Rightarrow> nat list \<Rightarrow> nat list \<Rightarrow> bool list \<times> nat list
     \<Rightarrow> bool" where
  "dfs_inv x vdom r c vis0 vcom0 st = (\<lambda>(vis, vcom).
     trav_core x vdom r c vis0 vcom0 (vis, vcom) \<and>
     (\<forall>v\<in>set st. v < span x \<and> hasVertex x v \<and> (vdom ! v = vdom ! r \<longrightarrow> v \<in> piece x vdom r)) \<and>
     (\<forall>a<span x. vis ! a \<and> \<not> vis0 ! a \<longrightarrow> expanded x vdom (vdom ! r) vis (set st) a) \<and>
     (vis ! r \<or> r \<in> set st))"

text \<open>
  The invariant of the scans of the depth-first splitter: a visited vertex is present and
  carries the smallest id of its piece, an unvisited vertex carries its own id, and a
  piece is visited as a whole.  \<open>dfs_done x vdom T t u vis\<close>: the workers before \<open>t\<close> have
  finished, and worker \<open>t\<close> has passed the vertices before \<open>u\<close>.
\<close>

definition scan_inv :: "graph \<Rightarrow> nat list \<Rightarrow> nat list \<times> bool list \<Rightarrow> bool" where
  "scan_inv x vdom = (\<lambda>(vcom, vis).
     span x \<le> length vcom \<and> span x \<le> length vis \<and>
     (\<forall>u<span x. vis ! u \<longrightarrow> hasVertex x u \<and> vcom ! u = Min (piece x vdom u)) \<and>
     (\<forall>u<span x. \<not> vis ! u \<longrightarrow> vcom ! u = u) \<and>
     (\<forall>u<span x. vis ! u \<longrightarrow> (\<forall>v\<in>piece x vdom u. vis ! v)))"

definition dfs_done :: "graph \<Rightarrow> nat list \<Rightarrow> nat \<Rightarrow> nat \<Rightarrow> nat \<Rightarrow> bool list \<Rightarrow> bool" where
  "dfs_done x vdom T t u vis \<longleftrightarrow>
     (\<forall>w<span x. hasVertex x w \<and> (vdom ! w mod T < t \<or> (vdom ! w mod T = t \<and> w < u)) \<longrightarrow> vis ! w)"

text \<open>
  The invariant of the breadth-first traversal: \<open>rem\<close> is the rest of the current
  frontier, \<open>vs\<close> the next frontier, \<open>cur\<close> the vertex whose neighbours are being
  looked at and \<open>es\<close> those of its neighbours that are still to come.
\<close>

definition bfs_inv ::
  "graph \<Rightarrow> nat list \<Rightarrow> nat \<Rightarrow> nat \<Rightarrow> bool list \<Rightarrow> nat list \<Rightarrow> nat list \<Rightarrow> nat set \<Rightarrow> nat list
     \<Rightarrow> bool list \<times> nat list \<times> nat list \<Rightarrow> bool" where
  "bfs_inv x vdom r c vis0 vcom0 rem cur es = (\<lambda>(vis, vs, vcom).
     trav_core x vdom r c vis0 vcom0 (vis, vcom) \<and>
     (\<forall>w\<in>set rem \<union> set vs \<union> cur. w < span x \<and> hasVertex x w \<and> w \<in> piece x vdom r) \<and>
     (\<forall>a<span x. vis ! a \<and> \<not> vis0 ! a \<longrightarrow>
        a \<in> set rem \<or> a \<in> set vs \<or>
        expanded x vdom (vdom ! r) vis (if a \<in> cur then set es else {}) a) \<and>
     vis ! r)"

text \<open>
  The invariants of the parallel region of the breadth-first splitter, for any number of
  workers and any schedule.  \<open>bfs_lab\<close>: the labels of a visited piece are one vertex of
  that piece, the piece is visited as a whole, and an unvisited vertex carries its own id.
  \<open>bfs_held\<close>: a worker that holds a claim \<open>(u, d, c)\<close> holds it for an unvisited present
  vertex \<open>u\<close> of the community \<open>d\<close> with \<open>c = u\<close>, the flag of \<open>d\<close> is set, and no
  other worker holds \<open>d\<close>.  \<open>bfs_effect\<close> lists what one step of worker \<open>t\<close> can do to
  the state.
\<close>

definition bfs_lab :: "graph \<Rightarrow> nat list \<Rightarrow> nat list \<Rightarrow> nat list \<times> bool list \<Rightarrow> bool" where
  "bfs_lab x vdom vcom0 = (\<lambda>(vcom, vis).
     span x \<le> length vdom \<and> span x \<le> length vcom \<and> span x \<le> length vis \<and>
     length vcom = length vcom0 \<and>
     (\<forall>i<length vcom0. span x \<le> i \<longrightarrow> vcom ! i = vcom0 ! i) \<and>
     (\<forall>u<span x. vis ! u \<longrightarrow> hasVertex x u \<and> vcom ! u \<in> piece x vdom u \<and>
        (\<forall>v\<in>piece x vdom u. vis ! v \<and> vcom ! v = vcom ! u)) \<and>
     (\<forall>u<span x. \<not> vis ! u \<longrightarrow> vcom ! u = u))"

definition bfs_held :: "graph \<Rightarrow> nat list \<Rightarrow> bool list \<Rightarrow> bool list \<Rightarrow> worker list \<Rightarrow> bool" where
  "bfs_held x vdom cbsy vis ws \<longleftrightarrow>
     (\<forall>u<span x. hasVertex x u \<longrightarrow> vdom ! u < length cbsy) \<and>
     (\<forall>t<length ws.
        (\<forall>u\<in>set (fst (ws ! t)). u < span x) \<and>
        (\<forall>u d c. snd (ws ! t) = Some (u, d, c) \<longrightarrow>
           u < span x \<and> hasVertex x u \<and> \<not> vis ! u \<and> d = vdom ! u \<and> c = u \<and> cbsy ! d \<and>
           (\<forall>t'<length ws. \<forall>u' c'. snd (ws ! t') = Some (u', d, c') \<longrightarrow> t' = t)))"

definition bfs_effect ::
  "graph \<Rightarrow> nat list \<Rightarrow> nat \<Rightarrow> shared \<times> worker list \<Rightarrow> shared \<times> worker list \<Rightarrow> bool" where
  "bfs_effect x vdom t = (\<lambda>((vcom, cbsy, vis), ws) ((vcom', cbsy', vis'), ws').
     length ws' = length ws \<and> length cbsy' = length cbsy \<and> length vis' = length vis \<and>
     (\<forall>t'<length ws. t' \<noteq> t \<longrightarrow> ws' ! t' = ws ! t') \<and>
     ((ws' = ws \<and> vcom' = vcom \<and> cbsy' = cbsy \<and> vis' = vis \<and>
       (t < length ws \<longrightarrow> ws ! t = ([], None))) \<or>
      (\<exists>u todo. t < length ws \<and> ws ! t = (u # todo, None) \<and> ws' = ws[t := (todo, None)] \<and>
         vcom' = vcom \<and> cbsy' = cbsy \<and> vis' = vis \<and>
         \<not> (hasVertex x u \<and> \<not> vis ! u \<and> \<not> cbsy ! (vdom ! u))) \<or>
      (\<exists>u todo. t < length ws \<and> ws ! t = (u # todo, None) \<and>
         ws' = ws[t := (todo, Some (u, vdom ! u, u))] \<and>
         vcom' = vcom \<and> cbsy' = cbsy[vdom ! u := True] \<and> vis' = vis \<and>
         hasVertex x u \<and> \<not> vis ! u \<and> \<not> cbsy ! (vdom ! u)) \<or>
      (\<exists>u d c todo. t < length ws \<and> ws ! t = (todo, Some (u, d, c)) \<and>
         ws' = ws[t := (todo, None)] \<and> cbsy' = cbsy[d := False] \<and>
         (\<forall>w<span x. vis' ! w = (vis ! w \<or> w \<in> piece x vdom u)) \<and>
         (\<forall>w<span x. vcom' ! w = (if w \<in> piece x vdom u then u else vcom ! w)))))"

text \<open>
  The invariant of the run with a single worker: the worker has still to pass the
  vertices from \<open>k\<close> on, every present vertex before \<open>k\<close> is visited (or is the one the
  worker holds), a set flag belongs to the claim the worker holds, and the label of a
  visited vertex is the smallest id of its piece.  \<open>pending\<close> is the number of steps the
  worker has still to take.
\<close>

definition bfs_one :: "graph \<Rightarrow> nat list \<Rightarrow> shared \<Rightarrow> worker \<Rightarrow> bool" where
  "bfs_one x vdom = (\<lambda>(vcom, cbsy, vis) (todo, hold).
     (\<exists>k\<le>span x. todo = [k..<span x] \<and>
        (\<forall>w<k. hasVertex x w \<longrightarrow> vis ! w \<or> (\<exists>d c. hold = Some (w, d, c)))) \<and>
     (\<forall>d<span x. cbsy ! d \<longrightarrow> (\<exists>u c. hold = Some (u, d, c))) \<and>
     (\<forall>u<span x. vis ! u \<longrightarrow> (\<forall>w\<in>piece x vdom u. vcom ! u \<le> w)) \<and>
     (\<forall>u d c. hold = Some (u, d, c) \<longrightarrow> (\<forall>w\<in>piece x vdom u. u \<le> w)))"

definition pending :: "worker \<Rightarrow> nat" where
  "pending = (\<lambda>(todo, hold). 2 * length todo + (case hold of None \<Rightarrow> 0 | Some h \<Rightarrow> 1))"

text \<open>
  Two inputs agree on the present vertices: same span, same present vertices, and the
  same neighbours and community for each of them.  The data of the absent ids (their
  neighbour lists and their entries of \<open>vdom\<close>) may differ.
\<close>

definition same_present :: "graph \<Rightarrow> nat list \<Rightarrow> graph \<Rightarrow> nat list \<Rightarrow> bool" where
  "same_present x vdom x' vdom' \<longleftrightarrow>
     span x' = span x \<and> span x \<le> length vdom \<and> span x \<le> length vdom' \<and>
     (\<forall>u<span x. hasVertex x' u = hasVertex x u \<and>
        (hasVertex x u \<longrightarrow> edgeKeys x' u = edgeKeys x u \<and> vdom' ! u = vdom ! u))"

section \<open>Invariants of the runs with several workers\<close>

text \<open>
  \<open>kept x vis0 vcom0\<close>: the buffers have kept their lengths, and their entries
  outside the present vertices are those of \<open>vis0\<close> and \<open>vcom0\<close>.  \<open>bfs_ft\<close>,
  \<open>bfs_fp\<close>, \<open>dfs_ft\<close> and \<open>dfs_fp\<close> are the lambdas of lines 122, 123, 85 and 86.
\<close>

definition kept :: "graph \<Rightarrow> bool list \<Rightarrow> nat list \<Rightarrow> bool list \<times> nat list \<Rightarrow> bool" where
  "kept x vis0 vcom0 = (\<lambda>(vis, vcom).
     length vis = length vis0 \<and> length vcom = length vcom0 \<and>
     (\<forall>w. \<not> present x w \<longrightarrow> vis ! w = vis0 ! w \<and> vcom ! w = vcom0 ! w))"

abbreviation (input) bfs_ft :: "nat list \<Rightarrow> nat \<Rightarrow> nat \<Rightarrow> nat \<Rightarrow> bool option" where
  "bfs_ft vdom d \<equiv> (\<lambda>v k. do { dv \<leftarrow> vget vdom v; Some (dv = d) })"

abbreviation (input) bfs_fp :: "nat \<Rightarrow> nat \<Rightarrow> nat \<Rightarrow> nat list \<Rightarrow> nat list option" where
  "bfs_fp c \<equiv> (\<lambda>v k vcom. vset vcom v c)"

abbreviation (input) dfs_ft :: "nat list \<Rightarrow> nat \<Rightarrow> nat \<Rightarrow> bool option" where
  "dfs_ft vdom d \<equiv> (\<lambda>v. do { dv \<leftarrow> vget vdom v; Some (dv = d) })"

abbreviation (input) dfs_fp :: "nat \<Rightarrow> nat \<Rightarrow> nat list \<Rightarrow> nat list option" where
  "dfs_fp c \<equiv> (\<lambda>v vcom. vset vcom v c)"

text \<open>
  The invariant of the breadth-first workers: the vertices still to scan are below the
  span, and a worker inside \<^verbatim>\<open>fl(u)\<close> is there for a present vertex \<^verbatim>\<open>u\<close> with
  \<^verbatim>\<open>d = vdom[u]\<close>.
\<close>

fun phase_ok :: "graph \<Rightarrow> nat list \<Rightarrow> bfs_phase \<Rightarrow> bool" where
  "phase_ok x vdom Idle = True"
| "phase_ok x vdom (Looked u) = present x u"
| "phase_ok x vdom (Read u d c) = (present x u \<and> d = vdom ! u)"
| "phase_ok x vdom (Held u d c) = (present x u \<and> d = vdom ! u)"

definition bfs_pinv ::
  "graph \<Rightarrow> nat list \<Rightarrow> nat list \<Rightarrow> bool list \<Rightarrow> bool list \<Rightarrow> shared \<times> pworker list \<Rightarrow> bool" where
  "bfs_pinv x vdom vcom0 cbsy0 vis0 = (\<lambda>((vcom, cbsy, vis), ws).
     kept x vis0 vcom0 (vis, vcom) \<and> length cbsy = length cbsy0 \<and>
     (\<forall>t<length ws. (\<forall>u\<in>set (fst (ws ! t)). u < span x) \<and> phase_ok x vdom (snd (ws ! t))))"

text \<open>
  The invariant of the iterations of a round of label propagation: an iteration in
  progress belongs to a present vertex, the neighbours it has still to look at are
  present, and the phases of lines 51 and 52 occur with pruning only.
\<close>

fun lpa_phase_ok :: "bool \<Rightarrow> graph \<Rightarrow> nat \<Rightarrow> lpa_phase \<Rightarrow> bool" where
  "lpa_phase_ok PRUNE x u Waiting = True"
| "lpa_phase_ok PRUNE x u (Scanning d c vs) = (present x u \<and> (\<forall>v\<in>set vs. present x v))"
| "lpa_phase_ok PRUNE x u (Clearing d) = (PRUNE \<and> present x u)"
| "lpa_phase_ok PRUNE x u (Marking d vs) = (PRUNE \<and> present x u \<and> (\<forall>v\<in>set vs. present x v))"
| "lpa_phase_ok PRUNE x u (Setting d v vs) =
     (PRUNE \<and> present x u \<and> present x v \<and> (\<forall>v\<in>set vs. present x v))"
| "lpa_phase_ok PRUNE x u Finished = True"

definition lpa_pinv ::
  "bool \<Rightarrow> graph \<Rightarrow> nat list \<Rightarrow> bool list \<Rightarrow> lpa_phase list \<times> lpa_shared \<Rightarrow> bool" where
  "lpa_pinv PRUNE x vcom0 vaff0 = (\<lambda>(ps, ndel, vcom, vaff).
     length ps = span x \<and> length vcom = length vcom0 \<and> length vaff = length vaff0 \<and>
     (\<forall>w. \<not> present x w \<longrightarrow> vcom ! w = vcom0 ! w) \<and>
     (\<forall>u<span x. lpa_phase_ok PRUNE x u (ps ! u)))"







fun lpa_left :: "graph \<Rightarrow> nat \<Rightarrow> lpa_phase \<Rightarrow> nat" where
  "lpa_left x u Waiting = (if hasVertex x u then 4 + 3 * length (edgeKeys x u) else 1)"
| "lpa_left x u (Scanning d c vs) = length vs + 3 + 2 * length (edgeKeys x u)"
| "lpa_left x u (Clearing d) = 2 + 2 * length (edgeKeys x u)"
| "lpa_left x u (Marking d vs) = 2 * length vs + 1"
| "lpa_left x u (Setting d v vs) = 2 * length vs + 2"
| "lpa_left x u Finished = 0"

text \<open>
  Label propagation without pruning, in any interleaving.  \<open>labelled\<close>: every label
  is at most the vertex's id and names a vertex that a path inside the community
  reaches.  \<open>np_ok\<close>: the minimum \<^verbatim>\<open>c\<close> of an iteration in progress is such a label
  too and is at most \<^verbatim>\<open>vcom[u]\<close>.  \<open>np_zero\<close>, which holds as long as the round has
  counted no change: \<^verbatim>\<open>c\<close> is at most the labels of the same-community neighbours
  already looked at, and a finished iteration has left its vertex with a label that is at
  most those of its same-community neighbours (\<open>stable\<close>).
\<close>

definition labelled :: "graph \<Rightarrow> nat list \<Rightarrow> nat list \<Rightarrow> bool" where
  "labelled x vdom vcom \<longleftrightarrow>
     (\<forall>u<span x. vcom ! u \<le> u \<and> (u, vcom ! u) \<in> (sameEdges x vdom)\<^sup>*)"

fun np_ok :: "graph \<Rightarrow> nat list \<Rightarrow> nat list \<Rightarrow> nat \<Rightarrow> lpa_phase \<Rightarrow> bool" where
  "np_ok x vdom vcom u Waiting = True"
| "np_ok x vdom vcom u (Scanning d c vs) =
     (present x u \<and> d = vdom ! u \<and> c \<le> vcom ! u \<and> (u, c) \<in> (sameEdges x vdom)\<^sup>* \<and>
      set vs \<subseteq> set (edgeKeys x u))"
| "np_ok x vdom vcom u (Clearing d) = False"
| "np_ok x vdom vcom u (Marking d vs) = False"
| "np_ok x vdom vcom u (Setting d v vs) = False"
| "np_ok x vdom vcom u Finished = True"

fun np_zero :: "graph \<Rightarrow> nat list \<Rightarrow> nat list \<Rightarrow> nat \<Rightarrow> lpa_phase \<Rightarrow> bool" where
  "np_zero x vdom vcom u (Scanning d c vs) =
     (\<forall>v\<in>set (edgeKeys x u). v \<notin> set vs \<longrightarrow> vdom ! v = vdom ! u \<longrightarrow> c \<le> vcom ! v)"
| "np_zero x vdom vcom u Finished = (hasVertex x u \<longrightarrow> stable x vdom vcom u)"
| "np_zero x vdom vcom u p = True"

definition np_inv ::
  "graph \<Rightarrow> nat list \<Rightarrow> nat list \<Rightarrow> lpa_phase list \<times> lpa_shared \<Rightarrow> bool" where
  "np_inv x vdom vcom0 = (\<lambda>(ps, n, vcom, vaff).
     length ps = span x \<and> labelled x vdom vcom \<and>
     (\<forall>u<span x. np_ok x vdom vcom u (ps ! u)) \<and>
     (n = 0 \<longrightarrow> vcom = vcom0 \<and> (\<forall>u<span x. np_zero x vdom vcom0 u (ps ! u))))"

section \<open>Label propagation computes the minimal representative\<close>

text \<open>
  The invariant of the rounds: every label is at most the vertex's own id and names a
  vertex of the same piece; with pruning, a present vertex whose affected flag is clear
  has a label that is at most the labels of its same-community neighbours.
\<close>

lemma wellformedD:
  assumes "wellformed x" "u < span x" "hasVertex x u" "v \<in> set (edgeKeys x u)"
  shows "v < span x" "hasVertex x v" "u \<in> set (edgeKeys x v)"
  using assms unfolding wellformed_def by blast+

lemma sameEdges_sym:
  assumes "wellformed x" "(u, v) \<in> sameEdges x vdom"
  shows "(v, u) \<in> sameEdges x vdom"
  using assms unfolding wellformed_def sameEdges_def by auto

lemma sameEdges_bound:
  assumes "wellformed x" "(u, v) \<in> sameEdges x vdom"
  shows "u < span x \<and> hasVertex x u \<and> v < span x \<and> hasVertex x v"
  using assms unfolding wellformed_def sameEdges_def by auto

lemma sameEdges_rtrancl_sym:
  assumes "wellformed x" "(u, v) \<in> (sameEdges x vdom)\<^sup>*"
  shows "(v, u) \<in> (sameEdges x vdom)\<^sup>*"
  using assms(2)
proof (induction rule: rtrancl_induct)
  case base
  then show ?case by simp
next
  case (step y z)
  from sameEdges_sym[OF assms(1) step.hyps(2)] step.IH
  show ?case by (meson converse_rtrancl_into_rtrancl)
qed

lemma piece_bound:
  assumes "wellformed x" "(u, v) \<in> (sameEdges x vdom)\<^sup>*" "u < span x" "hasVertex x u"
  shows "v < span x \<and> hasVertex x v"
  using assms(2,3,4)
proof (induction rule: rtrancl_induct)
  case base
  then show ?case by simp
next
  case (step y z)
  then show ?case using sameEdges_bound[OF assms(1) step.hyps(2)] by simp
qed

lemma piece_vdom:
  assumes "(u, v) \<in> (sameEdges x vdom)\<^sup>*"
  shows "vdom ! v = vdom ! u"
  using assms by (induction rule: rtrancl_induct) (auto simp: sameEdges_def)

lemma lpa_scan_spec:
  "lpa_scan vdom vcom d vs c0 = Some c \<Longrightarrow>
     c \<le> c0 \<and> (\<forall>v\<in>set vs. vdom ! v = d \<longrightarrow> c \<le> vcom ! v) \<and>
     (c = c0 \<or> (\<exists>v\<in>set vs. vdom ! v = d \<and> c = vcom ! v))"
proof (induction vs arbitrary: c0)
  case Nil
  then show ?case by simp
next
  case (Cons v vs)
  from Cons.prems obtain c1 where
    r: "lpa_scan vdom vcom d vs c1 = Some c" and
    c1: "c1 = (if vdom ! v = d then min c0 (vcom ! v) else c0)"
    by (auto simp: bind_eq_Some_conv vget_Some split: if_splits)
  from Cons.IH[OF r] c1 show ?case
    by (auto simp: min_def split: if_splits)
qed

lemma lpa_scan_total:
  "\<forall>v\<in>set vs. v < length vdom \<and> v < length vcom \<Longrightarrow> \<exists>c. lpa_scan vdom vcom d vs c0 = Some c"
  by (induction vs arbitrary: c0) (auto simp: vget_in)

lemma lpa_mark_spec:
  "lpa_mark vdom d vs vaff = Some vaff' \<Longrightarrow>
     length vaff' = length vaff \<and>
     (\<forall>w<length vaff. vaff' ! w = (vaff ! w \<or> (w \<in> set vs \<and> vdom ! w = d)))"
proof (induction vs arbitrary: vaff)
  case Nil
  then show ?case by simp
next
  case (Cons v vs)
  from Cons.prems obtain vaff1 where
    r: "lpa_mark vdom d vs vaff1 = Some vaff'" and
    v: "v < length vdom" and
    a1: "vaff1 = (if vdom ! v = d \<and> \<not> vaff ! v then vaff[v := True] else vaff)" and
    b: "vdom ! v = d \<longrightarrow> v < length vaff"
    by (auto simp: bind_eq_Some_conv vget_Some vset_Some split: if_splits)
  from Cons.IH[OF r] have
    l: "length vaff' = length vaff1" and
    i: "\<forall>w<length vaff1. vaff' ! w = (vaff1 ! w \<or> (w \<in> set vs \<and> vdom ! w = d))"
    by auto
  have l1: "length vaff1 = length vaff" using a1 by simp
  show ?case
  proof (intro conjI allI impI)
    show "length vaff' = length vaff" using l l1 by simp
  next
    fix w assume w: "w < length vaff"
    then have "vaff' ! w = (vaff1 ! w \<or> (w \<in> set vs \<and> vdom ! w = d))"
      using i l1 by simp
    moreover have "vaff1 ! w = (vaff ! w \<or> (w = v \<and> vdom ! v = d))"
      using a1 w by (cases "w = v") auto
    ultimately show "vaff' ! w = (vaff ! w \<or> (w \<in> set (v # vs) \<and> vdom ! w = d))"
      by auto
  qed
qed

lemma lpa_mark_total:
  "\<forall>v\<in>set vs. v < length vdom \<and> v < length vaff \<Longrightarrow> \<exists>r. lpa_mark vdom d vs vaff = Some r"
proof (induction vs arbitrary: vaff)
  case Nil
  then show ?case by simp
next
  case (Cons v vs)
  have "\<exists>r. lpa_mark vdom d vs (vaff[v := True]) = Some r"
    by (rule Cons.IH) (use Cons.prems in auto)
  moreover have "\<exists>r. lpa_mark vdom d vs vaff = Some r"
    by (rule Cons.IH) (use Cons.prems in auto)
  ultimately show ?case
    using Cons.prems by (auto simp: vget_in vset_in)
qed

lemma lpa_vertex_inv:
  assumes wf: "wellformed x" and inv: "lpa_inv PRUNE x vdom (vcom, vaff)" and u: "u < span x"
  shows "\<exists>n' vcom' vaff'.
           lpa_vertex PRUNE x vdom u (n, vcom, vaff) = Some (n', vcom', vaff') \<and>
           lpa_inv PRUNE x vdom (vcom', vaff') \<and>
           length vcom' = length vcom \<and> length vaff' = length vaff \<and>
           (\<forall>i<length vcom. vcom' ! i \<le> vcom ! i) \<and>
           (\<forall>i. span x \<le> i \<longrightarrow> vcom' ! i = vcom ! i) \<and>
           (\<forall>i<span x. \<not> hasVertex x i \<longrightarrow> vcom' ! i = vcom ! i) \<and>
           (n' = n \<longrightarrow> vcom' = vcom \<and> vaff' = vaff \<and> (hasVertex x u \<longrightarrow> stable x vdom vcom u))"
proof -
  from inv have len: "span x \<le> length vcom" "span x \<le> length vdom"
    and lena: "PRUNE \<Longrightarrow> span x \<le> length vaff"
    and lab: "\<And>i. i < span x \<Longrightarrow> vcom ! i \<le> i \<and> (i, vcom ! i) \<in> (sameEdges x vdom)\<^sup>*"
    and stb: "\<And>i. PRUNE \<Longrightarrow> i < span x \<Longrightarrow> hasVertex x i \<Longrightarrow> \<not> vaff ! i \<Longrightarrow> stable x vdom vcom i"
    by (auto simp: lpa_inv_def)
  let ?same = "\<lambda>s. lpa_vertex PRUNE x vdom u (n, vcom, vaff) = Some s"
  have same: ?thesis if "?same (n, vcom, vaff)" and "hasVertex x u \<Longrightarrow> stable x vdom vcom u"
    by (intro exI[of _ n] exI[of _ vcom] exI[of _ vaff]) (use that inv in simp)
  show ?thesis
  proof (cases "hasVertex x u")
    case False
    then have "?same (n, vcom, vaff)" by (simp add: lpa_vertex_def)
    with False show ?thesis by (intro same) auto
  next
    case pres: True
    have ul: "u < length vcom" "u < length vdom" using u len by auto
    have nb: "\<forall>v\<in>set (edgeKeys x u). v < span x \<and> hasVertex x v \<and> u \<in> set (edgeKeys x v)"
      using wellformedD[OF wf u pres] by blast
    show ?thesis
    proof (cases "PRUNE \<and> \<not> vaff ! u")
      case True
      then have "?same (n, vcom, vaff)"
        using pres lena u by (simp add: lpa_vertex_def vget_in)
      moreover have "stable x vdom vcom u" using True stb u pres by blast
      ultimately show ?thesis by (intro same) simp_all
    next
      case noskip: False
      have "\<exists>c. lpa_scan vdom vcom (vdom ! u) (edgeKeys x u) (vcom ! u) = Some c"
        by (rule lpa_scan_total) (use nb len in auto)
      then obtain c where c: "lpa_scan vdom vcom (vdom ! u) (edgeKeys x u) (vcom ! u) = Some c"
        by blast
      from lpa_scan_spec[OF c] have
        cle: "c \<le> vcom ! u" and
        cmin: "\<And>v. v \<in> set (edgeKeys x u) \<Longrightarrow> vdom ! v = vdom ! u \<Longrightarrow> c \<le> vcom ! v" and
        cwit: "c = vcom ! u \<or> (\<exists>v\<in>set (edgeKeys x u). vdom ! v = vdom ! u \<and> c = vcom ! v)"
        by auto
      have pre: "lpa_vertex PRUNE x vdom u (n, vcom, vaff) =
          (if c = vcom ! u then Some (n, vcom, vaff)
           else if \<not> PRUNE then Some (n + 1, vcom[u := c], vaff)
           else do {
             vaff'' \<leftarrow> lpa_mark vdom (vdom ! u) (edgeKeys x u) (vaff[u := False]);
             Some (n + 1, vcom[u := c], vaff'')
           })"
        using pres noskip ul lena u c
        by (auto simp: lpa_vertex_def vget_in vset_in)
      show ?thesis
      proof (cases "c = vcom ! u")
        case True
        then have "?same (n, vcom, vaff)" using pre by simp
        moreover have "stable x vdom vcom u"
          using cmin True by (auto simp: stable_def)
        ultimately show ?thesis by (intro same) simp_all
      next
        case chg: False
        have "\<exists>r. lpa_mark vdom (vdom ! u) (edgeKeys x u) (vaff[u := False]) = Some r" if PRUNE
          by (rule lpa_mark_total) (use nb len lena[OF that] in auto)
        then obtain vaff'' where
          m: "PRUNE \<Longrightarrow> lpa_mark vdom (vdom ! u) (edgeKeys x u) (vaff[u := False]) = Some vaff''"
          and m0: "\<not> PRUNE \<Longrightarrow> vaff'' = vaff"
          by (cases PRUNE) auto
        have res: "lpa_vertex PRUNE x vdom u (n, vcom, vaff) = Some (n + 1, vcom[u := c], vaff'')"
          using pre chg m m0 by (cases PRUNE) auto
        have mk: "length vaff'' = length vaff"
        proof (cases PRUNE)
          case True
          from lpa_mark_spec[OF m[OF True]] show ?thesis by simp
        next
          case False
          then show ?thesis using m0 by simp
        qed
        have mk2: "vaff'' ! w = ((vaff[u := False]) ! w \<or> (w \<in> set (edgeKeys x u) \<and> vdom ! w = vdom ! u))"
          if "PRUNE" "w < length vaff" for w
          using lpa_mark_spec[OF m[OF that(1)]] that(2) by simp
        have reach: "(u, c) \<in> (sameEdges x vdom)\<^sup>*"
        proof -
          from cwit chg obtain v where v: "v \<in> set (edgeKeys x u)" "vdom ! v = vdom ! u" "c = vcom ! v"
            by auto
          then have "(u, v) \<in> sameEdges x vdom" using u pres by (simp add: sameEdges_def)
          moreover have "(v, vcom ! v) \<in> (sameEdges x vdom)\<^sup>*" using lab nb v(1) by blast
          ultimately show ?thesis using v(3) by (meson converse_rtrancl_into_rtrancl)
        qed
        have lab': "vcom[u := c] ! i \<le> i \<and> (i, vcom[u := c] ! i) \<in> (sameEdges x vdom)\<^sup>*"
          if "i < span x" for i
        proof (cases "i = u")
          case True
          then show ?thesis using ul cle lab[OF u] reach by auto
        next
          case False
          then show ?thesis using lab[OF that] by simp
        qed
        have stb': "stable x vdom (vcom[u := c]) w"
          if P: PRUNE and w: "w < span x" "hasVertex x w" "\<not> vaff'' ! w" for w
        proof (cases "w = u")
          case True
          show ?thesis unfolding stable_def
          proof (intro ballI impI)
            fix v assume v: "v \<in> set (edgeKeys x w)" "vdom ! v = vdom ! w"
            then have "c \<le> vcom ! v" using cmin True by simp
            then have "c \<le> vcom[u := c] ! v" by (cases "v = u") (use ul in auto)
            then show "vcom[u := c] ! w \<le> vcom[u := c] ! v" using True ul by simp
          qed
        next
          case wu: False
          have wl: "w < length vaff" using lena[OF P] w by simp
          from mk2[OF P wl] w(3) wu
          have nf: "\<not> vaff ! w" and nn: "\<not> (w \<in> set (edgeKeys x u) \<and> vdom ! w = vdom ! u)"
            by auto
          have sw: "stable x vdom vcom w" using stb[OF P w(1,2) nf] .
          show ?thesis unfolding stable_def
          proof (intro ballI impI)
            fix v assume v: "v \<in> set (edgeKeys x w)" "vdom ! v = vdom ! w"
            have "v \<noteq> u"
            proof
              assume "v = u"
              moreover have "w \<in> set (edgeKeys x v)"
                using wellformedD[OF wf w(1,2) v(1)] by blast
              ultimately show False using nn v(2) by simp
            qed
            then show "vcom[u := c] ! w \<le> vcom[u := c] ! v"
              using sw v wu by (auto simp: stable_def)
          qed
        qed
        have inv': "lpa_inv PRUNE x vdom (vcom[u := c], vaff'')"
          unfolding lpa_inv_def using len lena mk lab' stb' by auto
        have mono: "\<forall>i<length vcom. vcom[u := c] ! i \<le> vcom ! i"
        proof (intro allI impI)
          fix i assume "i < length vcom"
          then show "vcom[u := c] ! i \<le> vcom ! i"
            using cle by (cases "i = u") auto
        qed
        have frame: "\<forall>i. span x \<le> i \<longrightarrow> vcom[u := c] ! i = vcom ! i"
          using u by auto
        have frame2: "\<forall>i<span x. \<not> hasVertex x i \<longrightarrow> vcom[u := c] ! i = vcom ! i"
          using pres by (metis nth_list_update_neq)
        show ?thesis
          by (intro exI[of _ "n + 1"] exI[of _ "vcom[u := c]"] exI[of _ vaff''])
             (use res inv' mk mono frame frame2 in simp)
      qed
    qed
  qed
qed

lemma lpa_round_inv:
  assumes wf: "wellformed x"
  shows "lpa_inv PRUNE x vdom (vcom, vaff) \<Longrightarrow> \<forall>u\<in>set us. u < span x \<Longrightarrow>
         \<exists>n' vcom' vaff'.
           lpa_round PRUNE x vdom us (n, vcom, vaff) = Some (n', vcom', vaff') \<and>
           lpa_inv PRUNE x vdom (vcom', vaff') \<and>
           length vcom' = length vcom \<and> length vaff' = length vaff \<and>
           (\<forall>i<length vcom. vcom' ! i \<le> vcom ! i) \<and>
           (\<forall>i. span x \<le> i \<longrightarrow> vcom' ! i = vcom ! i) \<and>
           (\<forall>i<span x. \<not> hasVertex x i \<longrightarrow> vcom' ! i = vcom ! i) \<and>
           (n' = n \<longrightarrow> vcom' = vcom \<and> vaff' = vaff \<and>
              (\<forall>u\<in>set us. hasVertex x u \<longrightarrow> stable x vdom vcom u))"
proof (induction us arbitrary: n vcom vaff)
  case Nil
  then show ?case by simp
next
  case (Cons u us)
  have u: "u < span x" using Cons.prems(2) by simp
  from lpa_vertex_inv[OF wf Cons.prems(1) u, of n] obtain n1 vcom1 vaff1 where
    v: "lpa_vertex PRUNE x vdom u (n, vcom, vaff) = Some (n1, vcom1, vaff1)" and
    i1: "lpa_inv PRUNE x vdom (vcom1, vaff1)" and
    l1: "length vcom1 = length vcom" "length vaff1 = length vaff" and
    m1: "\<forall>i<length vcom. vcom1 ! i \<le> vcom ! i" and
    f1: "\<forall>i. span x \<le> i \<longrightarrow> vcom1 ! i = vcom ! i" and
    a1: "\<forall>i<span x. \<not> hasVertex x i \<longrightarrow> vcom1 ! i = vcom ! i" and
    e1: "n1 = n \<longrightarrow> vcom1 = vcom \<and> vaff1 = vaff \<and> (hasVertex x u \<longrightarrow> stable x vdom vcom u)"
    by blast
  have us: "\<forall>u\<in>set us. u < span x" using Cons.prems(2) by simp
  from Cons.IH[OF i1 us, of n1] obtain n' vcom' vaff' where
    r: "lpa_round PRUNE x vdom us (n1, vcom1, vaff1) = Some (n', vcom', vaff')" and
    i2: "lpa_inv PRUNE x vdom (vcom', vaff')" and
    l2: "length vcom' = length vcom1" "length vaff' = length vaff1" and
    m2: "\<forall>i<length vcom1. vcom' ! i \<le> vcom1 ! i" and
    f2: "\<forall>i. span x \<le> i \<longrightarrow> vcom' ! i = vcom1 ! i" and
    a2: "\<forall>i<span x. \<not> hasVertex x i \<longrightarrow> vcom' ! i = vcom1 ! i" and
    e2: "n' = n1 \<longrightarrow> vcom' = vcom1 \<and> vaff' = vaff1 \<and>
           (\<forall>u\<in>set us. hasVertex x u \<longrightarrow> stable x vdom vcom1 u)"
    by blast
  have le1: "n \<le> n1" using lpa_vertex_measure[OF v] by simp
  have le2: "n1 \<le> n'" using lpa_round_measure[OF r] by simp
  have res: "lpa_round PRUNE x vdom (u # us) (n, vcom, vaff) = Some (n', vcom', vaff')"
    using v r by simp
  have mono: "\<forall>i<length vcom. vcom' ! i \<le> vcom ! i"
    using m1 m2 l1 by (metis order_trans)
  have e: "n' = n \<longrightarrow> vcom' = vcom \<and> vaff' = vaff \<and>
             (\<forall>u\<in>set (u # us). hasVertex x u \<longrightarrow> stable x vdom vcom u)"
  proof
    assume "n' = n"
    then have "n1 = n" "n' = n1" using le1 le2 by auto
    then show "vcom' = vcom \<and> vaff' = vaff \<and>
             (\<forall>u\<in>set (u # us). hasVertex x u \<longrightarrow> stable x vdom vcom u)"
      using e1 e2 by simp
  qed
  show ?case
    by (intro exI[of _ n'] exI[of _ vcom'] exI[of _ vaff'])
       (use res i2 l1 l2 mono f1 f2 a1 a2 e in simp)
qed

lemma lpa_loop_inv:
  "wellformed x \<Longrightarrow> lpa_inv PRUNE x vdom (vcom, vaff) \<Longrightarrow>
         \<exists>vcom' vaff'.
           lpa_loop PRUNE x vdom (vcom, vaff) = Some (vcom', vaff') \<and>
           lpa_inv PRUNE x vdom (vcom', vaff') \<and>
           length vcom' = length vcom \<and> length vaff' = length vaff \<and>
           (\<forall>i<length vcom. vcom' ! i \<le> vcom ! i) \<and>
           (\<forall>i. span x \<le> i \<longrightarrow> vcom' ! i = vcom ! i) \<and>
           (\<forall>i<span x. \<not> hasVertex x i \<longrightarrow> vcom' ! i = vcom ! i) \<and>
           (\<forall>u<span x. hasVertex x u \<longrightarrow> stable x vdom vcom' u)"
proof (induction PRUNE x vdom "(vcom, vaff)" arbitrary: vcom vaff rule: lpa_loop.induct)
  case (1 PRUNE x vdom vcom vaff)
  note wf = "1.prems"(1)
  have us: "\<forall>u\<in>set [0..<span x]. u < span x" by simp
  from lpa_round_inv[OF wf "1.prems"(2) us, of 0] obtain n' vcom1 vaff1 where
    r: "lpa_round PRUNE x vdom [0..<span x] (0, vcom, vaff) = Some (n', vcom1, vaff1)" and
    i1: "lpa_inv PRUNE x vdom (vcom1, vaff1)" and
    l1: "length vcom1 = length vcom" "length vaff1 = length vaff" and
    m1: "\<forall>i<length vcom. vcom1 ! i \<le> vcom ! i" and
    f1: "\<forall>i. span x \<le> i \<longrightarrow> vcom1 ! i = vcom ! i" and
    a1: "\<forall>i<span x. \<not> hasVertex x i \<longrightarrow> vcom1 ! i = vcom ! i" and
    e1: "n' = 0 \<longrightarrow> vcom1 = vcom \<and> vaff1 = vaff \<and>
           (\<forall>u\<in>set [0..<span x]. hasVertex x u \<longrightarrow> stable x vdom vcom u)"
    by blast
  show ?case
  proof (cases "n' = 0")
    case True
    then have res: "lpa_loop PRUNE x vdom (vcom, vaff) = Some (vcom1, vaff1)"
      using r by simp
    have st: "\<forall>u<span x. hasVertex x u \<longrightarrow> stable x vdom vcom1 u"
      using e1 True by simp
    show ?thesis
      by (intro exI[of _ vcom1] exI[of _ vaff1]) (use res i1 l1 m1 f1 a1 st in simp)
  next
    case False
    then have res: "lpa_loop PRUNE x vdom (vcom, vaff) = lpa_loop PRUNE x vdom (vcom1, vaff1)"
      using r by simp
    from "1.hyps"[OF r refl refl False wf i1] obtain vcom' vaff' where
      r2: "lpa_loop PRUNE x vdom (vcom1, vaff1) = Some (vcom', vaff')" and
      i2: "lpa_inv PRUNE x vdom (vcom', vaff')" and
      l2: "length vcom' = length vcom1" "length vaff' = length vaff1" and
      m2: "\<forall>i<length vcom1. vcom' ! i \<le> vcom1 ! i" and
      f2: "\<forall>i. span x \<le> i \<longrightarrow> vcom' ! i = vcom1 ! i" and
      a2: "\<forall>i<span x. \<not> hasVertex x i \<longrightarrow> vcom' ! i = vcom1 ! i" and
      st: "\<forall>u<span x. hasVertex x u \<longrightarrow> stable x vdom vcom' u"
      by blast
    have mono: "\<forall>i<length vcom. vcom' ! i \<le> vcom ! i"
      using m1 m2 l1 by (metis order_trans)
    show ?thesis
      by (intro exI[of _ vcom'] exI[of _ vaff'])
         (use res r2 i2 l1 l2 mono f1 f2 a1 a2 st in simp)
  qed
qed

lemma lpa_init_spec:
  "\<forall>u\<in>set us. u < length vcom \<and> (PRUNE \<longrightarrow> u < length vaff) \<Longrightarrow>
   \<exists>vcom' vaff'.
     lpa_init PRUNE us (vcom, vaff) = Some (vcom', vaff') \<and>
     length vcom' = length vcom \<and> length vaff' = length vaff \<and>
     (\<forall>i. vcom' ! i = (if i \<in> set us then i else vcom ! i)) \<and>
     (\<forall>i<length vaff. vaff' ! i = (vaff ! i \<or> (PRUNE \<and> i \<in> set us)))"
proof (induction us arbitrary: vcom vaff)
  case Nil
  then show ?case by simp
next
  case (Cons u us)
  define vaff1 where "vaff1 = (if PRUNE then vaff[u := True] else vaff)"
  have s: "lpa_init PRUNE (u # us) (vcom, vaff) = lpa_init PRUNE us (vcom[u := u], vaff1)"
    using Cons.prems by (simp add: vset_in vaff1_def)
  have l2: "length vaff1 = length vaff" by (simp add: vaff1_def)
  have "\<forall>w\<in>set us. w < length (vcom[u := u]) \<and> (PRUNE \<longrightarrow> w < length vaff1)"
    using Cons.prems by (simp add: vaff1_def)
  from Cons.IH[OF this] obtain vcom' vaff' where
    r: "lpa_init PRUNE us (vcom[u := u], vaff1) = Some (vcom', vaff')" and
    l: "length vcom' = length vcom" "length vaff' = length vaff1" and
    c: "\<forall>i. vcom' ! i = (if i \<in> set us then i else vcom[u := u] ! i)" and
    a: "\<forall>i<length vaff1. vaff' ! i = (vaff1 ! i \<or> (PRUNE \<and> i \<in> set us))"
    by auto
  have c': "\<forall>i. vcom' ! i = (if i \<in> set (u # us) then i else vcom ! i)"
  proof
    fix i
    show "vcom' ! i = (if i \<in> set (u # us) then i else vcom ! i)"
      using c Cons.prems by (cases "i = u") auto
  qed
  have a': "\<forall>i<length vaff. vaff' ! i = (vaff ! i \<or> (PRUNE \<and> i \<in> set (u # us)))"
  proof (intro allI impI)
    fix i assume i: "i < length vaff"
    have "vaff1 ! i = (vaff ! i \<or> (PRUNE \<and> i = u))"
      using i by (cases "i = u") (auto simp: vaff1_def)
    then show "vaff' ! i = (vaff ! i \<or> (PRUNE \<and> i \<in> set (u # us)))"
      using a i l2 by auto
  qed
  show ?case
    by (intro exI[of _ vcom'] exI[of _ vaff']) (use s r l l2 c' a' in simp)
qed

lemma piece_finite:
  assumes "wellformed x" "u < span x" "hasVertex x u"
  shows "finite (piece x vdom u)" "piece x vdom u \<subseteq> {..<span x}"
proof -
  show "piece x vdom u \<subseteq> {..<span x}"
    using piece_bound[OF assms(1) _ assms(2,3)] by (auto simp: piece_def)
  then show "finite (piece x vdom u)"
    using finite_subset by blast
qed

lemma stable_label_Min:
  assumes wf: "wellformed x"
    and lab: "\<forall>u<span x. vcom ! u \<le> u \<and> (u, vcom ! u) \<in> (sameEdges x vdom)\<^sup>*"
    and st: "\<forall>u<span x. hasVertex x u \<longrightarrow> stable x vdom vcom u"
    and u: "u < span x" "hasVertex x u"
  shows "vcom ! u = Min (piece x vdom u)"
proof (rule sym, rule Min_eqI)
  show "finite (piece x vdom u)" using piece_finite[OF wf u] by simp
  show "vcom ! u \<in> piece x vdom u" using lab u by (simp add: piece_def)
  fix w assume "w \<in> piece x vdom u"
  then have r: "(u, w) \<in> (sameEdges x vdom)\<^sup>*" by (simp add: piece_def)
  then have "vcom ! u \<le> vcom ! w"
  proof (induction rule: rtrancl_induct)
    case base
    then show ?case by simp
  next
    case (step a b)
    from step.hyps(2) have "a < span x" "hasVertex x a" "b \<in> set (edgeKeys x a)"
      "vdom ! b = vdom ! a"
      by (auto simp: sameEdges_def)
    then have "vcom ! a \<le> vcom ! b" using st by (auto simp: stable_def)
    with step.IH show ?case by simp
  qed
  moreover have "w < span x" using piece_bound[OF wf r u] by simp
  ultimately show "vcom ! u \<le> w" using lab by (meson order_trans)
qed

lemma lpa_result:
  assumes wf: "wellformed x"
    and len: "span x \<le> length vdom" "span x \<le> length vcom" "PRUNE \<longrightarrow> span x \<le> length vaff"
  shows "\<exists>vcom' vaff'.
     splitDisconnectedCommunitiesLpaOmpW PRUNE x vdom vcom vaff = Some (vcom', vaff') \<and>
     length vcom' = length vcom \<and>
     (\<forall>u<span x. vcom' ! u = (if hasVertex x u then Min (piece x vdom u) else u)) \<and>
     (\<forall>i. span x \<le> i \<longrightarrow> vcom' ! i = vcom ! i)"
proof -
  have "\<forall>u\<in>set [0..<span x]. u < length vcom \<and> (PRUNE \<longrightarrow> u < length vaff)"
    using len by auto
  from lpa_init_spec[OF this] obtain vcom0 vaff0 where
    i: "lpa_init PRUNE [0..<span x] (vcom, vaff) = Some (vcom0, vaff0)" and
    l0: "length vcom0 = length vcom" "length vaff0 = length vaff" and
    c0: "\<forall>i. vcom0 ! i = (if i \<in> set [0..<span x] then i else vcom ! i)" and
    a0: "\<forall>i<length vaff. vaff0 ! i = (vaff ! i \<or> (PRUNE \<and> i \<in> set [0..<span x]))"
    by blast
  have aff0: "vaff0 ! u" if "PRUNE" "u < span x" for u
    using a0 len(3) that by simp
  have inv0: "lpa_inv PRUNE x vdom (vcom0, vaff0)"
    unfolding lpa_inv_def using len l0 c0 aff0 by simp
  from lpa_loop_inv[OF wf inv0] obtain vcom' vaff' where
    r: "lpa_loop PRUNE x vdom (vcom0, vaff0) = Some (vcom', vaff')" and
    i2: "lpa_inv PRUNE x vdom (vcom', vaff')" and
    l2: "length vcom' = length vcom0" and
    f2: "\<forall>i. span x \<le> i \<longrightarrow> vcom' ! i = vcom0 ! i" and
    a2: "\<forall>i<span x. \<not> hasVertex x i \<longrightarrow> vcom' ! i = vcom0 ! i" and
    st: "\<forall>u<span x. hasVertex x u \<longrightarrow> stable x vdom vcom' u"
    by blast
  have lab: "\<forall>u<span x. vcom' ! u \<le> u \<and> (u, vcom' ! u) \<in> (sameEdges x vdom)\<^sup>*"
    using i2 by (simp add: lpa_inv_def)
  have res: "splitDisconnectedCommunitiesLpaOmpW PRUNE x vdom vcom vaff = Some (vcom', vaff')"
    using i r by (simp add: splitDisconnectedCommunitiesLpaOmpW_def)
  have m: "\<forall>u<span x. vcom' ! u = (if hasVertex x u then Min (piece x vdom u) else u)"
  proof (intro allI impI)
    fix u assume u: "u < span x"
    show "vcom' ! u = (if hasVertex x u then Min (piece x vdom u) else u)"
    proof (cases "hasVertex x u")
      case True
      then show ?thesis using stable_label_Min[OF wf lab st u] by simp
    next
      case False
      then show ?thesis using a2 c0 u by simp
    qed
  qed
  have f: "\<forall>i. span x \<le> i \<longrightarrow> vcom' ! i = vcom ! i"
    using f2 c0 by simp
  show ?thesis
    by (intro exI[of _ vcom'] exI[of _ vaff']) (use res l2 l0 m f in simp)
qed

lemma lpa_scan_Min:
  assumes "lpa_scan vdom vcom d vs c0 = Some c"
  shows "c = Min (insert c0 {vcom ! v |v. v \<in> set vs \<and> vdom ! v = d})"
proof (rule sym, rule Min_eqI)
  show "finite (insert c0 {vcom ! v |v. v \<in> set vs \<and> vdom ! v = d})" by simp
  show "c \<in> insert c0 {vcom ! v |v. v \<in> set vs \<and> vdom ! v = d}"
    using lpa_scan_spec[OF assms] by auto
  show "\<And>y. y \<in> insert c0 {vcom ! v |v. v \<in> set vs \<and> vdom ! v = d} \<Longrightarrow> c \<le> y"
    using lpa_scan_spec[OF assms] by auto
qed

lemma lpa_vertex_change:
  assumes "lpa_vertex PRUNE x vdom u (n, vcom, vaff) = Some (n', vcom', vaff')"
  shows "(n' = n \<and> vcom' = vcom \<and> vaff' = vaff) \<or>
         (n' = n + 1 \<and> u < length vcom \<and>
          vcom' = vcom[u := Min (insert (vcom ! u)
                     {vcom ! v |v. v \<in> set (edgeKeys x u) \<and> vdom ! v = vdom ! u})] \<and>
          Min (insert (vcom ! u)
                     {vcom ! v |v. v \<in> set (edgeKeys x u) \<and> vdom ! v = vdom ! u}) < vcom ! u)"
proof (cases "n' = n")
  case True
  then show ?thesis
    using assms
    by (auto simp: lpa_vertex_def bind_eq_Some_conv split: if_splits)
next
  case False
  then obtain c where
    c: "lpa_scan vdom vcom (vdom ! u) (edgeKeys x u) (vcom ! u) = Some c" and
    r: "c \<noteq> vcom ! u" "u < length vcom" "vcom' = vcom[u := c]" "n' = n + 1"
    using assms
    by (auto simp: lpa_vertex_def bind_eq_Some_conv vget_Some vset_Some split: if_splits)
  have "c < vcom ! u" using lpa_scan_le[OF c] r(1) by simp
  then show ?thesis using lpa_scan_Min[OF c] r by simp
qed

lemma lpa_vertex_mono:
  assumes "lpa_vertex PRUNE x vdom u (n, vcom, vaff) = Some (n', vcom', vaff')"
  shows "length vcom' = length vcom \<and> (\<forall>i<length vcom. vcom' ! i \<le> vcom ! i)"
proof -
  from lpa_vertex_change[OF assms] show ?thesis
  proof
    assume "n' = n \<and> vcom' = vcom \<and> vaff' = vaff"
    then show ?thesis by simp
  next
    assume a: "n' = n + 1 \<and> u < length vcom \<and>
          vcom' = vcom[u := Min (insert (vcom ! u)
                     {vcom ! v |v. v \<in> set (edgeKeys x u) \<and> vdom ! v = vdom ! u})] \<and>
          Min (insert (vcom ! u)
                     {vcom ! v |v. v \<in> set (edgeKeys x u) \<and> vdom ! v = vdom ! u}) < vcom ! u"
    show ?thesis
    proof (intro conjI allI impI)
      show "length vcom' = length vcom" using a by simp
      fix i assume "i < length vcom"
      then show "vcom' ! i \<le> vcom ! i" using a by (cases "i = u") auto
    qed
  qed
qed

lemma lpa_round_mono:
  "lpa_round PRUNE x vdom us (n, vcom, vaff) = Some (n', vcom', vaff') \<Longrightarrow>
   length vcom' = length vcom \<and> (\<forall>i<length vcom. vcom' ! i \<le> vcom ! i)"
proof (induction us arbitrary: n vcom vaff)
  case Nil
  then show ?case by simp
next
  case (Cons u us)
  from Cons.prems obtain n1 vcom1 vaff1 where
    1: "lpa_vertex PRUNE x vdom u (n, vcom, vaff) = Some (n1, vcom1, vaff1)" and
    2: "lpa_round PRUNE x vdom us (n1, vcom1, vaff1) = Some (n', vcom', vaff')"
    by (auto simp: bind_eq_Some_conv)
  from lpa_vertex_mono[OF 1] Cons.IH[OF 2] show ?case
    by (metis order_trans)
qed

lemma lpa_loop_mono:
  "lpa_loop PRUNE x vdom (vcom, vaff) = Some (vcom', vaff') \<Longrightarrow>
   length vcom' = length vcom \<and> (\<forall>i<length vcom. vcom' ! i \<le> vcom ! i)"
proof (induction PRUNE x vdom "(vcom, vaff)" arbitrary: vcom vaff rule: lpa_loop.induct)
  case (1 PRUNE x vdom vcom vaff)
  from "1.prems" obtain ndel vcom1 vaff1 where
    r: "lpa_round PRUNE x vdom [0..<span x] (0, vcom, vaff) = Some (ndel, vcom1, vaff1)"
    by (auto split: option.splits)
  note m = lpa_round_mono[OF r]
  show ?case
  proof (cases "ndel = 0")
    case True
    then have "vcom' = vcom1" using "1.prems" r by simp
    then show ?thesis using m by simp
  next
    case False
    then have "lpa_loop PRUNE x vdom (vcom1, vaff1) = Some (vcom', vaff')"
      using "1.prems" r by simp
    from "1.hyps"[OF r refl refl False this] m show ?thesis
      by (metis order_trans)
  qed
qed

lemma lpa_loop_rounds:
  "\<exists>k\<le>sum_list vcom.
     (\<forall>j<k. \<exists>ndel v a. lpa_iter j PRUNE x vdom (vcom, vaff) = Some (ndel, v, a) \<and> ndel \<noteq> 0) \<and>
     (case lpa_iter k PRUNE x vdom (vcom, vaff) of
        None \<Rightarrow> lpa_loop PRUNE x vdom (vcom, vaff) = None
      | Some (ndel, v, a) \<Rightarrow> ndel = 0 \<and> lpa_loop PRUNE x vdom (vcom, vaff) = Some (v, a))"
proof (induction PRUNE x vdom "(vcom, vaff)" arbitrary: vcom vaff rule: lpa_loop.induct)
  case (1 PRUNE x vdom vcom vaff)
  let ?r = "lpa_round PRUNE x vdom [0..<span x] (0, vcom, vaff)"
  show ?case
  proof (cases ?r)
    case None
    then show ?thesis by (intro exI[of _ 0]) simp
  next
    case (Some res)
    obtain ndel vcom1 vaff1 where res: "res = (ndel, vcom1, vaff1)" by (cases res)
    note r = Some[unfolded res]
    show ?thesis
    proof (cases "ndel = 0")
      case True
      then show ?thesis using r by (intro exI[of _ 0]) simp
    next
      case False
      from "1.hyps"[OF r refl refl False] obtain k where
        k: "k \<le> sum_list vcom1" and
        b: "\<forall>j<k. \<exists>ndel v a. lpa_iter j PRUNE x vdom (vcom1, vaff1) = Some (ndel, v, a) \<and> ndel \<noteq> 0"
        and e: "case lpa_iter k PRUNE x vdom (vcom1, vaff1) of
           None \<Rightarrow> lpa_loop PRUNE x vdom (vcom1, vaff1) = None
         | Some (ndel, v, a) \<Rightarrow> ndel = 0 \<and> lpa_loop PRUNE x vdom (vcom1, vaff1) = Some (v, a)"
        by blast
      have less: "sum_list vcom1 < sum_list vcom"
        using lpa_round_measure[OF r] False by simp
      have lp: "lpa_loop PRUNE x vdom (vcom, vaff) = lpa_loop PRUNE x vdom (vcom1, vaff1)"
        using r False by simp
      have it: "lpa_iter (Suc j) PRUNE x vdom (vcom, vaff) = lpa_iter j PRUNE x vdom (vcom1, vaff1)"
        for j using r by simp
      have b': "\<forall>j<Suc k. \<exists>ndel v a.
          lpa_iter j PRUNE x vdom (vcom, vaff) = Some (ndel, v, a) \<and> ndel \<noteq> 0"
      proof (intro allI impI)
        fix j assume j: "j < Suc k"
        show "\<exists>ndel v a. lpa_iter j PRUNE x vdom (vcom, vaff) = Some (ndel, v, a) \<and> ndel \<noteq> 0"
        proof (cases j)
          case 0
          then show ?thesis using r False by simp
        next
          case (Suc j')
          then show ?thesis using b j it by simp
        qed
      qed
      have e': "case lpa_iter (Suc k) PRUNE x vdom (vcom, vaff) of
           None \<Rightarrow> lpa_loop PRUNE x vdom (vcom, vaff) = None
         | Some (ndel, v, a) \<Rightarrow> ndel = 0 \<and> lpa_loop PRUNE x vdom (vcom, vaff) = Some (v, a)"
        unfolding it lp using e .
      have "Suc k \<le> sum_list vcom" using k less by simp
      then show ?thesis using b' e' by blast
    qed
  qed
qed

section \<open>The depth-first traversal visits exactly the piece of its root\<close>

text \<open>
  \<open>dfs_rule\<close> is the proof rule of the traversal: an invariant of the stack and the
  state that every step keeps holds, with the empty stack, for the result, and the
  traversal returns.  \<open>dfs_piece\<close> instantiates it with \<open>dfs_inv\<close>.
\<close>

lemma dfs_rule:
  "(\<And>u st vis s. I (u # st) (vis, s) \<Longrightarrow>
       u < length vis \<and> (vis ! u \<longrightarrow> I st (vis, s)) \<and>
       (\<not> vis ! u \<longrightarrow> (\<exists>t. ft u = Some t \<and> (\<not> t \<longrightarrow> I st (vis, s)) \<and>
          (t \<longrightarrow> (\<exists>s'. fp u s = Some s' \<and> I (edgeKeys x u @ st) (vis[u := True], s'))))))
   \<Longrightarrow> I st (vis, s) \<Longrightarrow> \<exists>r. dfsVisitedForEachU x ft fp st (vis, s) = Some r \<and> I [] r"
proof (induction x ft fp st "(vis, s)" arbitrary: vis s rule: dfsVisitedForEachU.induct)
  case (1 x ft fp vis s)
  then show ?case by simp
next
  case (2 x ft fp u st vis s)
  note step = "2.prems"(1)
  note st = step[OF "2.prems"(2)]
  then have ul: "vget vis u = Some (vis ! u)" by (simp add: vget_in)
  show ?case
  proof (cases "vis ! u")
    case True
    then have "I st (vis, s)" using st by simp
    from "2.hyps"(1)[OF ul True step this] show ?thesis using ul True by simp
  next
    case False
    with st have "\<exists>t. ft u = Some t \<and> (\<not> t \<longrightarrow> I st (vis, s)) \<and>
          (t \<longrightarrow> (\<exists>s'. fp u s = Some s' \<and> I (edgeKeys x u @ st) (vis[u := True], s')))"
      by simp
    then obtain t where t: "ft u = Some t" "\<not> t \<longrightarrow> I st (vis, s)"
      "t \<longrightarrow> (\<exists>s'. fp u s = Some s' \<and> I (edgeKeys x u @ st) (vis[u := True], s'))"
      by blast
    show ?thesis
    proof (cases t)
      case True
      then obtain s' where s': "fp u s = Some s'" "I (edgeKeys x u @ st) (vis[u := True], s')"
        using t(3) by blast
      have nn: "\<not> \<not> t" using True by simp
      from "2.hyps"(3)[OF ul False t(1) nn s'(1) step s'(2)]
      show ?thesis using ul False t(1) s'(1) True by simp
    next
      case nt: False
      then have "I st (vis, s)" using t(2) by simp
      from "2.hyps"(2)[OF ul False t(1) nt step this]
      show ?thesis using ul False t(1) nt by simp
    qed
  qed
qed

lemma piece_refl: "u \<in> piece x vdom u"
  by (simp add: piece_def)

lemma piece_step:
  assumes "u \<in> piece x vdom r" "u < span x" "hasVertex x u" "v \<in> set (edgeKeys x u)"
    "vdom ! v = vdom ! u"
  shows "v \<in> piece x vdom r"
proof -
  have "(u, v) \<in> sameEdges x vdom" using assms by (simp add: sameEdges_def)
  then show ?thesis using assms(1) by (auto simp: piece_def)
qed

lemma trav_core_init: "trav_core x vdom r c vis0 vcom0 (vis0, vcom0)"
  by (simp add: trav_core_def)

lemma trav_core_mark:
  assumes "trav_core x vdom r c vis0 vcom0 (vis, vcom)"
    and "u \<in> piece x vdom r" "u < length vis0" "u < length vcom0" "\<not> vis ! u"
  shows "trav_core x vdom r c vis0 vcom0 (vis[u := True], vcom[u := c])"
proof -
  from assms(1) have l: "length vis = length vis0" "length vcom = length vcom0"
    and a: "\<And>v. v < length vis0 \<Longrightarrow> vis0 ! v \<Longrightarrow> vis ! v"
    and b: "\<And>v. v < length vis0 \<Longrightarrow> vis ! v \<Longrightarrow> \<not> vis0 ! v \<Longrightarrow> v \<in> piece x vdom r"
    and c: "\<And>v. v < length vcom0 \<Longrightarrow>
           vcom ! v = (if v < length vis0 \<and> vis ! v \<and> \<not> vis0 ! v then c else vcom0 ! v)"
    by (auto simp: trav_core_def)
  have n0: "\<not> vis0 ! u" using a assms(3,5) by blast
  have a': "vis[u := True] ! v" if "v < length vis0" "vis0 ! v" for v
    using a[OF that] that l by (cases "v = u") auto
  have b': "v \<in> piece x vdom r" if "v < length vis0" "vis[u := True] ! v" "\<not> vis0 ! v" for v
    using b[OF that(1)] that l assms(2) by (cases "v = u") auto
  have c': "vcom[u := c] ! v =
      (if v < length vis0 \<and> vis[u := True] ! v \<and> \<not> vis0 ! v then c else vcom0 ! v)"
    if "v < length vcom0" for v
    using c[OF that] that l n0 assms(3,4) by (cases "v = u") auto
  show ?thesis
    unfolding trav_core_def using l a' b' c' by simp
qed

lemma trav_core_final:
  assumes wf: "wellformed x"
    and core: "trav_core x vdom r c vis0 vcom0 (vis, vcom)"
    and r: "r < span x" "hasVertex x r" "vis ! r"
    and len: "span x \<le> length vis0"
    and fresh: "\<forall>v\<in>piece x vdom r. \<not> vis0 ! v"
    and closed: "\<forall>a<span x. vis ! a \<and> \<not> vis0 ! a \<longrightarrow> expanded x vdom (vdom ! r) vis {} a"
  shows "trav_post x vdom r c vis0 vcom0 (vis, vcom)"
proof -
  from core have l: "length vis = length vis0" "length vcom = length vcom0"
    and a: "\<And>v. v < length vis0 \<Longrightarrow> vis0 ! v \<Longrightarrow> vis ! v"
    and b: "\<And>v. v < length vis0 \<Longrightarrow> vis ! v \<Longrightarrow> \<not> vis0 ! v \<Longrightarrow> v \<in> piece x vdom r"
    and c: "\<And>v. v < length vcom0 \<Longrightarrow>
           vcom ! v = (if v < length vis0 \<and> vis ! v \<and> \<not> vis0 ! v then c else vcom0 ! v)"
    by (auto simp: trav_core_def)
  have all: "vis ! v" if "v \<in> piece x vdom r" for v
  proof -
    from that have "(r, v) \<in> (sameEdges x vdom)\<^sup>*" by (simp add: piece_def)
    then show ?thesis
    proof (induction rule: rtrancl_induct)
      case base
      then show ?case using r by simp
    next
      case (step a b)
      have ap: "a \<in> piece x vdom r" using step.hyps(1) by (simp add: piece_def)
      have e: "a < span x" "hasVertex x a" "b \<in> set (edgeKeys x a)" "vdom ! b = vdom ! a"
        using step.hyps(2) by (auto simp: sameEdges_def)
      have "vdom ! a = vdom ! r" using piece_vdom[OF step.hyps(1)] .
      moreover have "\<not> vis0 ! a" using fresh ap by blast
      ultimately show ?case using closed e step.IH by (auto simp: expanded_def)
    qed
  qed
  have pl: "v < span x" if "v \<in> piece x vdom r" for v
    using piece_bound[OF wf _ r(1,2)] that by (simp add: piece_def)
  have v1: "vis ! v = (vis0 ! v \<or> v \<in> piece x vdom r)" if "v < length vis0" for v
    using a[OF that] b[OF that] all by blast
  have v2: "vcom ! v = (if v \<in> piece x vdom r then c else vcom0 ! v)" if "v < length vcom0" for v
  proof (cases "v \<in> piece x vdom r")
    case True
    then have "v < length vis0" "vis ! v" "\<not> vis0 ! v"
      using pl[OF True] len all[OF True] fresh by auto
    then show ?thesis using c[OF that] True by simp
  next
    case False
    then show ?thesis using c[OF that] b by auto
  qed
  show ?thesis unfolding trav_post_def using l v1 v2 by simp
qed

lemma dfs_piece:
  assumes wf: "wellformed x"
    and len: "span x \<le> length vdom" "span x \<le> length vis0" "span x \<le> length vcom0"
    and r: "r < span x" "hasVertex x r"
    and fresh: "\<forall>v\<in>piece x vdom r. \<not> vis0 ! v"
  shows "\<exists>vis vcom.
     dfsVisitedForEachU x (\<lambda>v. do { dv \<leftarrow> vget vdom v; Some (dv = vdom ! r) })
        (\<lambda>v vcom. vset vcom v c) [r] (vis0, vcom0) = Some (vis, vcom) \<and>
     trav_post x vdom r c vis0 vcom0 (vis, vcom)"
proof -
  let ?I = "dfs_inv x vdom r c vis0 vcom0"
  let ?ft = "\<lambda>v. do { dv \<leftarrow> vget vdom v; Some (dv = vdom ! r) }"
  let ?fp = "\<lambda>v vcom. vset vcom v c"
  have step: "u < length vis \<and> (vis ! u \<longrightarrow> ?I st (vis, vcom)) \<and>
       (\<not> vis ! u \<longrightarrow> (\<exists>t. ?ft u = Some t \<and> (\<not> t \<longrightarrow> ?I st (vis, vcom)) \<and>
          (t \<longrightarrow> (\<exists>s'. ?fp u vcom = Some s' \<and> ?I (edgeKeys x u @ st) (vis[u := True], s')))))"
    if inv: "?I (u # st) (vis, vcom)" for u st vis vcom
  proof -
    from inv have core: "trav_core x vdom r c vis0 vcom0 (vis, vcom)"
      and stk: "\<And>v. v \<in> set (u # st) \<Longrightarrow>
                 v < span x \<and> hasVertex x v \<and> (vdom ! v = vdom ! r \<longrightarrow> v \<in> piece x vdom r)"
      and ex: "\<And>a. a < span x \<Longrightarrow> vis ! a \<Longrightarrow> \<not> vis0 ! a \<Longrightarrow>
                 expanded x vdom (vdom ! r) vis (set (u # st)) a"
      and root: "vis ! r \<or> r \<in> set (u # st)"
      by (auto simp: dfs_inv_def)
    from core have l: "length vis = length vis0" "length vcom = length vcom0"
      and a: "\<And>v. v < length vis0 \<Longrightarrow> vis0 ! v \<Longrightarrow> vis ! v"
      by (auto simp: trav_core_def)
    have u: "u < span x" "hasVertex x u" "vdom ! u = vdom ! r \<longrightarrow> u \<in> piece x vdom r"
      using stk[of u] by auto
    have ul: "u < length vis" "u < length vdom" "u < length vcom"
      using u(1) len l by auto
    have drop: "?I st (vis, vcom)" if "vis ! u \<or> vdom ! u \<noteq> vdom ! r"
    proof -
      have "expanded x vdom (vdom ! r) vis (set st) a"
        if "a < span x" "vis ! a" "\<not> vis0 ! a" for a
        using ex[OF that] \<open>vis ! u \<or> vdom ! u \<noteq> vdom ! r\<close>
        by (auto simp: expanded_def)
      moreover have "vis ! r \<or> r \<in> set st"
        using root that by auto
      ultimately show ?thesis
        unfolding dfs_inv_def using core stk by simp
    qed
    have ft: "?ft u = Some (vdom ! u = vdom ! r)"
      using ul by (simp add: vget_in)
    have push: "?I (edgeKeys x u @ st) (vis[u := True], vcom[u := c])"
      if nv: "\<not> vis ! u" and d: "vdom ! u = vdom ! r"
    proof -
      have up: "u \<in> piece x vdom r" using u(3) d by simp
      have core': "trav_core x vdom r c vis0 vcom0 (vis[u := True], vcom[u := c])"
        by (rule trav_core_mark[OF core up]) (use ul l nv in auto)
      have stk': "v < span x \<and> hasVertex x v \<and> (vdom ! v = vdom ! r \<longrightarrow> v \<in> piece x vdom r)"
        if "v \<in> set (edgeKeys x u @ st)" for v
      proof (cases "v \<in> set (edgeKeys x u)")
        case True
        from wellformedD[OF wf u(1,2) True] piece_step[OF up u(1,2) True] d
        show ?thesis by simp
      next
        case False
        then show ?thesis using stk[of v] that by simp
      qed
      have ex': "expanded x vdom (vdom ! r) (vis[u := True]) (set (edgeKeys x u @ st)) a"
        if "a < span x" "vis[u := True] ! a" "\<not> vis0 ! a" for a
      proof (cases "a = u")
        case True
        then show ?thesis by (simp add: expanded_def)
      next
        case False
        then have "expanded x vdom (vdom ! r) vis (set (u # st)) a"
          using ex that by simp
        then show ?thesis
          unfolding expanded_def
        proof (intro ballI impI)
          fix b assume h: "\<forall>b\<in>set (edgeKeys x a). vdom ! b = vdom ! r \<longrightarrow> vis ! b \<or> b \<in> set (u # st)"
            and b: "b \<in> set (edgeKeys x a)" "vdom ! b = vdom ! r"
          then have "vis ! b \<or> b \<in> set (u # st)" by blast
          then show "vis[u := True] ! b \<or> b \<in> set (edgeKeys x u @ st)"
            using ul(1) by (cases "b = u") auto
        qed
      qed
      have root': "vis[u := True] ! r \<or> r \<in> set (edgeKeys x u @ st)"
        using root ul(1) by (cases "r = u") auto
      show ?thesis
        unfolding dfs_inv_def using core' stk' ex' root' by simp
    qed
    show ?thesis
      using ul(1) drop ft push by (auto simp: vset_in ul)
  qed
  have init: "?I [r] (vis0, vcom0)"
    unfolding dfs_inv_def using trav_core_init r piece_refl fresh
    by (auto simp: expanded_def)
  from dfs_rule[of ?I ?ft ?fp x, OF step init] obtain vis vcom where
    res: "dfsVisitedForEachU x ?ft ?fp [r] (vis0, vcom0) = Some (vis, vcom)" and
    fin: "?I [] (vis, vcom)"
    by auto
  from fin have core: "trav_core x vdom r c vis0 vcom0 (vis, vcom)"
    and ex: "\<forall>a<span x. vis ! a \<and> \<not> vis0 ! a \<longrightarrow> expanded x vdom (vdom ! r) vis {} a"
    and root: "vis ! r"
    by (auto simp: dfs_inv_def)
  from trav_core_final[OF wf core r root len(2) fresh ex] res show ?thesis by blast
qed

section \<open>The depth-first splitter labels every piece with its smallest id\<close>

lemma piece_sym:
  assumes "wellformed x" "v \<in> piece x vdom u"
  shows "u \<in> piece x vdom v"
  using sameEdges_rtrancl_sym[OF assms(1)] assms(2) by (simp add: piece_def)

lemma piece_trans:
  assumes "v \<in> piece x vdom u" "w \<in> piece x vdom v"
  shows "w \<in> piece x vdom u"
  using assms by (auto simp: piece_def)

lemma piece_eq:
  assumes "wellformed x" "v \<in> piece x vdom u"
  shows "piece x vdom v = piece x vdom u"
  using piece_trans piece_sym[OF assms] assms(2) by blast

lemma piece_present:
  assumes "wellformed x" "u < span x" "hasVertex x u" "v \<in> piece x vdom u"
  shows "v < span x" "hasVertex x v" "vdom ! v = vdom ! u"
  using piece_bound[OF assms(1) _ assms(2,3)] piece_vdom assms(4) by (auto simp: piece_def)

lemma scan_inv_fresh:
  assumes wf: "wellformed x" and inv: "scan_inv x vdom (vcom, vis)"
    and r: "r < span x" "hasVertex x r" "\<not> vis ! r"
  shows "\<forall>v\<in>piece x vdom r. \<not> vis ! v"
proof
  fix v assume v: "v \<in> piece x vdom r"
  show "\<not> vis ! v"
  proof
    assume "vis ! v"
    moreover have "v < span x" using piece_present[OF wf r(1,2) v] by simp
    moreover have "r \<in> piece x vdom v" using piece_sym[OF wf v] .
    ultimately have "vis ! r" using inv by (auto simp: scan_inv_def)
    then show False using r(3) by simp
  qed
qed

lemma scan_inv_visit:
  assumes wf: "wellformed x" and inv: "scan_inv x vdom (vcom, vis)"
    and r: "r < span x" "hasVertex x r" "\<not> vis ! r"
    and least: "\<forall>w\<in>piece x vdom r. r \<le> w"
    and post: "trav_post x vdom r r vis vcom (vis', vcom')"
  shows "scan_inv x vdom (vcom', vis') \<and> length vcom' = length vcom \<and> length vis' = length vis \<and>
         (\<forall>w<span x. vis' ! w = (vis ! w \<or> w \<in> piece x vdom r)) \<and>
         (\<forall>i<length vcom. span x \<le> i \<longrightarrow> vcom' ! i = vcom ! i)"
proof -
  from inv have len: "span x \<le> length vcom" "span x \<le> length vis"
    and a: "\<And>u. u < span x \<Longrightarrow> vis ! u \<Longrightarrow> hasVertex x u \<and> vcom ! u = Min (piece x vdom u)"
    and b: "\<And>u. u < span x \<Longrightarrow> \<not> vis ! u \<Longrightarrow> vcom ! u = u"
    and c: "\<And>u v. u < span x \<Longrightarrow> vis ! u \<Longrightarrow> v \<in> piece x vdom u \<Longrightarrow> vis ! v"
    by (auto simp: scan_inv_def)
  from post have l: "length vis' = length vis" "length vcom' = length vcom"
    and pv: "\<And>v. v < length vis \<Longrightarrow> vis' ! v = (vis ! v \<or> v \<in> piece x vdom r)"
    and pc: "\<And>v. v < length vcom \<Longrightarrow> vcom' ! v = (if v \<in> piece x vdom r then r else vcom ! v)"
    by (auto simp: trav_post_def)
  note fresh = scan_inv_fresh[OF wf inv r]
  have fin: "finite (piece x vdom r)" using piece_finite[OF wf r(1,2)] by simp
  have minr: "Min (piece x vdom r) = r"
    by (rule Min_eqI[OF fin]) (use least piece_refl in auto)
  have a': "hasVertex x u \<and> vcom' ! u = Min (piece x vdom u)" if u: "u < span x" "vis' ! u" for u
  proof (cases "u \<in> piece x vdom r")
    case True
    then have "vcom' ! u = r" using pc[of u] u(1) len by simp
    moreover have "piece x vdom u = piece x vdom r" using piece_eq[OF wf True] .
    moreover have "hasVertex x u" using piece_present[OF wf r(1,2) True] by simp
    ultimately show ?thesis using minr by simp
  next
    case False
    then have "vis ! u" using pv[of u] u len by simp
    then show ?thesis using a[OF u(1)] pc[of u] False u(1) len by simp
  qed
  have b': "vcom' ! u = u" if u: "u < span x" "\<not> vis' ! u" for u
  proof -
    have "\<not> vis ! u" "u \<notin> piece x vdom r" using pv[of u] u len by auto
    then show ?thesis using b[OF u(1)] pc[of u] u(1) len by simp
  qed
  have c': "vis' ! v" if u: "u < span x" "vis' ! u" and v: "v \<in> piece x vdom u" for u v
  proof (cases "u \<in> piece x vdom r")
    case True
    then have vr: "v \<in> piece x vdom r" using piece_trans v by blast
    then have "v < span x" using piece_present[OF wf r(1,2)] by simp
    then show ?thesis using pv[of v] vr len by simp
  next
    case False
    then have vu: "vis ! u" using pv[of u] u len by simp
    then have "vis ! v" using c[OF u(1) _ v] by simp
    moreover have "v < span x" using piece_present[OF wf u(1) _ v] a[OF u(1) vu] by simp
    ultimately show ?thesis using pv[of v] len by simp
  qed
  have f: "vcom' ! i = vcom ! i" if "span x \<le> i" "i < length vcom" for i
  proof -
    have "i \<notin> piece x vdom r" using piece_present(1)[OF wf r(1,2)] that(1) by (meson not_le)
    then show ?thesis using pc[OF that(2)] by simp
  qed
  have s: "scan_inv x vdom (vcom', vis')"
    unfolding scan_inv_def using len l a' b' c' by simp
  have m: "\<forall>w<span x. vis' ! w = (vis ! w \<or> w \<in> piece x vdom r)"
    using pv len by simp
  show ?thesis using s l m f by simp
qed

lemma dfs_vertex_inv:
  assumes wf: "wellformed x" and len: "span x \<le> length vdom"
    and inv: "scan_inv x vdom (vcom, vis)" and u: "u < span x"
    and dn: "dfs_done x vdom T t u vis"
  shows "\<exists>vcom' vis'.
     dfs_vertex x vdom t T u (vcom, vis) = Some (vcom', vis') \<and>
     scan_inv x vdom (vcom', vis') \<and> dfs_done x vdom T t (Suc u) vis' \<and>
     length vcom' = length vcom \<and> length vis' = length vis \<and>
     (\<forall>i<length vcom. span x \<le> i \<longrightarrow> vcom' ! i = vcom ! i)"
proof -
  from inv have l: "span x \<le> length vcom" "span x \<le> length vis"
    and b: "\<And>u. u < span x \<Longrightarrow> \<not> vis ! u \<Longrightarrow> vcom ! u = u"
    by (auto simp: scan_inv_def)
  have ul: "u < length vdom" "u < length vcom" "u < length vis" using u len l by auto
  have same: ?thesis
    if "dfs_vertex x vdom t T u (vcom, vis) = Some (vcom, vis)"
      "hasVertex x u \<Longrightarrow> vdom ! u mod T = t \<Longrightarrow> vis ! u"
  proof -
    have "dfs_done x vdom T t (Suc u) vis"
      unfolding dfs_done_def
    proof (intro allI impI)
      fix w assume w: "w < span x"
        "hasVertex x w \<and> (vdom ! w mod T < t \<or> vdom ! w mod T = t \<and> w < Suc u)"
      show "vis ! w"
      proof (cases "w = u")
        case True
        then show ?thesis using w that(2) dn by (auto simp: dfs_done_def)
      next
        case False
        then show ?thesis using w dn by (auto simp: dfs_done_def)
      qed
    qed
    then show ?thesis
      by (intro exI[of _ vcom] exI[of _ vis]) (use that(1) inv in simp)
  qed
  show ?thesis
  proof (cases "hasVertex x u \<and> vdom ! u mod T = t \<and> \<not> vis ! u")
    case False
    then have "dfs_vertex x vdom t T u (vcom, vis) = Some (vcom, vis)"
      using ul by (auto simp: dfs_vertex_def vget_in belongsOmp_def)
    then show ?thesis using False by (intro same) auto
  next
    case True
    then have pres: "hasVertex x u" and own: "vdom ! u mod T = t" and nv: "\<not> vis ! u" by auto
    have cu: "vcom ! u = u" using b[OF u nv] .
    note fresh = scan_inv_fresh[OF wf inv u pres nv]
    from dfs_piece[OF wf len l(2,1) u pres fresh, of u] obtain vis' vcom' where
      r: "dfsVisitedForEachU x (\<lambda>v. do { dv \<leftarrow> vget vdom v; Some (dv = vdom ! u) })
            (\<lambda>v vcom. vset vcom v u) [u] (vis, vcom) = Some (vis', vcom')" and
      post: "trav_post x vdom u u vis vcom (vis', vcom')"
      by blast
    have res: "dfs_vertex x vdom t T u (vcom, vis) = Some (vcom', vis')"
      using pres own nv ul cu r by (simp add: dfs_vertex_def vget_in belongsOmp_def)
    have least: "\<forall>w\<in>piece x vdom u. u \<le> w"
    proof
      fix w assume w: "w \<in> piece x vdom u"
      show "u \<le> w"
      proof (rule ccontr)
        assume "\<not> u \<le> w"
        then have "w < u" by simp
        moreover note piece_present[OF wf u pres w]
        ultimately have "vis ! w" using dn own by (auto simp: dfs_done_def)
        then show False using fresh w by blast
      qed
    qed
    from scan_inv_visit[OF wf inv u pres nv least post] have
      s: "scan_inv x vdom (vcom', vis')" and
      ll: "length vcom' = length vcom" "length vis' = length vis" and
      m: "\<forall>w<span x. vis' ! w = (vis ! w \<or> w \<in> piece x vdom u)" and
      f: "\<forall>i<length vcom. span x \<le> i \<longrightarrow> vcom' ! i = vcom ! i"
      by auto
    have d': "dfs_done x vdom T t (Suc u) vis'"
      unfolding dfs_done_def
    proof (intro allI impI)
      fix w assume w: "w < span x"
        "hasVertex x w \<and> (vdom ! w mod T < t \<or> vdom ! w mod T = t \<and> w < Suc u)"
      show "vis' ! w"
      proof (cases "w = u")
        case True
        then show ?thesis using m u piece_refl by simp
      next
        case False
        then have "vis ! w" using w dn by (auto simp: dfs_done_def)
        then show ?thesis using m w(1) by simp
      qed
    qed
    show ?thesis
      by (intro exI[of _ vcom'] exI[of _ vis']) (use res s d' ll f in simp)
  qed
qed

lemma dfs_worker_inv:
  assumes wf: "wellformed x" and len: "span x \<le> length vdom"
  shows "scan_inv x vdom (vcom, vis) \<Longrightarrow> u \<le> span x \<Longrightarrow> dfs_done x vdom T t u vis \<Longrightarrow>
   \<exists>vcom' vis'.
     dfs_worker x vdom t T [u..<span x] (vcom, vis) = Some (vcom', vis') \<and>
     scan_inv x vdom (vcom', vis') \<and> dfs_done x vdom T t (span x) vis' \<and>
     length vcom' = length vcom \<and> length vis' = length vis \<and>
     (\<forall>i<length vcom. span x \<le> i \<longrightarrow> vcom' ! i = vcom ! i)"
proof (induction "span x - u" arbitrary: u vcom vis)
  case 0
  then have "u = span x" by simp
  then show ?case using 0 by simp
next
  case (Suc k)
  then have u: "u < span x" by simp
  from dfs_vertex_inv[OF wf len Suc.prems(1) u Suc.prems(3)] obtain vcom1 vis1 where
    v: "dfs_vertex x vdom t T u (vcom, vis) = Some (vcom1, vis1)" and
    i1: "scan_inv x vdom (vcom1, vis1)" and
    d1: "dfs_done x vdom T t (Suc u) vis1" and
    l1: "length vcom1 = length vcom" "length vis1 = length vis" and
    f1: "\<forall>i<length vcom. span x \<le> i \<longrightarrow> vcom1 ! i = vcom ! i"
    by blast
  have k: "k = span x - Suc u" using Suc.hyps(2) by simp
  have su: "Suc u \<le> span x" using u by simp
  from Suc.hyps(1)[OF k i1 su d1] obtain vcom' vis' where
    r: "dfs_worker x vdom t T [Suc u..<span x] (vcom1, vis1) = Some (vcom', vis')" and
    i2: "scan_inv x vdom (vcom', vis')" and
    d2: "dfs_done x vdom T t (span x) vis'" and
    l2: "length vcom' = length vcom1" "length vis' = length vis1" and
    f2: "\<forall>i<length vcom1. span x \<le> i \<longrightarrow> vcom' ! i = vcom1 ! i"
    by blast
  have res: "dfs_worker x vdom t T [u..<span x] (vcom, vis) = Some (vcom', vis')"
    using v r u by (simp add: upt_conv_Cons)
  show ?case
    by (intro exI[of _ vcom'] exI[of _ vis']) (use res i2 d2 l1 l2 f1 f2 in simp)
qed

lemma dfs_done_next: "dfs_done x vdom T t (span x) vis \<Longrightarrow> dfs_done x vdom T (Suc t) 0 vis"
  by (auto simp: dfs_done_def less_Suc_eq)

lemma dfs_workers_inv:
  assumes wf: "wellformed x" and len: "span x \<le> length vdom"
  shows "scan_inv x vdom (vcom, vis) \<Longrightarrow> t \<le> T \<Longrightarrow> dfs_done x vdom T t 0 vis \<Longrightarrow>
   \<exists>vcom' vis'.
     dfs_workers x vdom T [t..<T] (vcom, vis) = Some (vcom', vis') \<and>
     scan_inv x vdom (vcom', vis') \<and> dfs_done x vdom T T 0 vis' \<and>
     length vcom' = length vcom \<and> length vis' = length vis \<and>
     (\<forall>i<length vcom. span x \<le> i \<longrightarrow> vcom' ! i = vcom ! i)"
proof (induction "T - t" arbitrary: t vcom vis)
  case 0
  then have "t = T" by simp
  then show ?case using 0 by simp
next
  case (Suc k)
  then have t: "t < T" by simp
  from dfs_worker_inv[OF wf len Suc.prems(1) _ Suc.prems(3)] obtain vcom1 vis1 where
    v: "dfs_worker x vdom t T [0..<span x] (vcom, vis) = Some (vcom1, vis1)" and
    i1: "scan_inv x vdom (vcom1, vis1)" and
    d1: "dfs_done x vdom T t (span x) vis1" and
    l1: "length vcom1 = length vcom" "length vis1 = length vis" and
    f1: "\<forall>i<length vcom. span x \<le> i \<longrightarrow> vcom1 ! i = vcom ! i"
    by blast
  have k: "k = T - Suc t" using Suc.hyps(2) by simp
  have st: "Suc t \<le> T" using t by simp
  from Suc.hyps(1)[OF k i1 st dfs_done_next[OF d1]] obtain vcom' vis' where
    r: "dfs_workers x vdom T [Suc t..<T] (vcom1, vis1) = Some (vcom', vis')" and
    i2: "scan_inv x vdom (vcom', vis')" and
    d2: "dfs_done x vdom T T 0 vis'" and
    l2: "length vcom' = length vcom1" "length vis' = length vis1" and
    f2: "\<forall>i<length vcom1. span x \<le> i \<longrightarrow> vcom' ! i = vcom1 ! i"
    by blast
  have res: "dfs_workers x vdom T [t..<T] (vcom, vis) = Some (vcom', vis')"
    using v r t by (simp add: upt_conv_Cons)
  show ?case
    by (intro exI[of _ vcom'] exI[of _ vis']) (use res i2 d2 l1 l2 f1 f2 in simp)
qed

lemma dfs_init_spec:
  "\<forall>u\<in>set us. u < length vcom \<and> u < length vis \<Longrightarrow>
   \<exists>vcom' vis'.
     dfs_init us (vcom, vis) = Some (vcom', vis') \<and>
     length vcom' = length vcom \<and> length vis' = length vis \<and>
     (\<forall>i. vcom' ! i = (if i \<in> set us then i else vcom ! i)) \<and>
     (\<forall>i<length vis. vis' ! i = (vis ! i \<and> i \<notin> set us))"
proof (induction us arbitrary: vcom vis)
  case Nil
  then show ?case by simp
next
  case (Cons u us)
  have s: "dfs_init (u # us) (vcom, vis) = dfs_init us (vcom[u := u], vis[u := False])"
    using Cons.prems by (simp add: vset_in)
  have "\<forall>w\<in>set us. w < length (vcom[u := u]) \<and> w < length (vis[u := False])"
    using Cons.prems by simp
  from Cons.IH[OF this] obtain vcom' vis' where
    r: "dfs_init us (vcom[u := u], vis[u := False]) = Some (vcom', vis')" and
    l: "length vcom' = length vcom" "length vis' = length vis" and
    c: "\<forall>i. vcom' ! i = (if i \<in> set us then i else vcom[u := u] ! i)" and
    a: "\<forall>i<length vis. vis' ! i = ((vis[u := False]) ! i \<and> i \<notin> set us)"
    by auto
  have c': "\<forall>i. vcom' ! i = (if i \<in> set (u # us) then i else vcom ! i)"
  proof
    fix i
    show "vcom' ! i = (if i \<in> set (u # us) then i else vcom ! i)"
      using c Cons.prems by (cases "i = u") auto
  qed
  have a': "\<forall>i<length vis. vis' ! i = (vis ! i \<and> i \<notin> set (u # us))"
  proof (intro allI impI)
    fix i assume i: "i < length vis"
    then show "vis' ! i = (vis ! i \<and> i \<notin> set (u # us))"
      using a by (cases "i = u") auto
  qed
  show ?case
    by (intro exI[of _ vcom'] exI[of _ vis']) (use s r l c' a' in simp)
qed

lemma dfs_result:
  assumes wf: "wellformed x" and T: "0 < T"
    and len: "span x \<le> length vdom" "span x \<le> length vcom" "span x \<le> length vis"
  shows "\<exists>vcom' vis'.
     splitDisconnectedCommunitiesDfsOmpW T x vdom vcom vis = Some (vcom', vis') \<and>
     length vcom' = length vcom \<and>
     (\<forall>u<span x. vcom' ! u = (if hasVertex x u then Min (piece x vdom u) else u)) \<and>
     (\<forall>i<length vcom. span x \<le> i \<longrightarrow> vcom' ! i = vcom ! i)"
proof -
  have "\<forall>u\<in>set [0..<span x]. u < length vcom \<and> u < length vis"
    using len by auto
  from dfs_init_spec[OF this] obtain vcom0 vis0 where
    i: "dfs_init [0..<span x] (vcom, vis) = Some (vcom0, vis0)" and
    l0: "length vcom0 = length vcom" "length vis0 = length vis" and
    c0: "\<forall>i. vcom0 ! i = (if i \<in> set [0..<span x] then i else vcom ! i)" and
    a0: "\<forall>i<length vis. vis0 ! i = (vis ! i \<and> i \<notin> set [0..<span x])"
    by blast
  have nv: "\<not> vis0 ! u" if "u < span x" for u
    using a0 len(3) that by simp
  have inv0: "scan_inv x vdom (vcom0, vis0)"
    unfolding scan_inv_def using len l0 c0 nv by simp
  have d0: "dfs_done x vdom T 0 0 vis0"
    by (simp add: dfs_done_def)
  from dfs_workers_inv[OF wf len(1) inv0 _ d0] obtain vcom' vis' where
    r: "dfs_workers x vdom T [0..<T] (vcom0, vis0) = Some (vcom', vis')" and
    i2: "scan_inv x vdom (vcom', vis')" and
    d2: "dfs_done x vdom T T 0 vis'" and
    l2: "length vcom' = length vcom0" and
    f2: "\<forall>i<length vcom0. span x \<le> i \<longrightarrow> vcom' ! i = vcom0 ! i"
    by auto
  have res: "splitDisconnectedCommunitiesDfsOmpW T x vdom vcom vis = Some (vcom', vis')"
    using i r by (simp add: splitDisconnectedCommunitiesDfsOmpW_def)
  have m: "\<forall>u<span x. vcom' ! u = (if hasVertex x u then Min (piece x vdom u) else u)"
  proof (intro allI impI)
    fix u assume u: "u < span x"
    show "vcom' ! u = (if hasVertex x u then Min (piece x vdom u) else u)"
    proof (cases "hasVertex x u")
      case True
      then have "vis' ! u" using d2 u T by (simp add: dfs_done_def)
      then show ?thesis using i2 u True by (simp add: scan_inv_def)
    next
      case False
      then have "\<not> vis' ! u" using i2 u by (auto simp: scan_inv_def)
      then show ?thesis using i2 u False by (simp add: scan_inv_def)
    qed
  qed
  have f: "\<forall>i<length vcom. span x \<le> i \<longrightarrow> vcom' ! i = vcom ! i"
    using f2 c0 l0 by simp
  show ?thesis
    by (intro exI[of _ vcom'] exI[of _ vis']) (use res l2 l0 m f in simp)
qed

section \<open>The breadth-first splitter\<close>

text \<open>
  \<open>bfs_piece\<close>: a traversal from an unvisited root marks and labels exactly the piece of
  the root.  \<open>bfs_result\<close>: with one worker every piece gets the smallest id of the
  piece.
\<close>

lemma expanded_mark:
  assumes "expanded x vdom d vis P a" "v < length vis"
  shows "expanded x vdom d (vis[v := True]) (P - {v}) a"
  unfolding expanded_def
proof (intro ballI impI)
  fix b assume "b \<in> set (edgeKeys x a)" "vdom ! b = d"
  then have "vis ! b \<or> b \<in> P" using assms(1) by (auto simp: expanded_def)
  then show "vis[v := True] ! b \<or> b \<in> P - {v}"
    using assms(2) by (cases "b = v") auto
qed

lemma expanded_weaken:
  assumes "expanded x vdom d vis P a" "\<forall>b\<in>P. b \<in> Q \<or> vis ! b \<or> vdom ! b \<noteq> d"
  shows "expanded x vdom d vis Q a"
  using assms unfolding expanded_def by blast

lemma bfs_invI:
  assumes "trav_core x vdom r c vis0 vcom0 (vis, vcom)"
    and "\<And>w. w \<in> set rem \<union> set vs \<union> cur \<Longrightarrow> w < span x \<and> hasVertex x w \<and> w \<in> piece x vdom r"
    and "\<And>a. a < span x \<Longrightarrow> vis ! a \<Longrightarrow> \<not> vis0 ! a \<Longrightarrow>
        a \<in> set rem \<or> a \<in> set vs \<or>
        expanded x vdom (vdom ! r) vis (if a \<in> cur then set es else {}) a"
    and "vis ! r"
  shows "bfs_inv x vdom r c vis0 vcom0 rem cur es (vis, vs, vcom)"
  unfolding bfs_inv_def using assms by blast

lemma bfs_invD:
  assumes "bfs_inv x vdom r c vis0 vcom0 rem cur es (vis, vs, vcom)"
  shows "trav_core x vdom r c vis0 vcom0 (vis, vcom)"
    and "\<And>w. w \<in> set rem \<union> set vs \<union> cur \<Longrightarrow> w < span x \<and> hasVertex x w \<and> w \<in> piece x vdom r"
    and "\<And>a. a < span x \<Longrightarrow> vis ! a \<Longrightarrow> \<not> vis0 ! a \<Longrightarrow>
        a \<in> set rem \<or> a \<in> set vs \<or>
        expanded x vdom (vdom ! r) vis (if a \<in> cur then set es else {}) a"
    and "vis ! r"
  using assms unfolding bfs_inv_def by blast+

lemma bfs_edges_inv:
  assumes wf: "wellformed x"
    and len: "span x \<le> length vdom" "span x \<le> length vis0" "span x \<le> length vcom0"
  shows "bfs_inv x vdom r c vis0 vcom0 rem {u} es (vis, vs, vcom) \<Longrightarrow>
         set es \<subseteq> set (edgeKeys x u) \<Longrightarrow>
   \<exists>vis' vs' vcom'.
     bfs_edges (\<lambda>v k. do { dv \<leftarrow> vget vdom v; Some (dv = vdom ! r) }) (\<lambda>v k vcom. vset vcom v c)
        k es (vis, vs, vcom) = Some (vis', vs', vcom') \<and>
     bfs_inv x vdom r c vis0 vcom0 rem {u} [] (vis', vs', vcom')"
proof (induction es arbitrary: vis vs vcom)
  case Nil
  then show ?case by simp
next
  case (Cons v es)
  let ?ft = "\<lambda>v k. do { dv \<leftarrow> vget vdom v; Some (dv = vdom ! r) }"
  let ?fp = "\<lambda>(v::nat) (k::nat) vcom. vset vcom v c"
  note core = bfs_invD(1)[OF Cons.prems(1)]
  note ok = bfs_invD(2)[OF Cons.prems(1)]
  note ex = bfs_invD(3)[OF Cons.prems(1)]
  note root = bfs_invD(4)[OF Cons.prems(1)]
  from core have l: "length vis = length vis0" "length vcom = length vcom0"
    by (auto simp: trav_core_def)
  have u: "u < span x" "hasVertex x u" "u \<in> piece x vdom r" using ok[of u] by auto
  have vin: "v \<in> set (edgeKeys x u)" using Cons.prems(2) by simp
  have v: "v < span x" "hasVertex x v" using wellformedD[OF wf u(1,2) vin] by auto
  have vl: "v < length vis" "v < length vdom" "v < length vcom" using v(1) len l by auto
  have sub: "set es \<subseteq> set (edgeKeys x u)" using Cons.prems(2) by simp
  show ?case
  proof (cases "\<not> vis ! v \<and> vdom ! v = vdom ! r")
    case False
    have w: "expanded x vdom (vdom ! r) vis (if a \<in> {u} then set es else {}) a"
      if "expanded x vdom (vdom ! r) vis (if a \<in> {u} then set (v # es) else {}) a" for a
      by (rule expanded_weaken[OF that]) (use False in auto)
    have ex2: "a \<in> set rem \<or> a \<in> set vs \<or>
        expanded x vdom (vdom ! r) vis (if a \<in> {u} then set es else {}) a"
      if "a < span x" "vis ! a" "\<not> vis0 ! a" for a
      using ex[OF that] w[of a] by blast
    have inv: "bfs_inv x vdom r c vis0 vcom0 rem {u} es (vis, vs, vcom)"
      by (rule bfs_invI[OF core ok ex2 root])
    have "bfs_edges ?ft ?fp k (v # es) (vis, vs, vcom) = bfs_edges ?ft ?fp k es (vis, vs, vcom)"
      using False vl by (auto simp: vget_in)
    with Cons.IH[OF inv sub] show ?thesis by simp
  next
    case True
    then have nv: "\<not> vis ! v" and d: "vdom ! v = vdom ! r" by auto
    have "vdom ! u = vdom ! r" using u(3) piece_vdom by (simp add: piece_def)
    then have vp: "v \<in> piece x vdom r" using piece_step[OF u(3) u(1,2) vin] d by simp
    have core': "trav_core x vdom r c vis0 vcom0 (vis[v := True], vcom[v := c])"
      by (rule trav_core_mark[OF core vp]) (use vl l nv in auto)
    have ok': "w < span x \<and> hasVertex x w \<and> w \<in> piece x vdom r"
      if "w \<in> set rem \<union> set (vs @ [v]) \<union> {u}" for w
      using that ok[of w] v vp by auto
    have ex': "a \<in> set rem \<or> a \<in> set (vs @ [v]) \<or>
        expanded x vdom (vdom ! r) (vis[v := True]) (if a \<in> {u} then set es else {}) a"
      if a: "a < span x" "vis[v := True] ! a" "\<not> vis0 ! a" for a
    proof (cases "a = v")
      case True
      then show ?thesis by simp
    next
      case False
      then have "vis ! a" using a(2) by simp
      from ex[OF a(1) this a(3)] show ?thesis
      proof (elim disjE)
        assume e: "expanded x vdom (vdom ! r) vis (if a \<in> {u} then set (v # es) else {}) a"
        have "expanded x vdom (vdom ! r) (vis[v := True])
                ((if a \<in> {u} then set (v # es) else {}) - {v}) a"
          by (rule expanded_mark[OF e vl(1)])
        then have "expanded x vdom (vdom ! r) (vis[v := True])
                (if a \<in> {u} then set es else {}) a"
          by (rule expanded_weaken) auto
        then show ?thesis by simp
      qed auto
    qed
    have root': "vis[v := True] ! r" using root vl(1) by (cases "r = v") auto
    have inv: "bfs_inv x vdom r c vis0 vcom0 rem {u} es (vis[v := True], vs @ [v], vcom[v := c])"
      by (rule bfs_invI[OF core' ok' ex' root'])
    have "bfs_edges ?ft ?fp k (v # es) (vis, vs, vcom)
          = bfs_edges ?ft ?fp k es (vis[v := True], vs @ [v], vcom[v := c])"
      using True vl by (simp add: vget_in vset_in)
    with Cons.IH[OF inv sub] show ?thesis by simp
  qed
qed

lemma bfs_frontier_inv:
  assumes wf: "wellformed x"
    and len: "span x \<le> length vdom" "span x \<le> length vis0" "span x \<le> length vcom0"
  shows "bfs_inv x vdom r c vis0 vcom0 rem {} [] (vis, vs, vcom) \<Longrightarrow>
   \<exists>vis' vs' vcom'.
     bfs_frontier x (\<lambda>v k. do { dv \<leftarrow> vget vdom v; Some (dv = vdom ! r) })
        (\<lambda>v k vcom. vset vcom v c) k rem (vis, vs, vcom) = Some (vis', vs', vcom') \<and>
     bfs_inv x vdom r c vis0 vcom0 [] {} [] (vis', vs', vcom')"
proof (induction rem arbitrary: vis vs vcom)
  case Nil
  then show ?case by simp
next
  case (Cons u rem)
  note core = bfs_invD(1)[OF Cons.prems(1)]
  note ok = bfs_invD(2)[OF Cons.prems(1)]
  note ex = bfs_invD(3)[OF Cons.prems(1)]
  note root = bfs_invD(4)[OF Cons.prems(1)]
  have ok1: "w < span x \<and> hasVertex x w \<and> w \<in> piece x vdom r"
    if "w \<in> set rem \<union> set vs \<union> {u}" for w
    using ok[of w] that by auto
  have ex1: "a \<in> set rem \<or> a \<in> set vs \<or>
        expanded x vdom (vdom ! r) vis (if a \<in> {u} then set (edgeKeys x u) else {}) a"
    if "a < span x" "vis ! a" "\<not> vis0 ! a" for a
  proof (cases "a = u")
    case True
    then show ?thesis by (simp add: expanded_def)
  next
    case False
    then show ?thesis using ex[OF that] by auto
  qed
  have 1: "bfs_inv x vdom r c vis0 vcom0 rem {u} (edgeKeys x u) (vis, vs, vcom)"
    by (rule bfs_invI[OF core ok1 ex1 root])
  from bfs_edges_inv[OF wf len 1 subset_refl, of k] obtain vis1 vs1 vcom1 where
    e: "bfs_edges (\<lambda>v k. do { dv \<leftarrow> vget vdom v; Some (dv = vdom ! r) })
          (\<lambda>v k vcom. vset vcom v c) k (edgeKeys x u) (vis, vs, vcom) = Some (vis1, vs1, vcom1)" and
    2: "bfs_inv x vdom r c vis0 vcom0 rem {u} [] (vis1, vs1, vcom1)"
    by auto
  have ok3: "w < span x \<and> hasVertex x w \<and> w \<in> piece x vdom r"
    if "w \<in> set rem \<union> set vs1 \<union> {}" for w
    using bfs_invD(2)[OF 2, of w] that by auto
  have ex3: "a \<in> set rem \<or> a \<in> set vs1 \<or>
        expanded x vdom (vdom ! r) vis1 (if a \<in> {} then set [] else {}) a"
    if "a < span x" "vis1 ! a" "\<not> vis0 ! a" for a
    using bfs_invD(3)[OF 2 that] by (auto split: if_splits)
  have 3: "bfs_inv x vdom r c vis0 vcom0 rem {} [] (vis1, vs1, vcom1)"
    by (rule bfs_invI[OF bfs_invD(1)[OF 2] ok3 ex3 bfs_invD(4)[OF 2]])
  from Cons.IH[OF 3] e show ?case by simp
qed

lemma bfs_levels_inv:
  "wellformed x \<Longrightarrow> span x \<le> length vdom \<Longrightarrow> span x \<le> length vis0 \<Longrightarrow>
   span x \<le> length vcom0 \<Longrightarrow>
   bfs_inv x vdom r c vis0 vcom0 us {} [] (vis, [], vcom) \<Longrightarrow>
   \<exists>vis' vcom'.
     bfs_levels x (\<lambda>v k. do { dv \<leftarrow> vget vdom v; Some (dv = vdom ! r) })
        (\<lambda>v k vcom. vset vcom v c) k us (vis, vcom) = Some (vis', vcom') \<and>
     bfs_inv x vdom r c vis0 vcom0 [] {} [] (vis', [], vcom')"
proof (induction x "\<lambda>v (k::nat). do { dv \<leftarrow> vget vdom v; Some (dv = vdom ! r) }"
    "\<lambda>(v::nat) (k::nat) vcom. vset vcom v c" k us "(vis, vcom)"
    arbitrary: vis vcom rule: bfs_levels.induct)
  case (1 x k us vis vcom)
  show ?case
  proof (cases "us = []")
    case True
    then show ?thesis using "1.prems" by simp
  next
    case False
    from bfs_frontier_inv[OF "1.prems"(1,2,3,4,5), of k] obtain vis1 vs1 vcom1 where
      f: "bfs_frontier x (\<lambda>v k. do { dv \<leftarrow> vget vdom v; Some (dv = vdom ! r) })
            (\<lambda>v k vcom. vset vcom v c) k us (vis, [], vcom) = Some (vis1, vs1, vcom1)" and
      2: "bfs_inv x vdom r c vis0 vcom0 [] {} [] (vis1, vs1, vcom1)"
      by auto
    have ok3: "w < span x \<and> hasVertex x w \<and> w \<in> piece x vdom r"
      if "w \<in> set vs1 \<union> set [] \<union> {}" for w
      using bfs_invD(2)[OF 2, of w] that by auto
    have ex3: "a \<in> set vs1 \<or> a \<in> set [] \<or>
        expanded x vdom (vdom ! r) vis1 (if a \<in> {} then set [] else {}) a"
      if "a < span x" "vis1 ! a" "\<not> vis0 ! a" for a
      using bfs_invD(3)[OF 2 that] by auto
    have 3: "bfs_inv x vdom r c vis0 vcom0 vs1 {} [] (vis1, [], vcom1)"
      by (rule bfs_invI[OF bfs_invD(1)[OF 2] ok3 ex3 bfs_invD(4)[OF 2]])
    from "1.hyps"[OF False f refl refl "1.prems"(1,2,3,4) 3] f False
    show ?thesis by simp
  qed
qed

lemma bfs_piece:
  assumes wf: "wellformed x"
    and len: "span x \<le> length vdom" "span x \<le> length vis0" "span x \<le> length vcom0"
    and r: "r < span x" "hasVertex x r"
    and fresh: "\<forall>v\<in>piece x vdom r. \<not> vis0 ! v"
  shows "\<exists>vis vcom.
     bfsVisitedForEachU x (\<lambda>v k. do { dv \<leftarrow> vget vdom v; Some (dv = vdom ! r) })
        (\<lambda>v k vcom. vset vcom v c) [r] (vis0, vcom0) = Some (vis, vcom) \<and>
     trav_post x vdom r c vis0 vcom0 (vis, vcom)"
proof -
  have nr: "\<not> vis0 ! r" using fresh piece_refl by blast
  have rl: "r < length vis0" "r < length vcom0" using r len by auto
  have st: "bfs_starts (\<lambda>v k vcom. vset vcom v c) [r] (vis0, vcom0)
      = Some (vis0[r := True], vcom0[r := c])"
    using rl by (simp add: vset_in)
  have core: "trav_core x vdom r c vis0 vcom0 (vis0[r := True], vcom0[r := c])"
    by (rule trav_core_mark[OF trav_core_init piece_refl rl nr])
  have ok0: "w < span x \<and> hasVertex x w \<and> w \<in> piece x vdom r"
    if "w \<in> set [r] \<union> set [] \<union> {}" for w
    using that r piece_refl by auto
  have ex0: "a \<in> set [r] \<or> a \<in> set [] \<or>
        expanded x vdom (vdom ! r) (vis0[r := True]) (if a \<in> {} then set [] else {}) a"
    if "a < span x" "vis0[r := True] ! a" "\<not> vis0 ! a" for a
    using that by (cases "a = r") auto
  have root0: "vis0[r := True] ! r" using rl by simp
  have inv: "bfs_inv x vdom r c vis0 vcom0 [r] {} [] (vis0[r := True], [], vcom0[r := c])"
    by (rule bfs_invI[OF core ok0 ex0 root0])
  from bfs_levels_inv[OF wf len inv, of 1] obtain vis vcom where
    lv: "bfs_levels x (\<lambda>v k. do { dv \<leftarrow> vget vdom v; Some (dv = vdom ! r) })
           (\<lambda>v k vcom. vset vcom v c) 1 [r] (vis0[r := True], vcom0[r := c]) = Some (vis, vcom)" and
    fin: "bfs_inv x vdom r c vis0 vcom0 [] {} [] (vis, [], vcom)"
    by auto
  have res: "bfsVisitedForEachU x (\<lambda>v k. do { dv \<leftarrow> vget vdom v; Some (dv = vdom ! r) })
        (\<lambda>v k vcom. vset vcom v c) [r] (vis0, vcom0) = Some (vis, vcom)"
    unfolding bfsVisitedForEachU_def using st lv by simp
  note c2 = bfs_invD(1)[OF fin]
  note root = bfs_invD(4)[OF fin]
  have ex: "\<forall>a<span x. vis ! a \<and> \<not> vis0 ! a \<longrightarrow> expanded x vdom (vdom ! r) vis {} a"
    using bfs_invD(3)[OF fin] by auto
  from trav_core_final[OF wf c2 r root len(2) fresh ex] res show ?thesis by blast
qed

lemma bfs_labD:
  assumes "bfs_lab x vdom vcom0 (vcom, vis)"
  shows "span x \<le> length vdom" "span x \<le> length vcom" "span x \<le> length vis"
    "length vcom = length vcom0"
    "\<And>i. i < length vcom0 \<Longrightarrow> span x \<le> i \<Longrightarrow> vcom ! i = vcom0 ! i"
    "\<And>u. u < span x \<Longrightarrow> vis ! u \<Longrightarrow> hasVertex x u \<and> vcom ! u \<in> piece x vdom u"
    "\<And>u v. u < span x \<Longrightarrow> vis ! u \<Longrightarrow> v \<in> piece x vdom u \<Longrightarrow> vis ! v \<and> vcom ! v = vcom ! u"
    "\<And>u. u < span x \<Longrightarrow> \<not> vis ! u \<Longrightarrow> vcom ! u = u"
  using assms unfolding bfs_lab_def by blast+

lemma bfs_labI:
  assumes "span x \<le> length vdom" "span x \<le> length vcom" "span x \<le> length vis"
    "length vcom = length vcom0"
    "\<And>i. i < length vcom0 \<Longrightarrow> span x \<le> i \<Longrightarrow> vcom ! i = vcom0 ! i"
    "\<And>u. u < span x \<Longrightarrow> vis ! u \<Longrightarrow> hasVertex x u \<and> vcom ! u \<in> piece x vdom u"
    "\<And>u v. u < span x \<Longrightarrow> vis ! u \<Longrightarrow> v \<in> piece x vdom u \<Longrightarrow> vis ! v \<and> vcom ! v = vcom ! u"
    "\<And>u. u < span x \<Longrightarrow> \<not> vis ! u \<Longrightarrow> vcom ! u = u"
  shows "bfs_lab x vdom vcom0 (vcom, vis)"
  unfolding bfs_lab_def using assms by blast

lemma bfs_heldD:
  assumes "bfs_held x vdom cbsy vis ws"
  shows "\<And>u. u < span x \<Longrightarrow> hasVertex x u \<Longrightarrow> vdom ! u < length cbsy"
    "\<And>t u. t < length ws \<Longrightarrow> u \<in> set (fst (ws ! t)) \<Longrightarrow> u < span x"
    "\<And>t u d c. t < length ws \<Longrightarrow> snd (ws ! t) = Some (u, d, c) \<Longrightarrow>
        u < span x \<and> hasVertex x u \<and> \<not> vis ! u \<and> d = vdom ! u \<and> c = u \<and> cbsy ! d"
    "\<And>t t' u d c u' c'. t < length ws \<Longrightarrow> snd (ws ! t) = Some (u, d, c) \<Longrightarrow>
        t' < length ws \<Longrightarrow> snd (ws ! t') = Some (u', d, c') \<Longrightarrow> t' = t"
  using assms unfolding bfs_held_def by blast+

lemma bfs_heldI:
  assumes "\<And>u. u < span x \<Longrightarrow> hasVertex x u \<Longrightarrow> vdom ! u < length cbsy"
    "\<And>t u. t < length ws \<Longrightarrow> u \<in> set (fst (ws ! t)) \<Longrightarrow> u < span x"
    "\<And>t u d c. t < length ws \<Longrightarrow> snd (ws ! t) = Some (u, d, c) \<Longrightarrow>
        u < span x \<and> hasVertex x u \<and> \<not> vis ! u \<and> d = vdom ! u \<and> c = u \<and> cbsy ! d"
    "\<And>t t' u d c u' c'. t < length ws \<Longrightarrow> snd (ws ! t) = Some (u, d, c) \<Longrightarrow>
        t' < length ws \<Longrightarrow> snd (ws ! t') = Some (u', d, c') \<Longrightarrow> t' = t"
  shows "bfs_held x vdom cbsy vis ws"
  unfolding bfs_held_def using assms by blast

lemma bfs_lab_fresh:
  assumes wf: "wellformed x" and inv: "bfs_lab x vdom vcom0 (vcom, vis)"
    and r: "r < span x" "hasVertex x r" "\<not> vis ! r"
  shows "\<forall>v\<in>piece x vdom r. \<not> vis ! v"
proof
  fix v assume v: "v \<in> piece x vdom r"
  show "\<not> vis ! v"
  proof
    assume "vis ! v"
    moreover have "v < span x" using piece_present[OF wf r(1,2) v] by simp
    moreover have "r \<in> piece x vdom v" using piece_sym[OF wf v] .
    ultimately have "vis ! r" using bfs_labD(7)[OF inv] by blast
    then show False using r(3) by simp
  qed
qed

lemma bfs_lab_visit:
  assumes wf: "wellformed x" and inv: "bfs_lab x vdom vcom0 (vcom, vis)"
    and r: "r < span x" "hasVertex x r" "\<not> vis ! r"
    and post: "trav_post x vdom r r vis vcom (vis', vcom')"
  shows "bfs_lab x vdom vcom0 (vcom', vis')"
    and "length vis' = length vis"
    and "\<And>w. w < span x \<Longrightarrow> vis' ! w = (vis ! w \<or> w \<in> piece x vdom r)"
    and "\<And>w. w < span x \<Longrightarrow> vcom' ! w = (if w \<in> piece x vdom r then r else vcom ! w)"
proof -
  note d = bfs_labD[OF inv]
  from post have l: "length vis' = length vis" "length vcom' = length vcom"
    and pv: "\<And>v. v < length vis \<Longrightarrow> vis' ! v = (vis ! v \<or> v \<in> piece x vdom r)"
    and pc: "\<And>v. v < length vcom \<Longrightarrow> vcom' ! v = (if v \<in> piece x vdom r then r else vcom ! v)"
    by (auto simp: trav_post_def)
  show "length vis' = length vis" by (rule l)
  show m: "vis' ! w = (vis ! w \<or> w \<in> piece x vdom r)" if "w < span x" for w
    using pv[of w] that d(3) by simp
  show c: "vcom' ! w = (if w \<in> piece x vdom r then r else vcom ! w)" if "w < span x" for w
    using pc[of w] that d(2) by simp
  note fresh = bfs_lab_fresh[OF wf inv r]
  have inp: "w < span x" if "w \<in> piece x vdom r" for w
    using piece_present[OF wf r(1,2) that] by simp
  have f: "vcom' ! i = vcom0 ! i" if "i < length vcom0" "span x \<le> i" for i
  proof -
    have "i \<notin> piece x vdom r" using inp that(2) by (meson not_le)
    then show ?thesis using pc[of i] that d(4) d(5)[OF that] by simp
  qed
  have a: "hasVertex x u \<and> vcom' ! u \<in> piece x vdom u" if u: "u < span x" "vis' ! u" for u
  proof (cases "u \<in> piece x vdom r")
    case True
    then have "vcom' ! u = r" using c[OF u(1)] by simp
    moreover have "r \<in> piece x vdom u" using piece_sym[OF wf True] .
    moreover have "hasVertex x u" using piece_present[OF wf r(1,2) True] by simp
    ultimately show ?thesis by simp
  next
    case False
    then have "vis ! u" using m[OF u(1)] u(2) by simp
    then show ?thesis using d(6)[OF u(1)] c[OF u(1)] False by simp
  qed
  have b: "vis' ! v \<and> vcom' ! v = vcom' ! u"
    if u: "u < span x" "vis' ! u" and v: "v \<in> piece x vdom u" for u v
  proof (cases "u \<in> piece x vdom r")
    case True
    then have vr: "v \<in> piece x vdom r" using piece_trans v by blast
    then show ?thesis using m[OF inp[OF vr]] c[OF inp[OF vr]] c[OF u(1)] True by simp
  next
    case False
    then have vu: "vis ! u" using m[OF u(1)] u(2) by simp
    have vs: "v < span x" using piece_present[OF wf u(1) _ v] d(6)[OF u(1) vu] by simp
    have "v \<notin> piece x vdom r"
    proof
      assume "v \<in> piece x vdom r"
      then have "\<not> vis ! v" using fresh by blast
      then show False using d(7)[OF u(1) vu v] by simp
    qed
    then show ?thesis using d(7)[OF u(1) vu v] m[OF vs] c[OF vs] c[OF u(1)] False by simp
  qed
  have e: "vcom' ! u = u" if u: "u < span x" "\<not> vis' ! u" for u
    using m[OF u(1)] c[OF u(1)] u(2) d(8)[OF u(1)] by simp
  show "bfs_lab x vdom vcom0 (vcom', vis')"
    by (rule bfs_labI) (use d(1,2,3,4) l f a b e in auto)
qed

lemma fl_claim_spec:
  assumes "u < length vis" "u < length vdom" "u < length vcom"
    and "hasVertex x u \<longrightarrow> vdom ! u < length cbsy"
  shows "fl_claim x vdom u (vcom, cbsy, vis) =
     (if hasVertex x u \<and> \<not> vis ! u \<and> \<not> cbsy ! (vdom ! u)
      then Some (Some (u, vdom ! u, vcom ! u), (vcom, cbsy[vdom ! u := True], vis))
      else Some (None, (vcom, cbsy, vis)))"
  using assms by (auto simp: fl_claim_def vget_in)

lemma fl_traverse_spec:
  assumes wf: "wellformed x" and inv: "bfs_lab x vdom vcom0 (vcom, vis)"
    and u: "u < span x" "hasVertex x u" "\<not> vis ! u" and d: "vdom ! u < length cbsy"
  shows "\<exists>vis' vcom'.
     fl_traverse x vdom (u, vdom ! u, u) (vcom, cbsy, vis)
       = Some (vcom', cbsy[vdom ! u := False], vis') \<and>
     trav_post x vdom u u vis vcom (vis', vcom')"
proof -
  note l = bfs_labD(1,2,3)[OF inv]
  note fresh = bfs_lab_fresh[OF wf inv u]
  from bfs_piece[OF wf l(1) l(3) l(2) u(1,2) fresh, of u] obtain vis' vcom' where
    r: "bfsVisitedForEachU x (\<lambda>v k. do { dv \<leftarrow> vget vdom v; Some (dv = vdom ! u) })
          (\<lambda>v k vcom. vset vcom v u) [u] (vis, vcom) = Some (vis', vcom')" and
    p: "trav_post x vdom u u vis vcom (vis', vcom')"
    by blast
  have "fl_traverse x vdom (u, vdom ! u, u) (vcom, cbsy, vis)
       = Some (vcom', cbsy[vdom ! u := False], vis')"
    using r d by (simp add: fl_traverse_def vset_in)
  with p show ?thesis by blast
qed

lemma bfs_step_inv:
  assumes wf: "wellformed x"
    and lab: "bfs_lab x vdom vcom0 (vcom, vis)"
    and held: "bfs_held x vdom cbsy vis ws"
  shows "\<exists>vcom' cbsy' vis' ws'.
     bfs_step x vdom t ((vcom, cbsy, vis), ws) = Some ((vcom', cbsy', vis'), ws') \<and>
     bfs_lab x vdom vcom0 (vcom', vis') \<and> bfs_held x vdom cbsy' vis' ws' \<and>
     bfs_effect x vdom t ((vcom, cbsy, vis), ws) ((vcom', cbsy', vis'), ws')"
proof -
  note l = bfs_labD[OF lab]
  note h = bfs_heldD[OF held]
  have noop: ?thesis
    if "bfs_step x vdom t ((vcom, cbsy, vis), ws) = Some ((vcom, cbsy, vis), ws)"
      "t < length ws \<Longrightarrow> ws ! t = ([], None)"
  proof -
    have "bfs_effect x vdom t ((vcom, cbsy, vis), ws) ((vcom, cbsy, vis), ws)"
      using that(2) by (simp add: bfs_effect_def)
    then show ?thesis using that(1) lab held by blast
  qed
  show ?thesis
  proof (cases "t < length ws")
    case False
    then show ?thesis by (intro noop) (simp_all add: bfs_step_def)
  next
    case t: True
    obtain todo hold where w: "ws ! t = (todo, hold)" by (cases "ws ! t")
    show ?thesis
    proof (cases hold)
      case None
      show ?thesis
      proof (cases todo)
        case Nil
        then show ?thesis using t w None by (intro noop) (simp_all add: bfs_step_def)
      next
        case (Cons u rest)
        have wt: "ws ! t = (u # rest, None)" using w None Cons by simp
        have u: "u < span x" using h(2)[OF t, of u] wt by simp
        have ul: "u < length vis" "u < length vdom" "u < length vcom" using u l(1,2,3) by auto
        have dl': "hasVertex x u \<longrightarrow> vdom ! u < length cbsy" using h(1)[OF u] by blast
        note cl = fl_claim_spec[OF ul dl']
        show ?thesis
        proof (cases "hasVertex x u \<and> \<not> vis ! u \<and> \<not> cbsy ! (vdom ! u)")
          case False
          let ?ws = "ws[t := (rest, None)]"
          have st: "bfs_step x vdom t ((vcom, cbsy, vis), ws) = Some ((vcom, cbsy, vis), ?ws)"
            using t wt cl False by (simp add: bfs_step_def)
          have held': "bfs_held x vdom cbsy vis ?ws"
          proof (rule bfs_heldI)
            show "\<And>u. u < span x \<Longrightarrow> hasVertex x u \<Longrightarrow> vdom ! u < length cbsy" by (rule h(1))
            show "v < span x" if "t' < length ?ws" "v \<in> set (fst (?ws ! t'))" for t' v
              using that h(2)[of t' v] h(2)[OF t, of v] wt by (cases "t' = t") auto
            show "v < span x \<and> hasVertex x v \<and> \<not> vis ! v \<and> d = vdom ! v \<and> c = v \<and> cbsy ! d"
              if "t' < length ?ws" "snd (?ws ! t') = Some (v, d, c)" for t' v d c
              using that h(3)[of t' v d c] by (cases "t' = t") auto
            show "t'' = t'"
              if "t' < length ?ws" "snd (?ws ! t') = Some (v, d, c)"
                "t'' < length ?ws" "snd (?ws ! t'') = Some (v', d, c')" for t' t'' v d c v' c'
            proof -
              have "t' \<noteq> t" "t'' \<noteq> t" using that by auto
              then show ?thesis using that h(4)[of t' v d c t'' v' c'] by simp
            qed
          qed
          have eff: "bfs_effect x vdom t ((vcom, cbsy, vis), ws) ((vcom, cbsy, vis), ?ws)"
            unfolding bfs_effect_def using t wt False by auto
          show ?thesis using st lab held' eff by blast
        next
          case True
          let ?d = "vdom ! u"
          let ?ws = "ws[t := (rest, Some (u, ?d, u))]"
          let ?cb = "cbsy[?d := True]"
          have cu: "vcom ! u = u" using l(8)[OF u] True by simp
          have dl: "?d < length cbsy" using h(1)[OF u] True by simp
          have st: "bfs_step x vdom t ((vcom, cbsy, vis), ws) = Some ((vcom, ?cb, vis), ?ws)"
            using t wt cl True cu by (simp add: bfs_step_def)
          have keep: "?cb ! d" if "cbsy ! d" for d
            using that dl by (cases "d = ?d") auto
          have held': "bfs_held x vdom ?cb vis ?ws"
          proof (rule bfs_heldI)
            show "\<And>u. u < span x \<Longrightarrow> hasVertex x u \<Longrightarrow> vdom ! u < length ?cb"
              using h(1) by simp
            show "v < span x" if "t' < length ?ws" "v \<in> set (fst (?ws ! t'))" for t' v
              using that h(2)[of t' v] h(2)[OF t, of v] wt by (cases "t' = t") auto
            show "v < span x \<and> hasVertex x v \<and> \<not> vis ! v \<and> d = vdom ! v \<and> c = v \<and> ?cb ! d"
              if "t' < length ?ws" "snd (?ws ! t') = Some (v, d, c)" for t' v d c
            proof (cases "t' = t")
              case True
              then have "v = u" "d = ?d" "c = u" using that t by auto
              then show ?thesis using u \<open>hasVertex x u \<and> \<not> vis ! u \<and> \<not> cbsy ! ?d\<close> dl by simp
            next
              case False
              then show ?thesis using that h(3)[of t' v d c] keep by auto
            qed
            show "t'' = t'"
              if a: "t' < length ?ws" "snd (?ws ! t') = Some (v, d, c)"
                "t'' < length ?ws" "snd (?ws ! t'') = Some (v', d, c')" for t' t'' v d c v' c'
            proof -
              have other: False if "s \<noteq> t" "s < length ws" "snd (ws ! s) = Some (a, ?d, b)" for s a b
                using h(3)[OF that(2,3)] True by simp
              show ?thesis
              proof (cases "t' = t")
                case tt: True
                then have "d = ?d" using a t by auto
                then show ?thesis using a other[of t'' v' c'] tt by (cases "t'' = t") auto
              next
                case nt: False
                show ?thesis
                proof (cases "t'' = t")
                  case True
                  then have "d = ?d" using a t by auto
                  then show ?thesis using a other[of t' v c] nt by auto
                next
                  case False
                  then show ?thesis using a nt h(4)[of t' v d c t'' v' c'] by simp
                qed
              qed
            qed
          qed
          have eff: "bfs_effect x vdom t ((vcom, cbsy, vis), ws) ((vcom, ?cb, vis), ?ws)"
            unfolding bfs_effect_def using t wt True by auto
          show ?thesis using st lab held' eff by blast
        qed
      qed
    next
      case (Some hd)
      obtain u d c where hd: "hd = (u, d, c)" by (cases hd)
      have wt: "ws ! t = (todo, Some (u, d, c))" using w Some hd by simp
      have hu: "u < span x" "hasVertex x u" "\<not> vis ! u" "d = vdom ! u" "c = u" "cbsy ! d"
        using h(3)[OF t, of u d c] wt by auto
      have dl: "vdom ! u < length cbsy" using h(1)[OF hu(1,2)] .
      from fl_traverse_spec[OF wf lab hu(1,2,3) dl] obtain vis' vcom' where
        tr: "fl_traverse x vdom (u, vdom ! u, u) (vcom, cbsy, vis)
               = Some (vcom', cbsy[vdom ! u := False], vis')" and
        post: "trav_post x vdom u u vis vcom (vis', vcom')"
        by blast
      note vz = bfs_lab_visit[OF wf lab hu(1,2,3) post]
      let ?ws = "ws[t := (todo, None)]"
      let ?cb = "cbsy[d := False]"
      have st: "bfs_step x vdom t ((vcom, cbsy, vis), ws) = Some ((vcom', ?cb, vis'), ?ws)"
        using t wt tr hu(4,5) by (simp add: bfs_step_def)
      have held': "bfs_held x vdom ?cb vis' ?ws"
      proof (rule bfs_heldI)
        show "\<And>u. u < span x \<Longrightarrow> hasVertex x u \<Longrightarrow> vdom ! u < length ?cb"
          using h(1) by simp
        show "v < span x" if "t' < length ?ws" "v \<in> set (fst (?ws ! t'))" for t' v
          using that h(2)[of t' v] h(2)[OF t, of v] wt by (cases "t' = t") auto
        show "v < span x \<and> hasVertex x v \<and> \<not> vis' ! v \<and> d' = vdom ! v \<and> c' = v \<and> ?cb ! d'"
          if a: "t' < length ?ws" "snd (?ws ! t') = Some (v, d', c')" for t' v d' c'
        proof -
          have nt: "t' \<noteq> t" using a by auto
          then have o: "t' < length ws" "snd (ws ! t') = Some (v, d', c')" using a by auto
          note hv = h(3)[OF o]
          have "d' \<noteq> d" using h(4)[OF t _ o(1), of u d c v c'] wt o(2) nt by auto
          moreover from this have "v \<notin> piece x vdom u"
            using piece_present(3)[OF wf hu(1,2), of v vdom] hv hu(4) by auto
          ultimately show ?thesis using hv vz(3)[of v] by auto
        qed
        show "t'' = t'"
          if "t' < length ?ws" "snd (?ws ! t') = Some (v, d', c')"
            "t'' < length ?ws" "snd (?ws ! t'') = Some (v', d', c'')" for t' t'' v d' c' v' c''
        proof -
          have "t' \<noteq> t" "t'' \<noteq> t" using that by auto
          then show ?thesis using that h(4)[of t' v d' c' t'' v' c''] by simp
        qed
      qed
      have eff: "bfs_effect x vdom t ((vcom, cbsy, vis), ws) ((vcom', ?cb, vis'), ?ws)"
        unfolding bfs_effect_def using t wt vz(2,3,4) by auto
      show ?thesis using st vz(1) held' eff by blast
    qed
  qed
qed

lemma bfs_run_inv:
  assumes wf: "wellformed x"
  shows "bfs_lab x vdom vcom0 (vcom, vis) \<Longrightarrow> bfs_held x vdom cbsy vis ws \<Longrightarrow>
   \<exists>vcom' cbsy' vis' ws'.
     bfs_run x vdom sched ((vcom, cbsy, vis), ws) = Some ((vcom', cbsy', vis'), ws') \<and>
     bfs_lab x vdom vcom0 (vcom', vis') \<and> bfs_held x vdom cbsy' vis' ws'"
proof (induction sched arbitrary: vcom cbsy vis ws)
  case Nil
  then show ?case by simp
next
  case (Cons t sched)
  from bfs_step_inv[OF wf Cons.prems, of t] obtain vcom1 cbsy1 vis1 ws1 where
    s: "bfs_step x vdom t ((vcom, cbsy, vis), ws) = Some ((vcom1, cbsy1, vis1), ws1)" and
    i: "bfs_lab x vdom vcom0 (vcom1, vis1)" "bfs_held x vdom cbsy1 vis1 ws1"
    by blast
  from Cons.IH[OF i] s show ?case by simp
qed

lemma bfs_init_spec:
  "\<forall>u\<in>set us. u < length vcom \<and> u < length cbsy \<and> u < length vis \<Longrightarrow>
   \<exists>vcom' cbsy' vis'.
     bfs_init us (vcom, cbsy, vis) = Some (vcom', cbsy', vis') \<and>
     length vcom' = length vcom \<and> length cbsy' = length cbsy \<and> length vis' = length vis \<and>
     (\<forall>i. vcom' ! i = (if i \<in> set us then i else vcom ! i)) \<and>
     (\<forall>i<length cbsy. cbsy' ! i = (cbsy ! i \<and> i \<notin> set us)) \<and>
     (\<forall>i<length vis. vis' ! i = (vis ! i \<and> i \<notin> set us))"
proof (induction us arbitrary: vcom cbsy vis)
  case Nil
  then show ?case by simp
next
  case (Cons u us)
  have s: "bfs_init (u # us) (vcom, cbsy, vis)
           = bfs_init us (vcom[u := u], cbsy[u := False], vis[u := False])"
    using Cons.prems by (simp add: vset_in)
  have "\<forall>w\<in>set us. w < length (vcom[u := u]) \<and> w < length (cbsy[u := False]) \<and>
          w < length (vis[u := False])"
    using Cons.prems by simp
  from Cons.IH[OF this] obtain vcom' cbsy' vis' where
    r: "bfs_init us (vcom[u := u], cbsy[u := False], vis[u := False]) = Some (vcom', cbsy', vis')"
    and l: "length vcom' = length vcom" "length cbsy' = length cbsy" "length vis' = length vis"
    and c: "\<forall>i. vcom' ! i = (if i \<in> set us then i else vcom[u := u] ! i)"
    and b: "\<forall>i<length cbsy. cbsy' ! i = ((cbsy[u := False]) ! i \<and> i \<notin> set us)"
    and a: "\<forall>i<length vis. vis' ! i = ((vis[u := False]) ! i \<and> i \<notin> set us)"
    by auto
  have c': "\<forall>i. vcom' ! i = (if i \<in> set (u # us) then i else vcom ! i)"
  proof
    fix i
    show "vcom' ! i = (if i \<in> set (u # us) then i else vcom ! i)"
      using c Cons.prems by (cases "i = u") auto
  qed
  have b': "\<forall>i<length cbsy. cbsy' ! i = (cbsy ! i \<and> i \<notin> set (u # us))"
  proof (intro allI impI)
    fix i assume i: "i < length cbsy"
    then show "cbsy' ! i = (cbsy ! i \<and> i \<notin> set (u # us))"
      using b by (cases "i = u") auto
  qed
  have a': "\<forall>i<length vis. vis' ! i = (vis ! i \<and> i \<notin> set (u # us))"
  proof (intro allI impI)
    fix i assume i: "i < length vis"
    then show "vis' ! i = (vis ! i \<and> i \<notin> set (u # us))"
      using a by (cases "i = u") auto
  qed
  show ?case
    by (intro exI[of _ vcom'] exI[of _ cbsy'] exI[of _ vis']) (use s r l c' b' a' in simp)
qed

lemma bfs_scan_bound: "t < T \<Longrightarrow> u \<in> set (bfs_scan t T S) \<Longrightarrow> u < S"
proof -
  assume t: "t < T" and u: "u \<in> set (bfs_scan t T S)"
  have "t * S \<le> T * S" using t by simp
  then have "(t * S) div T \<le> S"
    using t by (metis div_le_mono less_nat_zero_code neq0_conv nonzero_mult_div_cancel_left)
  then show ?thesis using u by (auto simp: bfs_scan_def Let_def)
qed

lemma bfs_start_inv:
  assumes len: "span x \<le> length vdom" "span x \<le> length vcom" "span x \<le> length cbsy"
      "span x \<le> length vis"
    and ids: "\<forall>u<span x. hasVertex x u \<longrightarrow> vdom ! u < length cbsy"
  shows "\<exists>vcom0 cbsy0 vis0.
     bfs_init [0..<span x] (vcom, cbsy, vis) = Some (vcom0, cbsy0, vis0) \<and>
     length vcom0 = length vcom \<and> length cbsy0 = length cbsy \<and>
     (\<forall>i. vcom0 ! i = (if i < span x then i else vcom ! i)) \<and>
     (\<forall>i<span x. \<not> cbsy0 ! i) \<and> (\<forall>i<span x. \<not> vis0 ! i) \<and>
     bfs_lab x vdom vcom0 (vcom0, vis0) \<and>
     bfs_held x vdom cbsy0 vis0 (map (\<lambda>t. (bfs_scan t T (span x), None)) [0..<T])"
proof -
  have "\<forall>u\<in>set [0..<span x]. u < length vcom \<and> u < length cbsy \<and> u < length vis"
    using len by auto
  from bfs_init_spec[OF this] obtain vcom0 cbsy0 vis0 where
    i: "bfs_init [0..<span x] (vcom, cbsy, vis) = Some (vcom0, cbsy0, vis0)" and
    l: "length vcom0 = length vcom" "length cbsy0 = length cbsy" "length vis0 = length vis" and
    c: "\<forall>i. vcom0 ! i = (if i \<in> set [0..<span x] then i else vcom ! i)" and
    b: "\<forall>i<length cbsy. cbsy0 ! i = (cbsy ! i \<and> i \<notin> set [0..<span x])" and
    a: "\<forall>i<length vis. vis0 ! i = (vis ! i \<and> i \<notin> set [0..<span x])"
    by blast
  have nv: "\<not> vis0 ! u" if "u < span x" for u using a len(4) that by simp
  have nb: "\<not> cbsy0 ! u" if "u < span x" for u using b len(3) that by simp
  have lab: "bfs_lab x vdom vcom0 (vcom0, vis0)"
    by (rule bfs_labI) (use len l c nv in auto)
  have held: "bfs_held x vdom cbsy0 vis0 (map (\<lambda>t. (bfs_scan t T (span x), None)) [0..<T])"
    by (rule bfs_heldI) (use ids l bfs_scan_bound in auto)
  show ?thesis
    by (intro exI[of _ vcom0] exI[of _ cbsy0] exI[of _ vis0]) (use i l c nb nv lab held in simp)
qed

lemma bfs_oneD1:
  assumes "bfs_one x vdom (vcom, cbsy, vis) (todo, hold)"
  shows "\<exists>k\<le>span x. todo = [k..<span x] \<and>
        (\<forall>w<k. hasVertex x w \<longrightarrow> vis ! w \<or> (\<exists>d c. hold = Some (w, d, c)))"
  using assms by (simp add: bfs_one_def)

lemma bfs_oneD2:
  assumes "bfs_one x vdom (vcom, cbsy, vis) (todo, hold)"
  shows "d < span x \<Longrightarrow> cbsy ! d \<Longrightarrow> \<exists>u c. hold = Some (u, d, c)"
  using assms by (simp add: bfs_one_def)

lemma bfs_oneD3:
  assumes "bfs_one x vdom (vcom, cbsy, vis) (todo, hold)"
  shows "u < span x \<Longrightarrow> vis ! u \<Longrightarrow> w \<in> piece x vdom u \<Longrightarrow> vcom ! u \<le> w"
  using assms by (simp add: bfs_one_def)

lemma bfs_oneD4:
  assumes "bfs_one x vdom (vcom, cbsy, vis) (todo, hold)"
  shows "hold = Some (u, d, c) \<Longrightarrow> w \<in> piece x vdom u \<Longrightarrow> u \<le> w"
  using assms by (simp add: bfs_one_def)

lemmas bfs_oneD = bfs_oneD1 bfs_oneD2 bfs_oneD3 bfs_oneD4

lemma bfs_oneI:
  assumes "k \<le> span x" "todo = [k..<span x]"
    "\<And>w. w < k \<Longrightarrow> hasVertex x w \<Longrightarrow> vis ! w \<or> (\<exists>d c. hold = Some (w, d, c))"
    "\<And>d. d < span x \<Longrightarrow> cbsy ! d \<Longrightarrow> \<exists>u c. hold = Some (u, d, c)"
    "\<And>u w. u < span x \<Longrightarrow> vis ! u \<Longrightarrow> w \<in> piece x vdom u \<Longrightarrow> vcom ! u \<le> w"
    "\<And>u d c w. hold = Some (u, d, c) \<Longrightarrow> w \<in> piece x vdom u \<Longrightarrow> u \<le> w"
  shows "bfs_one x vdom (vcom, cbsy, vis) (todo, hold)"
  unfolding bfs_one_def prod.case
proof (intro conjI)
  show "\<exists>k\<le>span x. todo = [k..<span x] \<and>
        (\<forall>w<k. hasVertex x w \<longrightarrow> vis ! w \<or> (\<exists>d c. hold = Some (w, d, c)))"
    using assms(1,2,3) by (intro exI[of _ k]) blast
  show "\<forall>d<span x. cbsy ! d \<longrightarrow> (\<exists>u c. hold = Some (u, d, c))"
    using assms(4) by blast
  show "\<forall>u<span x. vis ! u \<longrightarrow> (\<forall>w\<in>piece x vdom u. vcom ! u \<le> w)"
    using assms(5) by blast
  show "\<forall>u d c. hold = Some (u, d, c) \<longrightarrow> (\<forall>w\<in>piece x vdom u. u \<le> w)"
    using assms(6) by blast
qed

lemma upt_Cons_eq: "u # rest = [k..<n] \<Longrightarrow> k < n \<and> u = k \<and> rest = [Suc k..<n]"
  using upt_eq_Cons_conv[of k n u rest] by auto

lemma bfs_one_effect:
  assumes wf: "wellformed x"
    and ids: "\<forall>u<span x. hasVertex x u \<longrightarrow> vdom ! u < span x"
    and lab: "bfs_lab x vdom vcom0 (vcom, vis)"
    and held: "bfs_held x vdom cbsy vis [(todo, hold)]"
    and one: "bfs_one x vdom (vcom, cbsy, vis) (todo, hold)"
    and eff: "bfs_effect x vdom t ((vcom, cbsy, vis), [(todo, hold)]) ((vcom', cbsy', vis'), ws')"
  shows "\<exists>todo' hold'. ws' = [(todo', hold')] \<and>
     bfs_one x vdom (vcom', cbsy', vis') (todo', hold') \<and>
     pending (todo', hold') \<le> pending (todo, hold) \<and>
     (t = 0 \<and> 0 < pending (todo, hold) \<longrightarrow> pending (todo', hold') < pending (todo, hold))"
proof -
  note l = bfs_labD[OF lab]
  note h = bfs_heldD[OF held]
  from bfs_oneD(1)[OF one] obtain k where
    k: "k \<le> span x" "todo = [k..<span x]" and
    dn: "\<And>w. w < k \<Longrightarrow> hasVertex x w \<Longrightarrow> vis ! w \<or> (\<exists>d c. hold = Some (w, d, c))"
    by blast
  note o = bfs_oneD(2,3,4)[OF one]
  from eff have lw: "length ws' = 1" by (simp add: bfs_effect_def)
  from eff consider
    (noop) "ws' = [(todo, hold)]" "vcom' = vcom" "cbsy' = cbsy" "vis' = vis"
      "t < 1 \<longrightarrow> (todo, hold) = ([], None)"
  | (skip) u rest where "t = 0" "todo = u # rest" "hold = None" "ws' = [(rest, None)]"
      "vcom' = vcom" "cbsy' = cbsy" "vis' = vis"
      "\<not> (hasVertex x u \<and> \<not> vis ! u \<and> \<not> cbsy ! (vdom ! u))"
  | (claim) u rest where "t = 0" "todo = u # rest" "hold = None"
      "ws' = [(rest, Some (u, vdom ! u, u))]"
      "vcom' = vcom" "cbsy' = cbsy[vdom ! u := True]" "vis' = vis"
      "hasVertex x u" "\<not> vis ! u" "\<not> cbsy ! (vdom ! u)"
  | (trav) u d c where "t = 0" "hold = Some (u, d, c)" "ws' = [(todo, None)]"
      "cbsy' = cbsy[d := False]"
      "\<forall>w<span x. vis' ! w = (vis ! w \<or> w \<in> piece x vdom u)"
      "\<forall>w<span x. vcom' ! w = (if w \<in> piece x vdom u then u else vcom ! w)"
    unfolding bfs_effect_def by (auto simp: less_Suc_eq)
  then show ?thesis
  proof cases
    case noop
    then show ?thesis using one by (auto simp: pending_def)
  next
    case (skip u rest)
    have ku: "k < span x" "u = k" "rest = [Suc k..<span x]"
      using k skip(2) upt_Cons_eq[of u rest k "span x"] by auto
    have nb: "\<not> cbsy ! (vdom ! u)" if "hasVertex x u"
      using o(1)[of "vdom ! u"] ids ku that skip(3) by auto
    have vu: "hasVertex x u \<Longrightarrow> vis ! u" using skip(8) nb by blast
    have "bfs_one x vdom (vcom, cbsy, vis) (rest, None)"
    proof (rule bfs_oneI[of "Suc k"])
      show "Suc k \<le> span x" using ku by simp
      show "rest = [Suc k..<span x]" by (rule ku)
      show "vis ! w \<or> (\<exists>d c. None = Some (w, d, c))" if "w < Suc k" "hasVertex x w" for w
        using that dn[of w] vu ku skip(3) by (cases "w = k") auto
      show "\<And>d. d < span x \<Longrightarrow> cbsy ! d \<Longrightarrow> \<exists>u c. None = Some (u, d, c)"
        using o(1) skip(3) by simp
      show "\<And>u w. u < span x \<Longrightarrow> vis ! u \<Longrightarrow> w \<in> piece x vdom u \<Longrightarrow> vcom ! u \<le> w"
        by (rule o(2))
      show "\<And>u d c w. None = Some (u, d, c) \<Longrightarrow> w \<in> piece x vdom u \<Longrightarrow> u \<le> w"
        by simp
    qed
    then show ?thesis using skip by (simp add: pending_def)
  next
    case (claim u rest)
    have ku: "k < span x" "u = k" "rest = [Suc k..<span x]"
      using k claim(2) upt_Cons_eq[of u rest k "span x"] by auto
    have dl: "vdom ! u < span x" using ids ku claim(8) by simp
    have dlen: "vdom ! u < length cbsy" using h(1)[of u] ku claim(8) by simp
    note fresh = bfs_lab_fresh[OF wf lab ku(1)[folded ku(2)] claim(8,9)]
    have least: "u \<le> w" if w: "w \<in> piece x vdom u" for w
    proof (rule ccontr)
      assume "\<not> u \<le> w"
      then have "w < k" using ku by simp
      moreover have "hasVertex x w"
        using piece_present[OF wf ku(1)[folded ku(2)] claim(8) w] by simp
      ultimately have "vis ! w" using dn[of w] claim(3) by simp
      then show False using fresh w by blast
    qed
    have "bfs_one x vdom (vcom, cbsy[vdom ! u := True], vis) (rest, Some (u, vdom ! u, u))"
    proof (rule bfs_oneI[of "Suc k"])
      show "Suc k \<le> span x" using ku by simp
      show "rest = [Suc k..<span x]" by (rule ku)
      show "vis ! w \<or> (\<exists>d c. Some (u, vdom ! u, u) = Some (w, d, c))"
        if "w < Suc k" "hasVertex x w" for w
        using that dn[of w] ku claim(3) by (cases "w = k") auto
      show "\<exists>v c. Some (u, vdom ! u, u) = Some (v, d, c)"
        if "d < span x" "cbsy[vdom ! u := True] ! d" for d
      proof (cases "d = vdom ! u")
        case True
        then show ?thesis by simp
      next
        case False
        then have "cbsy ! d" using that(2) by simp
        then show ?thesis using o(1)[OF that(1)] claim(3) by simp
      qed
      show "\<And>u w. u < span x \<Longrightarrow> vis ! u \<Longrightarrow> w \<in> piece x vdom u \<Longrightarrow> vcom ! u \<le> w"
        by (rule o(2))
      show "\<And>v d c w. Some (u, vdom ! u, u) = Some (v, d, c) \<Longrightarrow> w \<in> piece x vdom v \<Longrightarrow> v \<le> w"
        using least by simp
    qed
    then show ?thesis using claim by (simp add: pending_def)
  next
    case (trav u d c)
    have hu: "u < span x" "hasVertex x u" "\<not> vis ! u" "d = vdom ! u" "c = u" "cbsy ! d"
      using h(3)[of 0 u d c] trav(2) by auto
    have pv: "vis' ! w = (vis ! w \<or> w \<in> piece x vdom u)" if "w < span x" for w
      using trav(5) that by simp
    have pc: "vcom' ! w = (if w \<in> piece x vdom u then u else vcom ! w)" if "w < span x" for w
      using trav(6) that by simp
    have "bfs_one x vdom (vcom', cbsy[d := False], vis') (todo, None)"
    proof (rule bfs_oneI[of k])
      show "k \<le> span x" "todo = [k..<span x]" by (rule k)+
      show "vis' ! w \<or> (\<exists>d c. None = Some (w, d, c))" if "w < k" "hasVertex x w" for w
      proof -
        have ws: "w < span x" using that k by simp
        from dn[OF that] show ?thesis
        proof
          assume "vis ! w"
          then show ?thesis using pv[OF ws] by simp
        next
          assume "\<exists>d c. hold = Some (w, d, c)"
          then have "w = u" using trav(2) by simp
          then show ?thesis using pv[OF ws] piece_refl by simp
        qed
      qed
      show "\<exists>v c. None = Some (v, d', c)" if "d' < span x" "cbsy[d := False] ! d'" for d'
      proof -
        have "d' \<noteq> d" using that(2) h(1)[OF hu(1,2)] hu(4) by (cases "d' = d") auto
        then have "cbsy ! d'" using that(2) by simp
        then show ?thesis using o(1)[OF that(1)] trav(2) \<open>d' \<noteq> d\<close> by simp
      qed
      show "vcom' ! a \<le> w" if a: "a < span x" "vis' ! a" "w \<in> piece x vdom a" for a w
      proof (cases "a \<in> piece x vdom u")
        case True
        then have "w \<in> piece x vdom u" using piece_trans a(3) by blast
        then have "u \<le> w" using o(3)[OF trav(2)] by simp
        then show ?thesis using pc[OF a(1)] True by simp
      next
        case False
        then have "vis ! a" using pv[OF a(1)] a(2) by simp
        then show ?thesis using o(2)[OF a(1) _ a(3)] pc[OF a(1)] False by simp
      qed
      show "\<And>u d c w. None = Some (u, d, c) \<Longrightarrow> w \<in> piece x vdom u \<Longrightarrow> u \<le> w"
        by simp
    qed
    then show ?thesis using trav by (simp add: pending_def)
  qed
qed

lemma bfs_one_run:
  assumes wf: "wellformed x"
    and ids: "\<forall>u<span x. hasVertex x u \<longrightarrow> vdom ! u < span x"
  shows "bfs_lab x vdom vcom0 (vcom, vis) \<Longrightarrow> bfs_held x vdom cbsy vis [(todo, hold)] \<Longrightarrow>
         bfs_one x vdom (vcom, cbsy, vis) (todo, hold) \<Longrightarrow>
   \<exists>vcom' cbsy' vis' todo' hold'.
     bfs_run x vdom sched ((vcom, cbsy, vis), [(todo, hold)])
       = Some ((vcom', cbsy', vis'), [(todo', hold')]) \<and>
     bfs_lab x vdom vcom0 (vcom', vis') \<and>
     bfs_one x vdom (vcom', cbsy', vis') (todo', hold') \<and>
     pending (todo', hold') \<le> pending (todo, hold) - count_list sched 0"
proof (induction sched arbitrary: vcom cbsy vis todo hold)
  case Nil
  then show ?case by auto
next
  case (Cons t sched)
  from bfs_step_inv[OF wf Cons.prems(1,2), of t] obtain vcom1 cbsy1 vis1 ws1 where
    s: "bfs_step x vdom t ((vcom, cbsy, vis), [(todo, hold)]) = Some ((vcom1, cbsy1, vis1), ws1)"
    and i: "bfs_lab x vdom vcom0 (vcom1, vis1)" "bfs_held x vdom cbsy1 vis1 ws1"
    and e: "bfs_effect x vdom t ((vcom, cbsy, vis), [(todo, hold)]) ((vcom1, cbsy1, vis1), ws1)"
    by blast
  from bfs_one_effect[OF wf ids Cons.prems(1,2,3) e] obtain todo1 hold1 where
    w: "ws1 = [(todo1, hold1)]" and
    o: "bfs_one x vdom (vcom1, cbsy1, vis1) (todo1, hold1)" and
    p: "pending (todo1, hold1) \<le> pending (todo, hold)"
       "t = 0 \<and> 0 < pending (todo, hold) \<longrightarrow> pending (todo1, hold1) < pending (todo, hold)"
    by blast
  from Cons.IH[OF i(1) i(2)[unfolded w] o] obtain vcom' cbsy' vis' todo' hold' where
    r: "bfs_run x vdom sched ((vcom1, cbsy1, vis1), [(todo1, hold1)])
          = Some ((vcom', cbsy', vis'), [(todo', hold')])" and
    l: "bfs_lab x vdom vcom0 (vcom', vis')" and
    o': "bfs_one x vdom (vcom', cbsy', vis') (todo', hold')" and
    p': "pending (todo', hold') \<le> pending (todo1, hold1) - count_list sched 0"
    by blast
  have res: "bfs_run x vdom (t # sched) ((vcom, cbsy, vis), [(todo, hold)])
          = Some ((vcom', cbsy', vis'), [(todo', hold')])"
    using s w r by simp
  have pp: "pending (todo', hold') \<le> pending (todo, hold) - count_list (t # sched) 0"
    using p p' by (cases "t = 0") auto
  show ?case using res l o' pp by blast
qed

lemma count_list_replicate_same: "count_list (replicate n a) a = n"
  by (induction n) auto

lemma bfs_result:
  assumes wf: "wellformed x"
    and len: "span x \<le> length vdom" "span x \<le> length vcom" "span x \<le> length cbsy"
      "span x \<le> length vis"
    and ids: "\<forall>u<span x. hasVertex x u \<longrightarrow> vdom ! u < span x"
  shows "\<exists>vcom' cbsy' vis'.
     splitDisconnectedCommunitiesBfsOmpW 1 sched x vdom vcom cbsy vis = Some (vcom', cbsy', vis') \<and>
     length vcom' = length vcom \<and>
     (\<forall>u<span x. vcom' ! u = (if hasVertex x u then Min (piece x vdom u) else u)) \<and>
     (\<forall>i<length vcom. span x \<le> i \<longrightarrow> vcom' ! i = vcom ! i)"
proof -
  have ids': "\<forall>u<span x. hasVertex x u \<longrightarrow> vdom ! u < length cbsy"
    using ids len(3) by auto
  have ws: "map (\<lambda>t. (bfs_scan t 1 (span x), None)) [0..<1] = [([0..<span x], None)]"
    by (simp add: bfs_scan_def)
  from bfs_start_inv[OF len ids', of 1] obtain vcom0 cbsy0 vis0 where
    i: "bfs_init [0..<span x] (vcom, cbsy, vis) = Some (vcom0, cbsy0, vis0)" and
    l: "length vcom0 = length vcom" and
    c: "\<forall>i. vcom0 ! i = (if i < span x then i else vcom ! i)" and
    nb: "\<forall>i<span x. \<not> cbsy0 ! i" and
    nv: "\<forall>i<span x. \<not> vis0 ! i" and
    lab: "bfs_lab x vdom vcom0 (vcom0, vis0)" and
    held: "bfs_held x vdom cbsy0 vis0 [([0..<span x], None)]"
    unfolding ws by blast
  have one: "bfs_one x vdom (vcom0, cbsy0, vis0) ([0..<span x], None)"
    by (rule bfs_oneI[of 0]) (use nb nv in auto)
  let ?sched = "sched @ bfs_finish 1 (span x)"
  from bfs_one_run[OF wf ids lab held one, of ?sched] obtain vcom' cbsy' vis' todo' hold' where
    r: "bfs_run x vdom ?sched ((vcom0, cbsy0, vis0), [([0..<span x], None)])
          = Some ((vcom', cbsy', vis'), [(todo', hold')])" and
    lab': "bfs_lab x vdom vcom0 (vcom', vis')" and
    one': "bfs_one x vdom (vcom', cbsy', vis') (todo', hold')" and
    p: "pending (todo', hold') \<le> pending ([0..<span x], None) - count_list ?sched 0"
    by blast
  have "count_list ?sched 0 \<ge> 2 * span x"
    by (simp add: bfs_finish_def count_list_replicate_same)
  then have "pending (todo', hold') = 0" using p by (simp add: pending_def)
  then have fin: "todo' = []" "hold' = None"
    by (auto simp: pending_def split: option.splits)
  have res: "splitDisconnectedCommunitiesBfsOmpW 1 sched x vdom vcom cbsy vis
             = Some (vcom', cbsy', vis')"
    using i r ws by (simp add: splitDisconnectedCommunitiesBfsOmpW_def)
  note d = bfs_labD[OF lab']
  from bfs_oneD(1)[OF one'] fin obtain k where
    k: "k \<le> span x" "[] = [k..<span x]" and
    dn: "\<forall>w<k. hasVertex x w \<longrightarrow> vis' ! w"
    by auto
  have "[k..<span x] = []" using k(2) by simp
  then have "span x \<le> k" by auto
  then have ks: "k = span x" using k(1) by linarith
  have m: "vcom' ! u = (if hasVertex x u then Min (piece x vdom u) else u)" if u: "u < span x" for u
  proof (cases "hasVertex x u")
    case True
    then have v: "vis' ! u" using dn u ks by simp
    have "Min (piece x vdom u) = vcom' ! u"
    proof (rule Min_eqI)
      show "finite (piece x vdom u)" using piece_finite[OF wf u True] by simp
      show "vcom' ! u \<in> piece x vdom u" using d(6)[OF u v] by simp
      show "\<And>w. w \<in> piece x vdom u \<Longrightarrow> vcom' ! u \<le> w" using bfs_oneD(3)[OF one' u v] .
    qed
    then show ?thesis using True by simp
  next
    case False
    then show ?thesis using d(6)[OF u] d(8)[OF u] by auto
  qed
  have fr: "vcom' ! i = vcom ! i" if "i < length vcom" "span x \<le> i" for i
    using d(5)[of i] that l c by simp
  show ?thesis
    by (intro exI[of _ vcom'] exI[of _ cbsy'] exI[of _ vis']) (use res d(4) l m fr in auto)
qed

section \<open>The data of absent ids is never used\<close>

lemma same_presentD:
  assumes "same_present x vdom x' vdom'"
  shows "span x' = span x" "span x \<le> length vdom" "span x \<le> length vdom'"
    "\<And>u. u < span x \<Longrightarrow> hasVertex x' u = hasVertex x u"
    "\<And>u. u < span x \<Longrightarrow> hasVertex x u \<Longrightarrow> edgeKeys x' u = edgeKeys x u"
    "\<And>u. u < span x \<Longrightarrow> hasVertex x u \<Longrightarrow> vdom' ! u = vdom ! u"
  using assms unfolding same_present_def by auto

lemma bfs_edges_cong:
  "\<forall>v\<in>set es. ft v = ft' v \<Longrightarrow> bfs_edges ft fp k es r = bfs_edges ft' fp k es r"
proof (induction es arbitrary: r)
  case Nil
  then show ?case by simp
next
  case (Cons v es)
  obtain vis vs s where r: "r = (vis, vs, s)" by (cases r)
  have a: "ft v = ft' v" and b: "\<forall>v\<in>set es. ft v = ft' v" using Cons.prems by auto
  note ih = Cons.IH[OF b]
  show ?case unfolding r by (simp add: a ih cong: if_cong)
qed

lemma bfs_edges_vs:
  "bfs_edges ft fp k es (vis, vs, s) = Some (vis', vs', s') \<Longrightarrow> set vs' \<subseteq> set vs \<union> set es"
proof (induction es arbitrary: vis vs s)
  case Nil
  then show ?case by simp
next
  case (Cons v es)
  from Cons.prems consider
    "bfs_edges ft fp k es (vis, vs, s) = Some (vis', vs', s')"
  | s1 where "bfs_edges ft fp k es (vis[v := True], vs @ [v], s1) = Some (vis', vs', s')"
    by (auto simp: bind_eq_Some_conv split: if_splits)
  then show ?case
  proof cases
    case 1
    from Cons.IH[OF this] show ?thesis by auto
  next
    case 2
    from Cons.IH[OF this] show ?thesis by auto
  qed
qed

lemma bfs_frontier_cong:
  "\<forall>u\<in>set us. edgeKeys x' u = edgeKeys x u \<and> (\<forall>v\<in>set (edgeKeys x u). ft v = ft' v) \<Longrightarrow>
   bfs_frontier x ft fp k us r = bfs_frontier x' ft' fp k us r"
proof (induction us arbitrary: r)
  case Nil
  then show ?case by simp
next
  case (Cons u us)
  have e: "edgeKeys x' u = edgeKeys x u" "\<forall>v\<in>set (edgeKeys x u). ft v = ft' v"
    and r: "\<forall>u\<in>set us. edgeKeys x' u = edgeKeys x u \<and> (\<forall>v\<in>set (edgeKeys x u). ft v = ft' v)"
    using Cons.prems by auto
  have ih: "bfs_frontier x ft fp k us = bfs_frontier x' ft' fp k us"
    by (rule ext) (rule Cons.IH[OF r])
  show ?case
    by (simp add: bfs_edges_cong[OF e(2), of fp k r] e(1) ih)
qed

lemma bfs_frontier_vs:
  "bfs_frontier x ft fp k us (vis, vs, s) = Some (vis', vs', s') \<Longrightarrow>
     set vs' \<subseteq> set vs \<union> (\<Union>u\<in>set us. set (edgeKeys x u))"
proof (induction us arbitrary: vis vs s)
  case Nil
  then show ?case by simp
next
  case (Cons u us)
  from Cons.prems obtain vis1 vs1 s1 where
    1: "bfs_edges ft fp k (edgeKeys x u) (vis, vs, s) = Some (vis1, vs1, s1)" and
    2: "bfs_frontier x ft fp k us (vis1, vs1, s1) = Some (vis', vs', s')"
    by (auto simp: bind_eq_Some_conv)
  from bfs_edges_vs[OF 1] Cons.IH[OF 2] show ?case by auto
qed

lemma bfs_levels_cong:
  "(\<And>u. P u \<Longrightarrow> edgeKeys x' u = edgeKeys x u \<and> (\<forall>v\<in>set (edgeKeys x u). P v \<and> ft v = ft' v))
   \<Longrightarrow> \<forall>u\<in>set us. P u \<Longrightarrow>
   bfs_levels x ft fp k us (vis, s) = bfs_levels x' ft' fp k us (vis, s)"
proof (induction x ft fp k us "(vis, s)" arbitrary: vis s rule: bfs_levels.induct)
  case (1 x ft fp k us vis s)
  note cl = "1.prems"(1)
  show ?case
  proof (cases "us = []")
    case True
    then show ?thesis by simp
  next
    case False
    have fc: "bfs_frontier x ft fp k us (vis, [], s) = bfs_frontier x' ft' fp k us (vis, [], s)"
      by (rule bfs_frontier_cong) (use cl "1.prems"(2) in blast)
    show ?thesis
    proof (cases "bfs_frontier x ft fp k us (vis, [], s)")
      case None
      then show ?thesis using fc False by simp
    next
      case (Some res)
      obtain vis1 vs1 s1 where res: "res = (vis1, vs1, s1)" by (cases res)
      note f = Some[unfolded res]
      have "set vs1 \<subseteq> (\<Union>u\<in>set us. set (edgeKeys x u))"
        using bfs_frontier_vs[OF f] by simp
      then have p: "\<forall>u\<in>set vs1. P u" using cl "1.prems"(2) by blast
      from "1.hyps"[OF False f refl refl cl p] f fc False show ?thesis by simp
    qed
  qed
qed

section \<open>The initialisation passes and the sizes of the buffers\<close>








section \<open>Graphs whose present vertices have present neighbours\<close>

text \<open>
  On a closed graph every vertex that a splitter touches is present: the traversals and
  the iterations read the graph and \<^verbatim>\<open>vdom\<close> at present vertices only, write
  \<^verbatim>\<open>vcom\<close> at present vertices only, and make no out-of-range access when the buffers
  are at least as long as the span.
\<close>

lemma closedD:
  assumes "closed x" "u < span x" "hasVertex x u" "v \<in> set (edgeKeys x u)"
  shows "v < span x" "hasVertex x v"
  using assms unfolding closed_def by blast+

lemma wellformed_closed: "wellformed x \<Longrightarrow> closed x"
  unfolding wellformed_def closed_def by blast

lemma coversD: "covers x vdom \<Longrightarrow> present x u \<Longrightarrow> u < length vdom"
  unfolding covers_def present_def by blast

lemma covers_span: "span x \<le> length vdom \<Longrightarrow> covers x vdom"
  unfolding covers_def by auto

lemma closed_present:
  "closed x \<Longrightarrow> present x u \<Longrightarrow> v \<in> set (edgeKeys x u) \<Longrightarrow> present x v"
  unfolding present_def using closedD by blast

lemma keptI:
  "length vis = length vis0 \<Longrightarrow> length vcom = length vcom0 \<Longrightarrow>
   (\<And>w. \<not> present x w \<Longrightarrow> vis ! w = vis0 ! w \<and> vcom ! w = vcom0 ! w) \<Longrightarrow>
   kept x vis0 vcom0 (vis, vcom)"
  by (simp add: kept_def)

lemma keptD:
  assumes "kept x vis0 vcom0 (vis, vcom)"
  shows "length vis = length vis0" "length vcom = length vcom0"
    "\<And>w. \<not> present x w \<Longrightarrow> vis ! w = vis0 ! w"
    "\<And>w. \<not> present x w \<Longrightarrow> vcom ! w = vcom0 ! w"
  using assms by (simp_all add: kept_def)

lemma kept_refl: "kept x vis vcom (vis, vcom)"
  by (simp add: kept_def)

lemma kept_visit:
  assumes k: "kept x vis0 vcom0 (vis, vcom)" and v: "present x v"
  shows "kept x vis0 vcom0 (vis[v := True], vcom[v := c])"
proof (rule keptI)
  note d = keptD[OF k]
  show "length (vis[v := True]) = length vis0" "length (vcom[v := c]) = length vcom0"
    using d by simp_all
  fix w assume w: "\<not> present x w"
  then have "w \<noteq> v" using v by auto
  then show "vis[v := True] ! w = vis0 ! w \<and> vcom[v := c] ! w = vcom0 ! w"
    using d(3,4)[OF w] by simp
qed

lemma kept_trans:
  assumes "kept x vis0 vcom0 (vis1, vcom1)" "kept x vis1 vcom1 (vis2, vcom2)"
  shows "kept x vis0 vcom0 (vis2, vcom2)"
  using assms by (simp add: kept_def)

lemma bfs_edges_kept:
  assumes len: "covers x vdom" "span x \<le> length vis0" "span x \<le> length vcom0"
  shows "\<forall>v\<in>set es. present x v \<Longrightarrow> kept x vis0 vcom0 (vis, vcom) \<Longrightarrow>
    \<exists>vis' vs' vcom'. bfs_edges (bfs_ft vdom d) (bfs_fp c) k es (vis, vs, vcom)
        = Some (vis', vs', vcom') \<and>
      kept x vis0 vcom0 (vis', vcom') \<and> set vs' \<subseteq> set vs \<union> set es"
proof (induction es arbitrary: vis vs vcom)
  case Nil
  then show ?case by simp
next
  case (Cons v es)
  note k = keptD[OF Cons.prems(2)]
  have v: "present x v" and es: "\<forall>v\<in>set es. present x v" using Cons.prems(1) by auto
  have vl: "v < length vis" "v < length vdom" "v < length vcom"
    using v len k coversD[OF len(1) v] by (auto simp: present_def)
  show ?case
  proof (cases "\<not> vis ! v \<and> vdom ! v = d")
    case True
    have e: "bfs_edges (bfs_ft vdom d) (bfs_fp c) k (v # es) (vis, vs, vcom)
           = bfs_edges (bfs_ft vdom d) (bfs_fp c) k es (vis[v := True], vs @ [v], vcom[v := c])"
      using True vl by (simp add: vget_in vset_in)
    have kk: "kept x vis0 vcom0 (vis[v := True], vcom[v := c])"
      by (rule kept_visit[OF Cons.prems(2) v])
    from Cons.IH[OF es kk, of "vs @ [v]"] show ?thesis
      unfolding e by auto
  next
    case False
    have e: "bfs_edges (bfs_ft vdom d) (bfs_fp c) k (v # es) (vis, vs, vcom)
           = bfs_edges (bfs_ft vdom d) (bfs_fp c) k es (vis, vs, vcom)"
      using False vl by (auto simp: vget_in)
    from Cons.IH[OF es Cons.prems(2), of vs] show ?thesis
      unfolding e by auto
  qed
qed

lemma bfs_frontier_kept:
  assumes cl: "closed x"
    and len: "covers x vdom" "span x \<le> length vis0" "span x \<le> length vcom0"
  shows "\<forall>u\<in>set us. present x u \<Longrightarrow> \<forall>v\<in>set vs. present x v \<Longrightarrow>
    kept x vis0 vcom0 (vis, vcom) \<Longrightarrow>
    \<exists>vis' vs' vcom'. bfs_frontier x (bfs_ft vdom d) (bfs_fp c) k us (vis, vs, vcom)
        = Some (vis', vs', vcom') \<and>
      kept x vis0 vcom0 (vis', vcom') \<and> (\<forall>v\<in>set vs'. present x v)"
proof (induction us arbitrary: vis vs vcom)
  case Nil
  then show ?case by simp
next
  case (Cons u us)
  have u: "present x u" and us: "\<forall>u\<in>set us. present x u" using Cons.prems(1) by auto
  have es: "\<forall>v\<in>set (edgeKeys x u). present x v" using closed_present[OF cl u] by blast
  from bfs_edges_kept[OF len es Cons.prems(3), of d c k vs] obtain vis1 vs1 vcom1 where
    e: "bfs_edges (bfs_ft vdom d) (bfs_fp c) k (edgeKeys x u) (vis, vs, vcom)
          = Some (vis1, vs1, vcom1)" and
    k1: "kept x vis0 vcom0 (vis1, vcom1)" and s1: "set vs1 \<subseteq> set vs \<union> set (edgeKeys x u)"
    by blast
  have p1: "\<forall>v\<in>set vs1. present x v" using s1 es Cons.prems(2) by blast
  from Cons.IH[OF us p1 k1] show ?case by (simp add: e)
qed

lemma bfs_levels_kept:
  "closed x \<Longrightarrow> covers x vdom \<Longrightarrow> span x \<le> length vis0 \<Longrightarrow>
   span x \<le> length vcom0 \<Longrightarrow>
   \<forall>u\<in>set us. present x u \<Longrightarrow> kept x vis0 vcom0 (vis, vcom) \<Longrightarrow>
    \<exists>vis' vcom'. bfs_levels x (bfs_ft vdom d) (bfs_fp c) k us (vis, vcom) = Some (vis', vcom') \<and>
      kept x vis0 vcom0 (vis', vcom')"
proof (induction x "bfs_ft vdom d" "bfs_fp c" k us "(vis, vcom)" arbitrary: vis vcom
    rule: bfs_levels.induct)
  case (1 x k us vis vcom)
  show ?case
  proof (cases "us = []")
    case True
    then show ?thesis using "1.prems" by simp
  next
    case False
    from bfs_frontier_kept[OF "1.prems"(1,2,3,4,5) _ "1.prems"(6), of "[]" d c k]
    obtain vis1 vs1 vcom1 where
      f: "bfs_frontier x (bfs_ft vdom d) (bfs_fp c) k us (vis, [], vcom)
           = Some (vis1, vs1, vcom1)" and
      k1: "kept x vis0 vcom0 (vis1, vcom1)" and p1: "\<forall>v\<in>set vs1. present x v"
      by auto
    from "1.hyps"[OF False f refl refl "1.prems"(1,2,3,4) p1 k1] f False
    show ?thesis by simp
  qed
qed

subsection \<open>Breadth-first, any number of workers, any schedule\<close>

lemma fl_traverse_kept:
  assumes cl: "closed x"
    and len: "covers x vdom" "span x \<le> length vis" "span x \<le> length vcom"
    and u: "present x u" and d: "d < length cbsy"
  shows "\<exists>vcom' vis'. fl_traverse x vdom (u, d, c) (vcom, cbsy, vis)
           = Some (vcom', cbsy[d := False], vis') \<and> kept x vis vcom (vis', vcom')"
proof -
  have ul: "u < length vis" "u < length vcom" using u len by (auto simp: present_def)
  have st: "bfs_starts (bfs_fp c) [u] (vis, vcom) = Some (vis[u := True], vcom[u := c])"
    using ul by (simp add: vset_in)
  have k0: "kept x vis vcom (vis[u := True], vcom[u := c])"
    by (rule kept_visit[OF kept_refl u])
  have us: "\<forall>a\<in>set [u]. present x a" using u by simp
  from bfs_levels_kept[OF cl len us k0, of d c "Suc 0"] obtain vis' vcom' where
    l: "bfs_levels x (bfs_ft vdom d) (bfs_fp c) (Suc 0) [u] (vis[u := True], vcom[u := c])
          = Some (vis', vcom')" and
    k: "kept x vis vcom (vis', vcom')"
    by blast
  have "fl_traverse x vdom (u, d, c) (vcom, cbsy, vis) = Some (vcom', cbsy[d := False], vis')"
    using d by (simp add: fl_traverse_def bfsVisitedForEachU_def vset_in st l
        del: bfs_levels.simps bfs_starts.simps)
  then show ?thesis using k by blast
qed

lemma bfs_pinvI:
  "kept x vis0 vcom0 (vis, vcom) \<Longrightarrow> length cbsy = length cbsy0 \<Longrightarrow>
   (\<And>t. t < length ws \<Longrightarrow> (\<forall>u\<in>set (fst (ws ! t)). u < span x) \<and> phase_ok x vdom (snd (ws ! t)))
   \<Longrightarrow> bfs_pinv x vdom vcom0 cbsy0 vis0 ((vcom, cbsy, vis), ws)"
  by (simp add: bfs_pinv_def)

lemma bfs_pinvD:
  assumes "bfs_pinv x vdom vcom0 cbsy0 vis0 ((vcom, cbsy, vis), ws)"
  shows "kept x vis0 vcom0 (vis, vcom)" "length cbsy = length cbsy0"
    "\<And>t u. t < length ws \<Longrightarrow> u \<in> set (fst (ws ! t)) \<Longrightarrow> u < span x"
    "\<And>t. t < length ws \<Longrightarrow> phase_ok x vdom (snd (ws ! t))"
  using assms by (simp_all add: bfs_pinv_def)

lemma fl_micro_inv:
  assumes cl: "closed x"
    and len: "covers x vdom" "span x \<le> length vis0" "span x \<le> length vcom0"
    and ids: "\<forall>u. present x u \<longrightarrow> vdom ! u < length cbsy0"
    and k: "kept x vis0 vcom0 (vis, vcom)" and lb: "length cbsy = length cbsy0"
    and todo: "\<forall>u\<in>set todo. u < span x" and ph: "phase_ok x vdom ph"
  shows "\<exists>todo' ph' vcom' cbsy' vis'.
     fl_micro x vdom todo ph (vcom, cbsy, vis) = Some ((todo', ph'), (vcom', cbsy', vis')) \<and>
     kept x vis0 vcom0 (vis', vcom') \<and> length cbsy' = length cbsy0 \<and>
     (\<forall>u\<in>set todo'. u < span x) \<and> phase_ok x vdom ph'"
proof (cases ph)
  case Idle
  show ?thesis
  proof (cases todo)
    case Nil
    then show ?thesis using Idle k lb by simp
  next
    case (Cons u rest)
    have u: "u < span x" and rest: "\<forall>u\<in>set rest. u < span x" using todo Cons by auto
    have ul: "u < length vis" using u len keptD(1)[OF k] by simp
    show ?thesis
      using Idle Cons k lb rest u ul
      by (auto simp: fl_look_def vget_in present_def)
  qed
next
  case (Looked u)
  then have u: "present x u" using ph by simp
  then have ul: "u < length vdom" "u < length vcom"
    using len keptD(2)[OF k] coversD[OF len(1)] by (auto simp: present_def)
  show ?thesis using Looked k lb todo u ul by (simp add: fl_read_def vget_in)
next
  case (Read u d c)
  then have u: "present x u" "d = vdom ! u" using ph by simp_all
  then have dl: "d < length cbsy" using ids lb by simp
  show ?thesis using Read k lb todo u dl by (simp add: fl_exchange_def vget_in)
next
  case (Held u d c)
  then have u: "present x u" "d = vdom ! u" using ph by simp_all
  then have dl: "d < length cbsy" using ids lb by simp
  note d = keptD[OF k]
  have len': "span x \<le> length vis" "span x \<le> length vcom" using len d by simp_all
  from fl_traverse_kept[OF cl len(1) len' u(1) dl, of c] obtain vcom' vis' where
    t: "fl_traverse x vdom (u, d, c) (vcom, cbsy, vis) = Some (vcom', cbsy[d := False], vis')"
    and k': "kept x vis vcom (vis', vcom')"
    by blast
  from kept_trans[OF k k'] show ?thesis using Held t lb todo by simp
qed

lemma bfs_par_step_inv:
  assumes cl: "closed x"
    and len: "covers x vdom" "span x \<le> length vis0" "span x \<le> length vcom0"
    and ids: "\<forall>u. present x u \<longrightarrow> vdom ! u < length cbsy0"
    and inv: "bfs_pinv x vdom vcom0 cbsy0 vis0 (sh, ws)"
  shows "\<exists>sh' ws'. bfs_par_step x vdom t (sh, ws) = Some (sh', ws') \<and>
     length ws' = length ws \<and> bfs_pinv x vdom vcom0 cbsy0 vis0 (sh', ws')"
proof (cases "t < length ws")
  case False
  then show ?thesis using inv by (simp add: bfs_par_step_def)
next
  case True
  obtain vcom cbsy vis where sh: "sh = (vcom, cbsy, vis)" by (cases sh)
  note d = bfs_pinvD[OF inv[unfolded sh]]
  have todo: "\<forall>u\<in>set (fst (ws ! t)). u < span x" using d(3)[OF True] by blast
  from fl_micro_inv[OF cl len ids d(1,2) todo d(4)[OF True]]
  obtain todo' ph' vcom' cbsy' vis' where
    m: "fl_micro x vdom (fst (ws ! t)) (snd (ws ! t)) (vcom, cbsy, vis)
          = Some ((todo', ph'), (vcom', cbsy', vis'))" and
    k': "kept x vis0 vcom0 (vis', vcom')" and lb': "length cbsy' = length cbsy0" and
    t': "\<forall>u\<in>set todo'. u < span x" and p': "phase_ok x vdom ph'"
    by blast
  have s: "bfs_par_step x vdom t (sh, ws) = Some ((vcom', cbsy', vis'), ws[t := (todo', ph')])"
    using True m by (simp add: bfs_par_step_def sh)
  have "bfs_pinv x vdom vcom0 cbsy0 vis0 ((vcom', cbsy', vis'), ws[t := (todo', ph')])"
  proof (rule bfs_pinvI[OF k' lb'])
    fix t' assume a: "t' < length (ws[t := (todo', ph')])"
    show "(\<forall>u\<in>set (fst (ws[t := (todo', ph')] ! t')). u < span x) \<and>
          phase_ok x vdom (snd (ws[t := (todo', ph')] ! t'))"
    proof (cases "t' = t")
      case True
      then show ?thesis using a t' p' by simp
    next
      case False
      then show ?thesis using a d(3)[of t'] d(4)[of t'] by auto
    qed
  qed
  then show ?thesis using s by simp
qed


lemma bfs_scan_from_bound: "ub \<le> S \<Longrightarrow> u \<in> set (bfs_scan_from ub S) \<Longrightarrow> u < S"
  by (auto simp: bfs_scan_from_def)

lemma bfs_init_kept:
  assumes len: "span x \<le> length vcom" "span x \<le> length cbsy" "span x \<le> length vis"
  shows "\<exists>vcom0 cbsy0 vis0.
     bfs_init [0..<span x] (vcom, cbsy, vis) = Some (vcom0, cbsy0, vis0) \<and>
     length vcom0 = length vcom \<and> length cbsy0 = length cbsy \<and> length vis0 = length vis \<and>
     (\<forall>u<span x. vcom0 ! u = u \<and> \<not> vis0 ! u \<and> \<not> cbsy0 ! u)"
proof -
  have "\<forall>u\<in>set [0..<span x]. u < length vcom \<and> u < length cbsy \<and> u < length vis"
    using len by simp
  from bfs_init_spec[OF this] obtain vcom0 cbsy0 vis0 where
    i: "bfs_init [0..<span x] (vcom, cbsy, vis) = Some (vcom0, cbsy0, vis0)" and
    l: "length vcom0 = length vcom" "length cbsy0 = length cbsy" "length vis0 = length vis" and
    v: "\<forall>i. vcom0 ! i = (if i \<in> set [0..<span x] then i else vcom ! i)" and
    b: "\<forall>i<length cbsy. cbsy0 ! i = (cbsy ! i \<and> i \<notin> set [0..<span x])" and
    s: "\<forall>i<length vis. vis0 ! i = (vis ! i \<and> i \<notin> set [0..<span x])"
    by blast
  have "vcom0 ! u = u \<and> \<not> vis0 ! u \<and> \<not> cbsy0 ! u" if "u < span x" for u
    using that v b s len by simp
  then show ?thesis using i l by blast
qed


lemma fl_traverse_closed_cong:
  assumes cl: "closed x" and sp: "same_present x vdom x' vdom'" and u: "present x u"
  shows "fl_traverse x' vdom' (u, d, c) sh = fl_traverse x vdom (u, d, c) sh"
proof -
  note s = same_presentD[OF sp]
  obtain vcom cbsy vis where sh: "sh = (vcom, cbsy, vis)" by (cases sh)
  let ?ft = "\<lambda>v (k::nat). do { dv \<leftarrow> vget vdom v; Some (dv = d) }"
  let ?ft' = "\<lambda>v (k::nat). do { dv \<leftarrow> vget vdom' v; Some (dv = d) }"
  let ?fp = "\<lambda>(v::nat) (k::nat) vcom. vset vcom v c"
  let ?P = "present x"
  have c: "edgeKeys x' a = edgeKeys x a \<and> (\<forall>v\<in>set (edgeKeys x a). ?P v \<and> ?ft v = ?ft' v)"
    if "?P a" for a
  proof (intro conjI ballI)
    from that have a: "a < span x" "hasVertex x a" by (auto simp: present_def)
    show "edgeKeys x' a = edgeKeys x a" using s(5) a by simp
    fix v assume v: "v \<in> set (edgeKeys x a)"
    note w = closedD[OF cl a v]
    show "present x v" using w by (simp add: present_def)
    have "vget vdom v = Some (vdom ! v)" "vget vdom' v = Some (vdom ! v)"
      using w s(2,3) s(6)[OF w(1,2)] by (auto simp: vget_def)
    then show "?ft v = ?ft' v" by simp
  qed
  have "bfs_levels x ?ft ?fp 1 [u] r = bfs_levels x' ?ft' ?fp 1 [u] r" for r
  proof -
    obtain vis1 s1 where r: "r = (vis1, s1)" by (cases r)
    have st: "\<forall>a\<in>set [u]. ?P a" using u by simp
    show ?thesis unfolding r
      by (rule bfs_levels_cong[of ?P, OF c st])
  qed
  then have "bfsVisitedForEachU x' ?ft' ?fp [u] r = bfsVisitedForEachU x ?ft ?fp [u] r" for r
    by (simp add: bfsVisitedForEachU_def)
  then show ?thesis unfolding sh by (simp add: fl_traverse_def)
qed

lemma fl_micro_cong:
  assumes cl: "closed x" and sp: "same_present x vdom x' vdom'"
    and todo: "\<forall>u\<in>set todo. u < span x" and ph: "phase_ok x vdom ph"
  shows "fl_micro x' vdom' todo ph sh = fl_micro x vdom todo ph sh"
proof -
  note s = same_presentD[OF sp]
  obtain vcom cbsy vis where sh: "sh = (vcom, cbsy, vis)" by (cases sh)
  show ?thesis
  proof (cases ph)
    case Idle
    show ?thesis
    proof (cases todo)
      case Nil
      then show ?thesis using Idle by simp
    next
      case (Cons u rest)
      then have "u < span x" using todo by simp
      then have "fl_look x' u sh = fl_look x u sh"
        using s(4) by (simp add: fl_look_def sh)
      then show ?thesis using Idle Cons by simp
    qed
  next
    case (Looked u)
    then have u: "u < span x" "hasVertex x u" using ph by (simp_all add: present_def)
    have "vget vdom' u = vget vdom u"
      using s(2,3) s(6)[OF u] u by (simp add: vget_def)
    then show ?thesis using Looked by (simp add: fl_read_def sh)
  next
    case (Read u d c)
    then show ?thesis by simp
  next
    case (Held u d c)
    then have "present x u" using ph by simp
    from fl_traverse_closed_cong[OF cl sp this] show ?thesis using Held by simp
  qed
qed

lemma bfs_par_step_cong:
  assumes cl: "closed x" and sp: "same_present x vdom x' vdom'"
    and inv: "bfs_pinv x vdom vcom0 cbsy0 vis0 (sh, ws)"
  shows "bfs_par_step x' vdom' t (sh, ws) = bfs_par_step x vdom t (sh, ws)"
proof (cases "t < length ws")
  case False
  then show ?thesis by (simp add: bfs_par_step_def)
next
  case True
  obtain vcom cbsy vis where sh: "sh = (vcom, cbsy, vis)" by (cases sh)
  note d = bfs_pinvD[OF inv[unfolded sh]]
  have todo: "\<forall>u\<in>set (fst (ws ! t)). u < span x" using d(3)[OF True] by blast
  from fl_micro_cong[OF cl sp todo d(4)[OF True]] show ?thesis
    by (simp add: bfs_par_step_def)
qed

lemma bfs_par_run_cong:
  assumes cl: "closed x" and sp: "same_present x vdom x' vdom'"
    and len: "span x \<le> length vis0" "span x \<le> length vcom0"
    and ids: "\<forall>u. present x u \<longrightarrow> vdom ! u < length cbsy0"
  shows "bfs_pinv x vdom vcom0 cbsy0 vis0 (sh, ws) \<Longrightarrow>
    bfs_par_run x' vdom' sched (sh, ws) = bfs_par_run x vdom sched (sh, ws)"
proof (induction sched arbitrary: sh ws)
  case Nil
  then show ?case by simp
next
  case (Cons t sched)
  note s = same_presentD[OF sp]
  from bfs_par_step_inv[OF cl covers_span[OF s(2)] len ids Cons.prems, of t] obtain sh1 ws1 where
    st: "bfs_par_step x vdom t (sh, ws) = Some (sh1, ws1)" and
    i: "bfs_pinv x vdom vcom0 cbsy0 vis0 (sh1, ws1)"
    by blast
  from Cons.IH[OF i] st bfs_par_step_cong[OF cl sp Cons.prems, of t]
  show ?case by simp
qed

lemma bfs_par_cong:
  assumes cl: "closed x" and sp: "same_present x vdom x' vdom'"
    and len: "span x \<le> length vcom" "span x \<le> length cbsy" "span x \<le> length vis"
    and ids: "\<forall>u<span x. hasVertex x u \<longrightarrow> vdom ! u < length cbsy"
    and ubs: "\<forall>ub\<in>set ubs. ub \<le> span x"
  shows "bfs_par ubs sched x' vdom' vcom cbsy vis = bfs_par ubs sched x vdom vcom cbsy vis"
proof -
  note s = same_presentD[OF sp]
  from bfs_init_kept[OF len] obtain vcom0 cbsy0 vis0 where
    i: "bfs_init [0..<span x] (vcom, cbsy, vis) = Some (vcom0, cbsy0, vis0)" and
    l: "length vcom0 = length vcom" "length cbsy0 = length cbsy" "length vis0 = length vis"
    by blast
  let ?ws = "map (\<lambda>ub. (bfs_scan_from ub (span x), Idle)) ubs"
  have len0: "span x \<le> length vis0" "span x \<le> length vcom0" using len l by simp_all
  have ids0: "\<forall>u. present x u \<longrightarrow> vdom ! u < length cbsy0"
    using ids l by (simp add: present_def)
  have inv: "bfs_pinv x vdom vcom0 cbsy0 vis0 ((vcom0, cbsy0, vis0), ?ws)"
  proof (rule bfs_pinvI[OF kept_refl refl])
    fix t assume "t < length ?ws"
    then have t: "t < length ubs" by simp
    then have "ubs ! t \<le> span x" using ubs by simp
    then show "(\<forall>u\<in>set (fst (?ws ! t)). u < span x) \<and> phase_ok x vdom (snd (?ws ! t))"
      using t bfs_scan_from_bound by auto
  qed
  from bfs_par_run_cong[OF cl sp len0 ids0 inv] i s(1) show ?thesis
    by (simp add: bfs_par_def)
qed

subsection \<open>Depth-first\<close>

lemma dfs_kept:
  assumes cl: "closed x"
    and len: "covers x vdom" "span x \<le> length vis0" "span x \<le> length vcom0"
    and st: "\<forall>v\<in>set st. present x v" and k: "kept x vis0 vcom0 (vis, vcom)"
  shows "\<exists>vis' vcom'. dfsVisitedForEachU x (dfs_ft vdom d) (dfs_fp c) st (vis, vcom)
           = Some (vis', vcom') \<and> kept x vis0 vcom0 (vis', vcom')"
proof -
  let ?I = "\<lambda>st r. (\<forall>v\<in>set st. present x v) \<and> kept x vis0 vcom0 r"
  have step: "u < length vis \<and> (vis ! u \<longrightarrow> ?I st (vis, s)) \<and>
       (\<not> vis ! u \<longrightarrow> (\<exists>t. dfs_ft vdom d u = Some t \<and> (\<not> t \<longrightarrow> ?I st (vis, s)) \<and>
          (t \<longrightarrow> (\<exists>s'. dfs_fp c u s = Some s' \<and> ?I (edgeKeys x u @ st) (vis[u := True], s')))))"
    if i: "?I (u # st) (vis, s)" for u st vis s
  proof -
    from i have u: "present x u" and st: "\<forall>v\<in>set st. present x v"
      and k: "kept x vis0 vcom0 (vis, s)" by auto
    note d = keptD[OF k]
    have ul: "u < length vis" "u < length vdom" "u < length s"
      using u len d coversD[OF len(1) u] by (auto simp: present_def)
    have es: "\<forall>v\<in>set (edgeKeys x u). present x v" using closed_present[OF cl u] by blast
    have k': "kept x vis0 vcom0 (vis[u := True], s[u := c])" by (rule kept_visit[OF k u])
    show ?thesis using ul st k k' es by (auto simp: vget_in vset_in)
  qed
  from dfs_rule[where I = ?I and ft = "dfs_ft vdom d" and fp = "dfs_fp c" and x = x
      and st = st and vis = vis and s = vcom, OF step] st k
  show ?thesis by auto
qed

lemma dfs_vertex_kept:
  assumes cl: "closed x"
    and len: "covers x vdom" "span x \<le> length vis0" "span x \<le> length vcom0"
    and u: "u < span x" and k: "kept x vis0 vcom0 (vis, vcom)"
  shows "\<exists>vcom' vis'. dfs_vertex x vdom t T u (vcom, vis) = Some (vcom', vis') \<and>
           kept x vis0 vcom0 (vis', vcom')"
proof (cases "hasVertex x u")
  case False
  then show ?thesis using k by (simp add: dfs_vertex_def)
next
  case True
  then have p: "present x u" using u by (simp add: present_def)
  note d = keptD[OF k]
  have ul: "u < length vis" "u < length vdom" "u < length vcom"
    using u len d coversD[OF len(1) p] by auto
  show ?thesis
  proof (cases "belongsOmp (vdom ! u) t T \<and> \<not> vis ! u")
    case False
    then show ?thesis using True k ul by (auto simp: dfs_vertex_def vget_in)
  next
    case b: True
    have st: "\<forall>v\<in>set [u]. present x v" using p by simp
    from dfs_kept[OF cl len st k, of "vdom ! u" "vcom ! u"] obtain vis' vcom' where
      r: "dfsVisitedForEachU x (dfs_ft vdom (vdom ! u)) (dfs_fp (vcom ! u)) [u] (vis, vcom)
            = Some (vis', vcom')" and
      k': "kept x vis0 vcom0 (vis', vcom')"
      by blast
    have "dfs_vertex x vdom t T u (vcom, vis) = Some (vcom', vis')"
      using True b ul r
      by (simp add: dfs_vertex_def vget_in del: dfsVisitedForEachU.simps)
    then show ?thesis using k' by blast
  qed
qed

lemma dfs_worker_kept:
  assumes cl: "closed x"
    and len: "covers x vdom" "span x \<le> length vis0" "span x \<le> length vcom0"
  shows "\<forall>u\<in>set us. u < span x \<Longrightarrow> kept x vis0 vcom0 (vis, vcom) \<Longrightarrow>
    \<exists>vcom' vis'. dfs_worker x vdom t T us (vcom, vis) = Some (vcom', vis') \<and>
       kept x vis0 vcom0 (vis', vcom')"
proof (induction us arbitrary: vis vcom)
  case Nil
  then show ?case by simp
next
  case (Cons u us)
  have u: "u < span x" and us: "\<forall>u\<in>set us. u < span x" using Cons.prems(1) by auto
  from dfs_vertex_kept[OF cl len u Cons.prems(2), of t T] obtain vcom1 vis1 where
    1: "dfs_vertex x vdom t T u (vcom, vis) = Some (vcom1, vis1)" and
    k1: "kept x vis0 vcom0 (vis1, vcom1)"
    by blast
  from Cons.IH[OF us k1] 1 show ?case by simp
qed

lemma dfs_workers_kept:
  assumes cl: "closed x"
    and len: "covers x vdom" "span x \<le> length vis0" "span x \<le> length vcom0"
  shows "kept x vis0 vcom0 (vis, vcom) \<Longrightarrow>
    \<exists>vcom' vis'. dfs_workers x vdom T ts (vcom, vis) = Some (vcom', vis') \<and>
       kept x vis0 vcom0 (vis', vcom')"
proof (induction ts arbitrary: vis vcom)
  case Nil
  then show ?case by simp
next
  case (Cons t ts)
  have us: "\<forall>u\<in>set [0..<span x]. u < span x" by simp
  from dfs_worker_kept[OF cl len us Cons.prems, of t T] obtain vcom1 vis1 where
    1: "dfs_worker x vdom t T [0..<span x] (vcom, vis) = Some (vcom1, vis1)" and
    k1: "kept x vis0 vcom0 (vis1, vcom1)"
    by blast
  from Cons.IH[OF k1] 1 show ?case by simp
qed

lemma dfs_init_kept:
  assumes len: "span x \<le> length vcom" "span x \<le> length vis"
  shows "\<exists>vcom0 vis0.
     dfs_init [0..<span x] (vcom, vis) = Some (vcom0, vis0) \<and>
     length vcom0 = length vcom \<and> length vis0 = length vis \<and>
     (\<forall>u<span x. vcom0 ! u = u \<and> \<not> vis0 ! u)"
proof -
  have "\<forall>u\<in>set [0..<span x]. u < length vcom \<and> u < length vis"
    using len by simp
  from dfs_init_spec[OF this] obtain vcom0 vis0 where
    i: "dfs_init [0..<span x] (vcom, vis) = Some (vcom0, vis0)" and
    l: "length vcom0 = length vcom" "length vis0 = length vis" and
    v: "\<forall>i. vcom0 ! i = (if i \<in> set [0..<span x] then i else vcom ! i)" and
    s: "\<forall>i<length vis. vis0 ! i = (vis ! i \<and> i \<notin> set [0..<span x])"
    by blast
  have "vcom0 ! u = u \<and> \<not> vis0 ! u" if "u < span x" for u
    using that v s len by simp
  then show ?thesis using i l by blast
qed

lemma dfs_safe:
  assumes cl: "closed x"
    and len: "covers x vdom" "span x \<le> length vcom" "span x \<le> length vis"
  shows "\<exists>vcom' vis'.
     splitDisconnectedCommunitiesDfsOmpW T x vdom vcom vis = Some (vcom', vis') \<and>
     length vcom' = length vcom \<and> length vis' = length vis \<and>
     (\<forall>u<span x. \<not> hasVertex x u \<longrightarrow> vcom' ! u = u \<and> \<not> vis' ! u)"
proof -
  from dfs_init_kept[OF len(2,3)] obtain vcom0 vis0 where
    i: "dfs_init [0..<span x] (vcom, vis) = Some (vcom0, vis0)" and
    l: "length vcom0 = length vcom" "length vis0 = length vis" and
    z: "\<forall>u<span x. vcom0 ! u = u \<and> \<not> vis0 ! u"
    by blast
  have len0: "span x \<le> length vis0" "span x \<le> length vcom0" using len l by simp_all
  from dfs_workers_kept[OF cl len(1) len0 kept_refl, of T "[0..<T]"] obtain vcom' vis' where
    r: "dfs_workers x vdom T [0..<T] (vcom0, vis0) = Some (vcom', vis')" and
    k: "kept x vis0 vcom0 (vis', vcom')"
    by blast
  note d = keptD[OF k]
  have res: "splitDisconnectedCommunitiesDfsOmpW T x vdom vcom vis = Some (vcom', vis')"
    using i r by (simp add: splitDisconnectedCommunitiesDfsOmpW_def)
  have "vcom' ! u = u \<and> \<not> vis' ! u" if "u < span x" "\<not> hasVertex x u" for u
  proof -
    have "\<not> present x u" using that by (simp add: present_def)
    from d(3,4)[OF this] z that(1) show ?thesis by simp
  qed
  then show ?thesis using res d(1,2) l by auto
qed

lemma dfs_traverse_cong:
  "(\<And>u. P u \<Longrightarrow> edgeKeys x' u = edgeKeys x u \<and> ft' u = ft u \<and>
          (\<forall>v\<in>set (edgeKeys x u). P v)) \<Longrightarrow>
   \<forall>u\<in>set st. P u \<Longrightarrow>
   dfsVisitedForEachU x' ft' fp st (vis, s) = dfsVisitedForEachU x ft fp st (vis, s)"
proof (induction x ft fp st "(vis, s)" arbitrary: vis s rule: dfsVisitedForEachU.induct)
  case (1 x ft fp vis s)
  then show ?case by simp
next
  case (2 x ft fp u st vis s)
  note c = "2.prems"(1)
  have u: "P u" and st: "\<forall>u\<in>set st. P u" using "2.prems"(2) by auto
  note cu = c[OF u]
  have st': "\<forall>v\<in>set (edgeKeys x u @ st). P v" using cu st by auto
  show ?case
  proof (cases "vget vis u")
    case None
    then show ?thesis by simp
  next
    case (Some b)
    show ?thesis
    proof (cases b)
      case True
      from "2.hyps"(1)[OF Some True c st] Some True show ?thesis by simp
    next
      case False
      show ?thesis
      proof (cases "ft u")
        case None
        then show ?thesis using Some False cu by simp
      next
        case t: (Some t)
        show ?thesis
        proof (cases t)
          case nt: False
          from "2.hyps"(2)[OF Some False t _ c st] nt Some False t cu show ?thesis by simp
        next
          case tt: True
          show ?thesis
          proof (cases "fp u s")
            case None
            then show ?thesis using Some False t tt cu by simp
          next
            case s': (Some s')
            from "2.hyps"(3)[OF Some False t _ s' c st'] tt Some False t s' cu
            show ?thesis by simp
          qed
        qed
      qed
    qed
  qed
qed

lemma dfs_vertex_cong:
  assumes cl: "closed x" and sp: "same_present x vdom x' vdom'" and u: "u < span x"
  shows "dfs_vertex x' vdom' t T u s = dfs_vertex x vdom t T u s"
proof -
  note e = same_presentD[OF sp]
  obtain vcom vis where s: "s = (vcom, vis)" by (cases s)
  show ?thesis
  proof (cases "hasVertex x u")
    case False
    then show ?thesis using e(4)[OF u] by (simp add: dfs_vertex_def s)
  next
    case True
    then have h': "hasVertex x' u" using e(4)[OF u] by simp
    have v: "vget vdom' u = vget vdom u"
      using e(2,3) e(6)[OF u True] u by (simp add: vget_def)
    have c: "edgeKeys x' a = edgeKeys x a \<and> dfs_ft vdom' d a = dfs_ft vdom d a \<and>
          (\<forall>v\<in>set (edgeKeys x a). present x v)" if "present x a" for a d
    proof -
      from that have a: "a < span x" "hasVertex x a" by (auto simp: present_def)
      have "vget vdom' a = vget vdom a"
        using e(2,3) e(6)[OF a] a by (simp add: vget_def)
      then show ?thesis using e(5)[OF a] closed_present[OF cl that] by simp
    qed
    have st: "\<forall>a\<in>set [u]. present x a" using u True by (simp add: present_def)
    have "dfsVisitedForEachU x' (dfs_ft vdom' d) (dfs_fp c) [u] (vis, vcom)
        = dfsVisitedForEachU x (dfs_ft vdom d) (dfs_fp c) [u] (vis, vcom)" for d c
      by (rule dfs_traverse_cong[of "present x", OF c st])
    then show ?thesis
      using True h' v
      by (simp add: dfs_vertex_def s del: dfsVisitedForEachU.simps cong: if_cong)
  qed
qed

lemma dfs_worker_cong:
  assumes cl: "closed x" and sp: "same_present x vdom x' vdom'"
  shows "\<forall>u\<in>set us. u < span x \<Longrightarrow>
    dfs_worker x' vdom' t T us s = dfs_worker x vdom t T us s"
proof (induction us arbitrary: s)
  case Nil
  then show ?case by simp
next
  case (Cons u us)
  have u: "u < span x" and us: "\<forall>u\<in>set us. u < span x" using Cons.prems by auto
  have ih: "dfs_worker x' vdom' t T us = dfs_worker x vdom t T us"
    by (rule ext) (rule Cons.IH[OF us])
  show ?case by (simp add: dfs_vertex_cong[OF cl sp u] ih)
qed

lemma dfs_workers_cong:
  assumes cl: "closed x" and sp: "same_present x vdom x' vdom'"
  shows "dfs_workers x' vdom' T ts s = dfs_workers x vdom T ts s"
proof (induction ts arbitrary: s)
  case Nil
  then show ?case by simp
next
  case (Cons t ts)
  note e = same_presentD[OF sp]
  have us: "\<forall>u\<in>set [0..<span x]. u < span x" by simp
  have ih: "dfs_workers x' vdom' T ts = dfs_workers x vdom T ts"
    by (rule ext) (rule Cons.IH)
  show ?case by (simp add: e(1) dfs_worker_cong[OF cl sp us] ih)
qed

lemma dfs_cong:
  assumes cl: "closed x" and sp: "same_present x vdom x' vdom'"
  shows "splitDisconnectedCommunitiesDfsOmpW T x' vdom' vcom vis
       = splitDisconnectedCommunitiesDfsOmpW T x vdom vcom vis"
  using same_presentD(1)[OF sp] dfs_workers_cong[OF cl sp]
  by (simp add: splitDisconnectedCommunitiesDfsOmpW_def)

subsection \<open>Label propagation, any interleaving\<close>

lemma lpa_pinvI:
  "length ps = span x \<Longrightarrow> length vcom = length vcom0 \<Longrightarrow> length vaff = length vaff0 \<Longrightarrow>
   (\<And>w. \<not> present x w \<Longrightarrow> vcom ! w = vcom0 ! w) \<Longrightarrow>
   (\<And>u. u < span x \<Longrightarrow> lpa_phase_ok PRUNE x u (ps ! u)) \<Longrightarrow>
   lpa_pinv PRUNE x vcom0 vaff0 (ps, ndel, vcom, vaff)"
  by (simp add: lpa_pinv_def)

lemma lpa_pinvD:
  assumes "lpa_pinv PRUNE x vcom0 vaff0 (ps, ndel, vcom, vaff)"
  shows "length ps = span x" "length vcom = length vcom0" "length vaff = length vaff0"
    "\<And>w. \<not> present x w \<Longrightarrow> vcom ! w = vcom0 ! w"
    "\<And>u. u < span x \<Longrightarrow> lpa_phase_ok PRUNE x u (ps ! u)"
  using assms by (simp_all add: lpa_pinv_def)

lemma lpa_micro_inv:
  assumes cl: "closed x"
    and len: "covers x vdom" "span x \<le> length vcom" "PRUNE \<longrightarrow> span x \<le> length vaff"
    and u: "u < span x" and ok: "lpa_phase_ok PRUNE x u p"
  shows "\<exists>p' n' vcom' vaff'.
     lpa_micro PRUNE x vdom u p (n, vcom, vaff) = Some (p', n', vcom', vaff') \<and>
     lpa_phase_ok PRUNE x u p' \<and> length vcom' = length vcom \<and> length vaff' = length vaff \<and>
     (\<forall>w. \<not> present x w \<longrightarrow> vcom' ! w = vcom ! w)"
proof (cases p)
  case Waiting
  show ?thesis
  proof (cases "hasVertex x u")
    case False
    then show ?thesis using Waiting by simp
  next
    case True
    then have p: "present x u" using u by (simp add: present_def)
    have es: "\<forall>v\<in>set (edgeKeys x u). present x v" using closed_present[OF cl p] by blast
    have ul: "u < length vdom" "u < length vcom" "PRUNE \<longrightarrow> u < length vaff"
      using u len coversD[OF len(1) p] by auto
    show ?thesis using Waiting True p es ul by (auto simp: vget_in)
  qed
next
  case (Scanning d c vs)
  then have p: "present x u" and vs: "\<forall>v\<in>set vs. present x v" using ok by auto
  have ul: "u < length vcom" using u len by simp
  show ?thesis
  proof (cases vs)
    case Nil
    have "vcom[u := c] ! w = vcom ! w" if "\<not> present x w" for w
    proof -
      have "w \<noteq> u" using that p by auto
      then show ?thesis by simp
    qed
    then show ?thesis using Scanning Nil p ul by (auto simp: vget_in vset_in)
  next
    case (Cons v vs')
    then have v: "present x v" and vs': "\<forall>v\<in>set vs'. present x v" using vs by auto
    then have vl: "v < length vdom" "v < length vcom"
      using len coversD[OF len(1)] by (auto simp: present_def)
    show ?thesis using Scanning Cons p vs' vl by (auto simp: vget_in)
  qed
next
  case (Clearing d)
  then have P: "PRUNE" and p: "present x u" using ok by auto
  have es: "\<forall>v\<in>set (edgeKeys x u). present x v" using closed_present[OF cl p] by blast
  have ul: "u < length vaff" using u len P by simp
  show ?thesis using Clearing P p es ul by (simp add: vset_in)
next
  case (Marking d vs)
  then have P: "PRUNE" and p: "present x u" and vs: "\<forall>v\<in>set vs. present x v"
    using ok by auto
  show ?thesis
  proof (cases vs)
    case Nil
    then show ?thesis using Marking by simp
  next
    case (Cons v vs')
    then have v: "present x v" and vs': "\<forall>v\<in>set vs'. present x v" using vs by auto
    then have vl: "v < length vdom" "v < length vaff"
      using len P coversD[OF len(1)] by (auto simp: present_def)
    show ?thesis using Marking Cons P p v vs' vl by (auto simp: vget_in)
  qed
next
  case (Setting d v vs)
  then have P: "PRUNE" and p: "present x u" and v: "present x v"
    and vs: "\<forall>v\<in>set vs. present x v"
    using ok by auto
  have vl: "v < length vaff" using v len P by (auto simp: present_def)
  show ?thesis using Setting P p vs vl by (simp add: vset_in)
next
  case Finished
  then show ?thesis by simp
qed

lemma lpa_par_step_inv:
  assumes cl: "closed x"
    and len: "covers x vdom" "span x \<le> length vcom0"
      "PRUNE \<longrightarrow> span x \<le> length vaff0"
    and inv: "lpa_pinv PRUNE x vcom0 vaff0 s"
  shows "\<exists>s'. lpa_par_step PRUNE x vdom u s = Some s' \<and> lpa_pinv PRUNE x vcom0 vaff0 s'"
proof -
  obtain ps n vcom vaff where s: "s = (ps, n, vcom, vaff)" by (cases s)
  note d = lpa_pinvD[OF inv[unfolded s]]
  show ?thesis
  proof (cases "u < length ps")
    case False
    then show ?thesis using inv by (simp add: lpa_par_step_def s)
  next
    case True
    then have u: "u < span x" using d(1) by simp
    have len': "span x \<le> length vcom" "PRUNE \<longrightarrow> span x \<le> length vaff"
      using len d by simp_all
    from lpa_micro_inv[OF cl len(1) len' u d(5)[OF u], of n] obtain p' n' vcom' vaff' where
      m: "lpa_micro PRUNE x vdom u (ps ! u) (n, vcom, vaff) = Some (p', n', vcom', vaff')" and
      ok': "lpa_phase_ok PRUNE x u p'" and
      l': "length vcom' = length vcom" "length vaff' = length vaff" and
      f': "\<forall>w. \<not> present x w \<longrightarrow> vcom' ! w = vcom ! w"
      by blast
    have st: "lpa_par_step PRUNE x vdom u s = Some (ps[u := p'], n', vcom', vaff')"
      using True m by (simp add: lpa_par_step_def s)
    have "lpa_pinv PRUNE x vcom0 vaff0 (ps[u := p'], n', vcom', vaff')"
    proof (rule lpa_pinvI)
      show "length (ps[u := p']) = span x" using d(1) by simp
      show "length vcom' = length vcom0" "length vaff' = length vaff0" using l' d by simp_all
      show "vcom' ! w = vcom0 ! w" if "\<not> present x w" for w using f' d(4) that by simp
      show "lpa_phase_ok PRUNE x w (ps[u := p'] ! w)" if "w < span x" for w
        using that ok' d(5)[OF that] d(1) by (cases "w = u") simp_all
    qed
    then show ?thesis using st by simp
  qed
qed

lemma lpa_par_run_inv:
  assumes cl: "closed x"
    and len: "covers x vdom" "span x \<le> length vcom0"
      "PRUNE \<longrightarrow> span x \<le> length vaff0"
  shows "lpa_pinv PRUNE x vcom0 vaff0 s \<Longrightarrow>
    \<exists>s'. lpa_par_run PRUNE x vdom sched s = Some s' \<and> lpa_pinv PRUNE x vcom0 vaff0 s'"
proof (induction sched arbitrary: s)
  case Nil
  then show ?case by simp
next
  case (Cons u sched)
  from lpa_par_step_inv[OF cl len Cons.prems, of u] obtain s1 where
    1: "lpa_par_step PRUNE x vdom u s = Some s1" and i: "lpa_pinv PRUNE x vcom0 vaff0 s1"
    by blast
  from Cons.IH[OF i] 1 show ?case by simp
qed

lemma lpa_pinv_start:
  "lpa_pinv PRUNE x vcom vaff (replicate (span x) Waiting, 0, vcom, vaff)"
  by (simp add: lpa_pinv_def)

lemma lpa_par_round_kept:
  assumes cl: "closed x"
    and len: "covers x vdom" "span x \<le> length vcom" "PRUNE \<longrightarrow> span x \<le> length vaff"
  shows "\<exists>n vcom' vaff'.
     lpa_par_round PRUNE x vdom sched (vcom, vaff) = Some (n, vcom', vaff') \<and>
     length vcom' = length vcom \<and> length vaff' = length vaff \<and>
     (\<forall>w. \<not> present x w \<longrightarrow> vcom' ! w = vcom ! w)"
proof -
  from lpa_par_run_inv[OF cl len lpa_pinv_start, of "sched @ lpa_par_finish x"]
  obtain s' where
    r: "lpa_par_run PRUNE x vdom (sched @ lpa_par_finish x)
          (replicate (span x) Waiting, 0, vcom, vaff) = Some s'" and
    i: "lpa_pinv PRUNE x vcom vaff s'"
    by blast
  obtain ps n vcom' vaff' where s': "s' = (ps, n, vcom', vaff')" by (cases s')
  note d = lpa_pinvD[OF i[unfolded s']]
  have "lpa_par_round PRUNE x vdom sched (vcom, vaff) = Some (n, vcom', vaff')"
    using r s' by (simp add: lpa_par_round_def)
  then show ?thesis using d by blast
qed












subsection \<open>Label propagation writes no label of an absent id\<close>







section \<open>Where a run must leave the buffers\<close>




lemma dfs_worker_trap:
  assumes h: "hasVertex x u" and short: "length vdom \<le> u"
  shows "u \<in> set us \<Longrightarrow> dfs_worker x vdom t T us s = None"
proof (induction us arbitrary: s)
  case Nil
  then show ?case by simp
next
  case (Cons w us)
  obtain vcom vis where s: "s = (vcom, vis)" by (cases s)
  show ?case
  proof (cases "w = u")
    case True
    have "dfs_vertex x vdom t T u (vcom, vis) = None"
      using h short by (simp add: dfs_vertex_def vget_def)
    then show ?thesis using True by (simp add: s)
  next
    case False
    then have "u \<in> set us" using Cons.prems by simp
    from Cons.IH[OF this] show ?thesis
      by (cases "dfs_vertex x vdom t T w s") simp_all
  qed
qed

lemma dfs_trap:
  assumes u: "u < span x" "hasVertex x u" and short: "length vdom \<le> u" and T: "0 < T"
  shows "splitDisconnectedCommunitiesDfsOmpW T x vdom vcom vis = None"
proof -
  have "u \<in> set [0..<span x]" using u(1) by simp
  from dfs_worker_trap[OF u(2) short this]
  have w: "dfs_worker x vdom 0 T [0..<span x] s = None" for s .
  have "[0..<T] = 0 # [1..<T]" using T by (simp add: upt_rec)
  then have "dfs_workers x vdom T [0..<T] s = None" for s
    by (simp add: w)
  then show ?thesis
    by (cases "dfs_init [0..<span x] (vcom, vis)")
       (simp_all add: splitDisconnectedCommunitiesDfsOmpW_def)
qed
















section \<open>One thread is the empty schedule\<close>

text \<open>
  The steps of one iteration, taken in a row, are \<open>lpa_vertex\<close>; so the round that
  the empty schedule gives is \<open>lpa_round\<close>, and \<open>lpa_par\<close> with no schedule is
  \<open>splitDisconnectedCommunitiesLpaOmpW\<close>.
\<close>

lemma lpa_par_run_append:
  "lpa_par_run PRUNE x vdom (a @ b) s
     = (case lpa_par_run PRUNE x vdom a s of None \<Rightarrow> None
        | Some s' \<Rightarrow> lpa_par_run PRUNE x vdom b s')"
proof (induction a arbitrary: s)
  case Nil
  then show ?case by simp
next
  case (Cons u a)
  then show ?case by (cases "lpa_par_step PRUNE x vdom u s") simp_all
qed

lemma lpa_par_step_at:
  "u < length ps \<Longrightarrow> lpa_par_step PRUNE x vdom u (ps, s)
     = (case lpa_micro PRUNE x vdom u (ps ! u) s of None \<Rightarrow> None
        | Some (p, s') \<Rightarrow> Some (ps[u := p], s'))"
  by (simp add: lpa_par_step_def split: option.splits)

lemma lpa_iter_finished:
  "u < length ps \<Longrightarrow> ps ! u = Finished \<Longrightarrow>
   lpa_par_run PRUNE x vdom (replicate k u) (ps, s) = Some (ps, s)"
proof (induction k)
  case 0
  then show ?case by simp
next
  case (Suc k)
  have "ps[u := Finished] = ps" using list_update_id[of ps u] Suc.prems(2) by simp
  then show ?case using Suc by (simp add: lpa_par_step_at)
qed

lemma lpa_iter_more:
  assumes "lpa_par_run PRUNE x vdom (replicate k u) s = Some (ps', s')"
    "u < length ps'" "ps' ! u = Finished"
  shows "lpa_par_run PRUNE x vdom (replicate (k + j) u) s = Some (ps', s')"
  using assms lpa_iter_finished[of u ps' PRUNE x vdom j s']
  by (simp add: replicate_add lpa_par_run_append)

lemma lpa_iter_none:
  assumes "lpa_par_run PRUNE x vdom (replicate k u) s = None"
  shows "lpa_par_run PRUNE x vdom (replicate (k + j) u) s = None"
  using assms by (simp add: replicate_add lpa_par_run_append)

lemma lpa_iter_scan:
  "u < length ps \<Longrightarrow> ps ! u = Scanning d c vs \<Longrightarrow>
   lpa_par_run PRUNE x vdom (replicate (length vs) u) (ps, n, vcom, vaff)
     = (case lpa_scan vdom vcom d vs c of None \<Rightarrow> None
        | Some c' \<Rightarrow> Some (ps[u := Scanning d c' []], n, vcom, vaff))"
proof (induction vs arbitrary: c ps)
  case Nil
  have "ps[u := Scanning d c []] = ps" using list_update_id[of ps u] Nil(2) by simp
  then show ?case by simp
next
  case (Cons v vs)
  show ?case
  proof (cases "vget vdom v")
    case None
    then show ?thesis using Cons.prems by (simp add: lpa_par_step_at)
  next
    case (Some dv)
    show ?thesis
    proof (cases "dv = d")
      case False
      have "lpa_par_step PRUNE x vdom u (ps, n, vcom, vaff)
          = Some (ps[u := Scanning d c vs], n, vcom, vaff)"
        using Cons.prems Some False by (simp add: lpa_par_step_at)
      moreover have "lpa_scan vdom vcom d (v # vs) c = lpa_scan vdom vcom d vs c"
        using Some False by simp
      ultimately show ?thesis
        using Cons.IH[of "ps[u := Scanning d c vs]" c] Cons.prems(1)
          by (simp cong: option.case_cong)
    next
      case True
      show ?thesis
      proof (cases "vget vcom v")
        case None
        then show ?thesis using Cons.prems Some True by (simp add: lpa_par_step_at)
      next
        case l: (Some l)
        have "lpa_par_step PRUNE x vdom u (ps, n, vcom, vaff)
            = Some (ps[u := Scanning d (min c l) vs], n, vcom, vaff)"
          using Cons.prems Some True l by (simp add: lpa_par_step_at)
        moreover have "lpa_scan vdom vcom d (v # vs) c = lpa_scan vdom vcom d vs (min c l)"
          using Some True l by simp
        ultimately show ?thesis
          using Cons.IH[of "ps[u := Scanning d (min c l) vs]" "min c l"] Cons.prems(1)
          by (simp cong: option.case_cong)
      qed
    qed
  qed
qed

lemma lpa_iter_mark:
  "u < length ps \<Longrightarrow> ps ! u = Marking d vs \<Longrightarrow>
   lpa_par_run PRUNE x vdom (replicate (2 * length vs + 1) u) (ps, n, vcom, vaff)
     = (case lpa_mark vdom d vs vaff of None \<Rightarrow> None
        | Some vaff' \<Rightarrow> Some (ps[u := Finished], n, vcom, vaff'))"
proof (induction vs arbitrary: vaff ps)
  case Nil
  then show ?case by (simp add: lpa_par_step_at)
next
  case (Cons v vs)
  have k: "2 * length (v # vs) + 1 = Suc (Suc (2 * length vs + 1))" by simp
  have k1: "Suc (2 * length vs + 1) = (2 * length vs + 1) + 1" by simp
  have rest: "lpa_par_run PRUNE x vdom (replicate (Suc (2 * length vs + 1)) u)
        (ps[u := Marking d vs], n, vcom, vaff)
      = (case lpa_mark vdom d vs vaff of None \<Rightarrow> None
         | Some vaff' \<Rightarrow> Some (ps[u := Finished], n, vcom, vaff'))" for vaff
  proof (cases "lpa_mark vdom d vs vaff")
    case None
    then have "lpa_par_run PRUNE x vdom (replicate (2 * length vs + 1) u)
        (ps[u := Marking d vs], n, vcom, vaff) = None"
      using Cons.IH[of "ps[u := Marking d vs]" vaff] Cons.prems(1)
      by (simp cong: option.case_cong)
    from lpa_iter_none[OF this, of 1] None show ?thesis unfolding k1 by simp
  next
    case (Some vaff')
    then have "lpa_par_run PRUNE x vdom (replicate (2 * length vs + 1) u)
        (ps[u := Marking d vs], n, vcom, vaff) = Some (ps[u := Finished], n, vcom, vaff')"
      using Cons.IH[of "ps[u := Marking d vs]" vaff] Cons.prems(1)
      by (simp cong: option.case_cong)
    from lpa_iter_more[OF this, of 1] Some Cons.prems(1) show ?thesis unfolding k1 by simp
  qed
  show ?case
  proof (cases "vget vdom v")
    case None
    then show ?thesis using Cons.prems unfolding k by (simp add: lpa_par_step_at)
  next
    case (Some dv)
    show ?thesis
    proof (cases "dv = d")
      case False
      have "lpa_par_step PRUNE x vdom u (ps, n, vcom, vaff)
          = Some (ps[u := Marking d vs], n, vcom, vaff)"
        using Cons.prems Some False by (simp add: lpa_par_step_at)
      moreover have "lpa_mark vdom d (v # vs) vaff = lpa_mark vdom d vs vaff"
        using Some False by simp
      ultimately show ?thesis unfolding k using rest[of vaff] by simp
    next
      case True
      show ?thesis
      proof (cases "vget vaff v")
        case None
        then show ?thesis using Cons.prems Some True unfolding k by (simp add: lpa_par_step_at)
      next
        case a: (Some a)
        show ?thesis
        proof (cases a)
          case True
          have "lpa_par_step PRUNE x vdom u (ps, n, vcom, vaff)
              = Some (ps[u := Marking d vs], n, vcom, vaff)"
            using Cons.prems Some \<open>dv = d\<close> a True by (simp add: lpa_par_step_at)
          moreover have "lpa_mark vdom d (v # vs) vaff = lpa_mark vdom d vs vaff"
            using Some \<open>dv = d\<close> a True by simp
          ultimately show ?thesis unfolding k using rest[of vaff] by simp
        next
          case False
          have vl: "v < length vaff" using a by (simp add: vget_Some)
          have 1: "lpa_par_step PRUNE x vdom u (ps, n, vcom, vaff)
              = Some (ps[u := Setting d v vs], n, vcom, vaff)"
            using Cons.prems Some \<open>dv = d\<close> a False by (simp add: lpa_par_step_at)
          have 2: "lpa_par_step PRUNE x vdom u (ps[u := Setting d v vs], n, vcom, vaff)
              = Some (ps[u := Marking d vs], n, vcom, vaff[v := True])"
            using Cons.prems(1) vl by (simp add: lpa_par_step_at vset_in)
          have 3: "lpa_mark vdom d (v # vs) vaff = lpa_mark vdom d vs (vaff[v := True])"
            using Some \<open>dv = d\<close> a False vl by (simp add: vset_in)
          have "lpa_par_run PRUNE x vdom (replicate (2 * length vs + 1) u)
                  (ps[u := Marking d vs], n, vcom, vaff[v := True])
              = (case lpa_mark vdom d vs (vaff[v := True]) of None \<Rightarrow> None
                 | Some vaff' \<Rightarrow> Some (ps[u := Finished], n, vcom, vaff'))"
            using Cons.IH[of "ps[u := Marking d vs]" "vaff[v := True]"] Cons.prems(1)
            by (simp cong: option.case_cong)
          then show ?thesis unfolding k using 1 2 3 by simp
        qed
      qed
    qed
  qed
qed

lemma lpa_iter_split:
  "lpa_par_run PRUNE x vdom (replicate (a + b) u) s
     = (case lpa_par_run PRUNE x vdom (replicate a u) s of None \<Rightarrow> None
        | Some s' \<Rightarrow> lpa_par_run PRUNE x vdom (replicate b u) s')"
  by (simp add: replicate_add lpa_par_run_append)

lemma lpa_iter_Suc:
  "lpa_par_run PRUNE x vdom (replicate (Suc k) u) s
     = (case lpa_par_step PRUNE x vdom u s of None \<Rightarrow> None
        | Some s' \<Rightarrow> lpa_par_run PRUNE x vdom (replicate k u) s')"
  by (cases "lpa_par_step PRUNE x vdom u s") simp_all

lemma lpa_iter_vertex:
  assumes u: "u < length ps" and w: "ps ! u = Waiting"
  shows "lpa_par_run PRUNE x vdom
           (replicate (if hasVertex x u then 4 + 3 * length (edgeKeys x u) else 1) u) (ps, s)
     = (case lpa_vertex PRUNE x vdom u s of None \<Rightarrow> None
        | Some s' \<Rightarrow> Some (ps[u := Finished], s'))"
proof -
  obtain n vcom vaff where s: "s = (n, vcom, vaff)" by (cases s)
  let ?run = "\<lambda>k st. lpa_par_run PRUNE x vdom (replicate k u) st"
  have fin: "?run k (ps[u := Finished], st) = Some (ps[u := Finished], st)" for k st
    by (rule lpa_iter_finished) (use u in simp_all)
  show ?thesis
  proof (cases "hasVertex x u")
    case False
    then show ?thesis using u w by (simp add: s lpa_par_step_at lpa_vertex_def)
  next
    case h: True
    define deg where "deg = length (edgeKeys x u)"
    have k: "4 + 3 * length (edgeKeys x u) = Suc (deg + Suc (Suc (2 * deg + 1)))"
      by (simp add: deg_def)
    let ?rest = "deg + Suc (Suc (2 * deg + 1))"
    have K: "(if hasVertex x u then 4 + 3 * length (edgeKeys x u) else 1) = Suc ?rest"
      using h k by simp
    show ?thesis
    proof (cases "PRUNE \<and> vget vaff u \<noteq> Some True")
      case True
      then have P: PRUNE by simp
      show ?thesis
      proof (cases "vget vaff u")
        case None
        then show ?thesis using h P u w
          by (simp add: s k lpa_iter_Suc lpa_par_step_at lpa_vertex_def del: replicate_Suc)
      next
        case (Some a)
        then have "\<not> a" using True by auto
        then show ?thesis using h P u w Some fin
          by (simp add: s k lpa_iter_Suc lpa_par_step_at lpa_vertex_def del: replicate_Suc)
      qed
    next
      case False
      then have sk: "(if PRUNE then do { a \<leftarrow> vget vaff u; Some (\<not> a) } else Some False)
          = Some False"
        by auto
      show ?thesis
      proof (cases "vget vdom u")
        case None
        then show ?thesis using h u w sk
          by (simp add: s k lpa_iter_Suc lpa_par_step_at lpa_vertex_def del: replicate_Suc)
      next
        case d: (Some d)
        show ?thesis
        proof (cases "vget vcom u")
          case None
          then show ?thesis using h u w sk d
            by (simp add: s k lpa_iter_Suc lpa_par_step_at lpa_vertex_def del: replicate_Suc)
        next
          case c0: (Some c0)
          let ?ps1 = "ps[u := Scanning d c0 (edgeKeys x u)]"
          have 1: "lpa_par_step PRUNE x vdom u (ps, s) = Some (?ps1, s)"
            using h u w sk d c0 by (simp add: s lpa_par_step_at)
          have v: "lpa_vertex PRUNE x vdom u s
              = (case lpa_scan vdom vcom d (edgeKeys x u) c0 of None \<Rightarrow> None
                 | Some c \<Rightarrow>
                     if c = c0 then Some (n, vcom, vaff)
                     else do {
                       vcom' \<leftarrow> vset vcom u c;
                       if \<not> PRUNE then Some (n + 1, vcom', vaff)
                       else do {
                         vaff' \<leftarrow> vset vaff u False;
                         vaff'' \<leftarrow> lpa_mark vdom d (edgeKeys x u) vaff';
                         Some (n + 1, vcom', vaff'')
                       }
                     })"
            using h sk d c0 by (simp add: s lpa_vertex_def split: option.splits)
          have sc: "?run deg (?ps1, s)
              = (case lpa_scan vdom vcom d (edgeKeys x u) c0 of None \<Rightarrow> None
                 | Some c \<Rightarrow> Some (ps[u := Scanning d c []], s))"
            using lpa_iter_scan[of u ?ps1 d c0 "edgeKeys x u" PRUNE x vdom n vcom vaff] u
            by (simp add: s deg_def cong: option.case_cong)
          show ?thesis
          proof (cases "lpa_scan vdom vcom d (edgeKeys x u) c0")
            case None
            have A: "?run ?rest (?ps1, s) = None"
              using lpa_iter_none[of PRUNE x vdom deg u "(?ps1, s)" "Suc (Suc (2 * deg + 1))"]
                sc None by simp
            have B: "?run (Suc ?rest) (ps, s) = ?run ?rest (?ps1, s)"
              by (subst lpa_iter_Suc) (simp add: 1 del: replicate_Suc)
            have L: "?run (Suc ?rest) (ps, s) = None" using B A by (rule trans)
            have R: "lpa_vertex PRUNE x vdom u s = None" using v None by simp
            show ?thesis unfolding K L R by simp
          next
            case c: (Some c)
            let ?ps2 = "ps[u := Scanning d c []]"
            have 2: "?run deg (?ps1, s) = Some (?ps2, s)" using sc c by simp
            have ul: "u < length vcom" "vcom ! u = c0" using c0 by (simp_all add: vget_Some)
            have tail: "?run (Suc (Suc (2 * deg + 1))) (?ps2, s)
                = (if c = c0 then Some (ps[u := Finished], n, vcom, vaff)
                   else do {
                     vcom' \<leftarrow> vset vcom u c;
                     if \<not> PRUNE then Some (ps[u := Finished], n + 1, vcom', vaff)
                     else do {
                       vaff' \<leftarrow> vset vaff u False;
                       vaff'' \<leftarrow> lpa_mark vdom d (edgeKeys x u) vaff';
                       Some (ps[u := Finished], n + 1, vcom', vaff'')
                     }
                   })"
            proof (cases "c = c0")
              case True
              have "lpa_par_step PRUNE x vdom u (?ps2, s) = Some (ps[u := Finished], s)"
                using u ul True by (simp add: s lpa_par_step_at vget_in)
              then show ?thesis using True fin
                by (subst lpa_iter_Suc) (simp add: s del: replicate_Suc)
            next
              case nc: False
              show ?thesis
              proof (cases PRUNE)
                case False
                have "lpa_par_step PRUNE x vdom u (?ps2, s)
                    = Some (ps[u := Finished], n + 1, vcom[u := c], vaff)"
                  using u ul nc False by (simp add: s lpa_par_step_at vget_in vset_in)
                then show ?thesis using nc False fin ul
                  by (subst lpa_iter_Suc) (simp add: vset_in del: replicate_Suc)
              next
                case P: True
                have 3: "lpa_par_step PRUNE x vdom u (?ps2, s)
                    = Some (ps[u := Clearing d], Suc n, vcom[u := c], vaff)"
                  using u ul nc P by (simp add: s lpa_par_step_at vget_in vset_in)
                have a: "?run (Suc (Suc (2 * deg + 1))) (?ps2, s)
                    = ?run (Suc (2 * deg + 1)) (ps[u := Clearing d], Suc n, vcom[u := c], vaff)"
                  by (subst lpa_iter_Suc) (simp add: 3 del: replicate_Suc)
                show ?thesis
                proof (cases "u < length vaff")
                  case False
                  have "lpa_par_step PRUNE x vdom u (ps[u := Clearing d], Suc n, vcom[u := c], vaff)
                      = None"
                    using u False by (simp add: lpa_par_step_at vset_def)
                  then have "?run (Suc (2 * deg + 1))
                      (ps[u := Clearing d], Suc n, vcom[u := c], vaff) = None"
                    by (subst lpa_iter_Suc) (simp del: replicate_Suc)
                  then show ?thesis unfolding a using nc P ul False
                    by (simp add: vset_def)
                next
                  case al: True
                  let ?ps4 = "ps[u := Marking d (edgeKeys x u)]"
                  have 4: "lpa_par_step PRUNE x vdom u
                        (ps[u := Clearing d], Suc n, vcom[u := c], vaff)
                      = Some (?ps4, Suc n, vcom[u := c], vaff[u := False])"
                    using u al by (simp add: lpa_par_step_at vset_in)
                  have b: "?run (Suc (2 * deg + 1))
                        (ps[u := Clearing d], Suc n, vcom[u := c], vaff)
                      = ?run (2 * deg + 1) (?ps4, Suc n, vcom[u := c], vaff[u := False])"
                    by (subst lpa_iter_Suc) (simp add: 4 del: replicate_Suc)
                  have 5: "?run (2 * deg + 1) (?ps4, Suc n, vcom[u := c], vaff[u := False])
                      = (case lpa_mark vdom d (edgeKeys x u) (vaff[u := False]) of None \<Rightarrow> None
                         | Some vaff' \<Rightarrow> Some (ps[u := Finished], Suc n, vcom[u := c], vaff'))"
                    using lpa_iter_mark[of u ?ps4 d "edgeKeys x u" PRUNE x vdom "Suc n"
                        "vcom[u := c]" "vaff[u := False]"] u
                    by (simp add: deg_def cong: option.case_cong)
                  show ?thesis unfolding a b 5 using nc P ul al
                    by (simp add: vset_in split: option.splits)
                qed
              qed
            qed
            have A: "?run ?rest (?ps1, s) = ?run (Suc (Suc (2 * deg + 1))) (?ps2, s)"
              using lpa_iter_split[of PRUNE x vdom deg "Suc (Suc (2 * deg + 1))" u "(?ps1, s)"] 2
              by simp
            have B: "?run (Suc ?rest) (ps, s) = ?run ?rest (?ps1, s)"
              by (subst lpa_iter_Suc) (simp add: 1 del: replicate_Suc)
            have L: "?run (Suc ?rest) (ps, s) = ?run (Suc (Suc (2 * deg + 1))) (?ps2, s)"
              using B A by (rule trans)
            show ?thesis unfolding K L tail v
              by (cases "c = c0"; cases PRUNE; cases "vset vcom u c"; cases "vset vaff u False")
                 (auto simp add: c bind_eq_Some_conv bind_eq_None_conv split: option.splits)
          qed
        qed
      qed
    qed
  qed
qed

lemma lpa_finish_round:
  "\<forall>u\<in>set us. u < length ps \<and> ps ! u = Waiting \<Longrightarrow> distinct us \<Longrightarrow>
   lpa_par_run PRUNE x vdom
      (concat (map (\<lambda>u. replicate (if hasVertex x u then 4 + 3 * length (edgeKeys x u) else 1) u)
         us)) (ps, s)
     = (case lpa_round PRUNE x vdom us s of None \<Rightarrow> None
        | Some s' \<Rightarrow> Some (fold (\<lambda>u ps. ps[u := Finished]) us ps, s'))"
proof (induction us arbitrary: ps s)
  case Nil
  then show ?case by simp
next
  case (Cons u us)
  have u: "u < length ps" "ps ! u = Waiting" using Cons.prems(1) by auto
  note v = lpa_iter_vertex[OF u, of PRUNE x vdom s]
  show ?case
  proof (cases "lpa_vertex PRUNE x vdom u s")
    case None
    then show ?thesis using v by (simp add: lpa_par_run_append)
  next
    case (Some s1)
    have r: "\<forall>w\<in>set us. w < length (ps[u := Finished]) \<and> ps[u := Finished] ! w = Waiting"
    proof
      fix w assume w: "w \<in> set us"
      then have "w \<noteq> u" using Cons.prems(2) by auto
      then show "w < length (ps[u := Finished]) \<and> ps[u := Finished] ! w = Waiting"
        using Cons.prems(1) w by simp
    qed
    have d: "distinct us" using Cons.prems(2) by simp
    from Cons.IH[OF r d, of s1] Some v show ?thesis
      by (simp add: lpa_par_run_append cong: option.case_cong)
  qed
qed

lemma lpa_par_round_one_thread:
  "lpa_par_round PRUNE x vdom [] (vcom, vaff)
     = lpa_round PRUNE x vdom [0..<span x] (0, vcom, vaff)"
proof -
  have w: "\<forall>u\<in>set [0..<span x]. u < length (replicate (span x) Waiting) \<and>
        replicate (span x) Waiting ! u = Waiting"
    by simp
  from lpa_finish_round[OF w, of PRUNE x vdom "(0, vcom, vaff)"]
  show ?thesis
    by (simp add: lpa_par_round_def lpa_par_finish_def split: option.splits)
qed

lemma lpa_par_loop_one_thread:
  "lpa_par_loop PRUNE x vdom [] (vcom, vaff) = lpa_loop PRUNE x vdom (vcom, vaff)"
proof (induction PRUNE x vdom "(vcom, vaff)" arbitrary: vcom vaff rule: lpa_loop.induct)
  case (1 PRUNE x vdom vcom vaff)
  have L: "lpa_par_loop PRUNE x vdom [] (vcom, vaff)
      = (case lpa_round PRUNE x vdom [0..<span x] (0, vcom, vaff) of None \<Rightarrow> None
         | Some (ndel, vcom', vaff') \<Rightarrow>
             if ndel = 0 then Some (vcom', vaff')
             else lpa_par_loop PRUNE x vdom [] (vcom', vaff'))"
    by (subst lpa_par_loop.simps)
       (simp add: lpa_par_round_one_thread del: lpa_par_loop.simps
          cong: option.case_cong if_cong)
  have R: "lpa_loop PRUNE x vdom (vcom, vaff)
      = (case lpa_round PRUNE x vdom [0..<span x] (0, vcom, vaff) of None \<Rightarrow> None
         | Some (ndel, vcom', vaff') \<Rightarrow>
             if ndel = 0 then Some (vcom', vaff')
             else lpa_loop PRUNE x vdom (vcom', vaff'))"
    by (subst lpa_loop.simps) (simp del: lpa_loop.simps)
  show ?case
  proof (cases "lpa_round PRUNE x vdom [0..<span x] (0, vcom, vaff)")
    case None
    then show ?thesis unfolding L R by simp
  next
    case (Some r)
    obtain ndel vcom' vaff' where r: "r = (ndel, vcom', vaff')" by (cases r)
    show ?thesis
    proof (cases "ndel = 0")
      case True
      then show ?thesis unfolding L R using Some r by simp
    next
      case False
      from "1.hyps"[OF Some[unfolded r] refl refl False] show ?thesis
        unfolding L R using Some r False by simp
    qed
  qed
qed

lemma lpa_par_one_thread:
  "lpa_par PRUNE [] x vdom vcom vaff = splitDisconnectedCommunitiesLpaOmpW PRUNE x vdom vcom vaff"
proof (cases "lpa_init PRUNE [0..<span x] (vcom, vaff)")
  case None
  then show ?thesis by (simp add: lpa_par_def splitDisconnectedCommunitiesLpaOmpW_def)
next
  case (Some s)
  obtain vcom0 vaff0 where s: "s = (vcom0, vaff0)" by (cases s)
  show ?thesis
    using Some s lpa_par_loop_one_thread[of PRUNE x vdom vcom0 vaff0]
    by (simp add: lpa_par_def splitDisconnectedCommunitiesLpaOmpW_def
        del: lpa_par_loop.simps lpa_loop.simps)
qed

section \<open>Label propagation without pruning is correct in every interleaving\<close>

text \<open>
  Every iteration of a round runs to its end (\<open>lpa_round_complete\<close>).  In a round
  that counts no change nothing is written, so every iteration has compared its label
  with the final labels of its neighbours: all vertices are stable, and the labels are
  the smallest ids of the pieces (\<open>lpa_par_result\<close>).  With pruning this fails: see C4.
\<close>

lemma lpa_left_0: "lpa_left x u p = 0 \<longleftrightarrow> p = Finished"
  by (cases p) auto

lemma lpa_micro_left:
  assumes "lpa_micro PRUNE x vdom u p s = Some (p', s')"
  shows "lpa_left x u p' \<le> lpa_left x u p - 1"
proof -
  obtain n vcom vaff where s: "s = (n, vcom, vaff)" by (cases s)
  show ?thesis
  proof (cases p)
    case Waiting
    then show ?thesis using assms
      by (auto simp: s bind_eq_Some_conv split: if_splits)
  next
    case (Scanning d c vs)
    then show ?thesis using assms
      by (cases vs) (auto simp: s bind_eq_Some_conv split: if_splits)
  next
    case (Clearing d)
    then show ?thesis using assms by (auto simp: s bind_eq_Some_conv)
  next
    case (Marking d vs)
    then show ?thesis using assms
      by (cases vs) (auto simp: s bind_eq_Some_conv split: if_splits)
  next
    case (Setting d v vs)
    then show ?thesis using assms by (auto simp: s bind_eq_Some_conv)
  next
    case Finished
    then show ?thesis using assms by auto
  qed
qed

lemma lpa_par_step_left:
  assumes "lpa_par_step PRUNE x vdom w (ps, s) = Some (ps', s')"
  shows "length ps' = length ps \<and>
    (\<forall>u<length ps. lpa_left x u (ps' ! u)
        \<le> lpa_left x u (ps ! u) - (if w = u then 1 else 0))"
proof (cases "w < length ps")
  case False
  then show ?thesis using assms by (auto simp: lpa_par_step_def)
next
  case True
  from assms True obtain p' where
    m: "lpa_micro PRUNE x vdom w (ps ! w) s = Some (p', s')" and r: "ps' = ps[w := p']"
    by (auto simp: lpa_par_step_def bind_eq_Some_conv)
  from lpa_micro_left[OF m] show ?thesis using r True by (auto simp: nth_list_update)
qed

lemma lpa_par_run_left:
  "lpa_par_run PRUNE x vdom sched (ps, s) = Some (ps', s') \<Longrightarrow>
   length ps' = length ps \<and>
   (\<forall>u<length ps. lpa_left x u (ps' ! u) \<le> lpa_left x u (ps ! u) - count_list sched u)"
proof (induction sched arbitrary: ps s)
  case Nil
  then show ?case by simp
next
  case (Cons w sched)
  from Cons.prems obtain ps1 s1 where
    1: "lpa_par_step PRUNE x vdom w (ps, s) = Some (ps1, s1)" and
    2: "lpa_par_run PRUNE x vdom sched (ps1, s1) = Some (ps', s')"
    by (auto simp: bind_eq_Some_conv)
  note a = lpa_par_step_left[OF 1] and b = Cons.IH[OF 2]
  have "lpa_left x u (ps' ! u) \<le> lpa_left x u (ps ! u) - count_list (w # sched) u"
    if "u < length ps" for u
  proof -
    have "lpa_left x u (ps' ! u) \<le> lpa_left x u (ps1 ! u) - count_list sched u"
      using b a that by simp
    moreover have "lpa_left x u (ps1 ! u) \<le> lpa_left x u (ps ! u) - (if w = u then 1 else 0)"
      using a that by blast
    ultimately show ?thesis by auto
  qed
  then show ?case using a b by simp
qed

lemma count_concat_replicate:
  "u \<in> set us \<Longrightarrow> k u \<le> count_list (concat (map (\<lambda>w. replicate (k w) w) us)) u"
proof (induction us)
  case Nil
  then show ?case by simp
next
  case (Cons w us)
  show ?case
  proof (cases "w = u")
    case True
    then show ?thesis by (simp add: count_list_replicate_same)
  next
    case False
    then have "u \<in> set us" using Cons.prems by simp
    from Cons.IH[OF this] show ?thesis by simp
  qed
qed

lemma lpa_round_complete:
  assumes "lpa_par_run PRUNE x vdom (sched @ lpa_par_finish x)
             (replicate (span x) Waiting, s) = Some (ps', s')"
  shows "length ps' = span x \<and> (\<forall>u<span x. ps' ! u = Finished)"
proof -
  note a = lpa_par_run_left[OF assms]
  have "ps' ! u = Finished" if u: "u < span x" for u
  proof -
    let ?k = "\<lambda>u. if hasVertex x u then 4 + 3 * length (edgeKeys x u) else 1"
    have "u \<in> set [0..<span x]" using u by simp
    from count_concat_replicate[OF this, of ?k]
    have "?k u \<le> count_list (sched @ lpa_par_finish x) u"
      by (simp add: lpa_par_finish_def)
    moreover have "lpa_left x u (ps' ! u)
        \<le> lpa_left x u (replicate (span x) Waiting ! u) - count_list (sched @ lpa_par_finish x) u"
      using a u by simp
    ultimately have "lpa_left x u (ps' ! u) = 0" using u by simp
    then show ?thesis by (simp add: lpa_left_0)
  qed
  then show ?thesis using a by simp
qed

lemma np_ok_cong: "vcom' ! u = vcom ! u \<Longrightarrow> np_ok x vdom vcom' u p = np_ok x vdom vcom u p"
  by (cases p) simp_all

lemma np_micro:
  assumes cl: "closed x" and u: "u < span x"
    and lab: "labelled x vdom vcom" and ok: "np_ok x vdom vcom u p"
    and m: "lpa_micro False x vdom u p (n, vcom, vaff) = Some (p', n', vcom', vaff')"
  shows "labelled x vdom vcom' \<and> np_ok x vdom vcom' u p' \<and>
     (\<forall>w. w \<noteq> u \<longrightarrow> vcom' ! w = vcom ! w) \<and>
     (n' = 0 \<longrightarrow> n = 0 \<and> vcom' = vcom \<and> (np_zero x vdom vcom u p \<longrightarrow> np_zero x vdom vcom u p'))"
proof (cases p)
  case Waiting
  show ?thesis
  proof (cases "hasVertex x u")
    case False
    then show ?thesis using Waiting m lab by auto
  next
    case True
    from m Waiting True have r: "p' = Scanning (vdom ! u) (vcom ! u) (edgeKeys x u)"
      "n' = n" "vcom' = vcom"
      by (auto simp: bind_eq_Some_conv vget_Some)
    have "(u, vcom ! u) \<in> (sameEdges x vdom)\<^sup>*" using lab u by (simp add: labelled_def)
    then show ?thesis using r lab True u by (simp add: present_def)
  qed
next
  case (Scanning d c vs)
  then have o: "present x u" "d = vdom ! u" "c \<le> vcom ! u" "(u, c) \<in> (sameEdges x vdom)\<^sup>*"
    "set vs \<subseteq> set (edgeKeys x u)"
    using ok by simp_all
  show ?thesis
  proof (cases vs)
    case Nil
    show ?thesis
    proof (cases "c = vcom ! u")
      case True
      from m Scanning Nil True have r: "p' = Finished" "n' = n" "vcom' = vcom"
        by (auto simp: bind_eq_Some_conv vget_Some)
      have "stable x vdom vcom u" if "np_zero x vdom vcom u p"
        using that Scanning Nil True by (simp add: stable_def)
      then show ?thesis using r lab by simp
    next
      case False
      from m Scanning Nil False have ul: "u < length vcom" and
        r: "p' = Finished" "n' = n + 1" "vcom' = vcom[u := c]"
        by (auto simp: bind_eq_Some_conv vget_Some vset_Some)
      have "labelled x vdom (vcom[u := c])"
        unfolding labelled_def
      proof (intro allI impI)
        fix w assume w: "w < span x"
        show "vcom[u := c] ! w \<le> w \<and> (w, vcom[u := c] ! w) \<in> (sameEdges x vdom)\<^sup>*"
        proof (cases "w = u")
          case True
          have "vcom ! u \<le> u" using lab u by (simp add: labelled_def)
          then show ?thesis using True ul o by simp
        next
          case False
          then show ?thesis using lab w by (simp add: labelled_def)
        qed
      qed
      then show ?thesis using r by simp
    qed
  next
    case (Cons v vs')
    have v: "v \<in> set (edgeKeys x u)" and vs': "set vs' \<subseteq> set (edgeKeys x u)"
      using o(5) Cons by auto
    from o(1) have up: "u < span x" "hasVertex x u" by (auto simp: present_def)
    note vb = closedD[OF cl up v]
    show ?thesis
    proof (cases "vdom ! v = d")
      case False
      from m Scanning Cons False have r: "p' = Scanning d c vs'" "n' = n" "vcom' = vcom"
        by (auto simp: bind_eq_Some_conv vget_Some split: if_splits)
      have "np_zero x vdom vcom u p'" if "np_zero x vdom vcom u p"
        using that Scanning Cons False o(2) r by auto
      then show ?thesis using r lab o vs' by simp
    next
      case True
      from m Scanning Cons True have
        r: "p' = Scanning d (min c (vcom ! v)) vs'" "n' = n" "vcom' = vcom"
        by (auto simp: bind_eq_Some_conv vget_Some split: if_splits)
      have e: "(u, v) \<in> sameEdges x vdom"
        using up v True o(2) by (simp add: sameEdges_def)
      have "(v, vcom ! v) \<in> (sameEdges x vdom)\<^sup>*" using lab vb by (simp add: labelled_def)
      then have "(u, vcom ! v) \<in> (sameEdges x vdom)\<^sup>*" using e by simp
      then have a: "(u, min c (vcom ! v)) \<in> (sameEdges x vdom)\<^sup>*"
        using o(4) by (simp add: min_def)
      have z: "np_zero x vdom vcom u p'" if "np_zero x vdom vcom u p"
        unfolding r(1) np_zero.simps
      proof (intro ballI impI)
        fix w assume w: "w \<in> set (edgeKeys x u)" "w \<notin> set vs'" "vdom ! w = vdom ! u"
        show "min c (vcom ! v) \<le> vcom ! w"
        proof (cases "w = v")
          case True
          then show ?thesis by simp
        next
          case False
          then have "w \<notin> set vs" using w(2) Cons by simp
          then have "c \<le> vcom ! w" using that Scanning w by simp
          then show ?thesis by simp
        qed
      qed
      show ?thesis using r lab o vs' a z by simp
    qed
  qed
next
  case (Clearing d)
  then show ?thesis using ok by simp
next
  case (Marking d vs)
  then show ?thesis using ok by simp
next
  case (Setting d v vs)
  then show ?thesis using ok by simp
next
  case Finished
  then show ?thesis using m lab by auto
qed

lemma np_invD:
  assumes "np_inv x vdom vcom0 (ps, n, vcom, vaff)"
  shows "length ps = span x" "labelled x vdom vcom"
    "\<And>u. u < span x \<Longrightarrow> np_ok x vdom vcom u (ps ! u)"
    "n = 0 \<Longrightarrow> vcom = vcom0"
    "\<And>u. n = 0 \<Longrightarrow> u < span x \<Longrightarrow> np_zero x vdom vcom0 u (ps ! u)"
  using assms by (simp_all add: np_inv_def)

lemma np_step:
  assumes cl: "closed x"
    and st: "lpa_par_step False x vdom u s = Some s'" and inv: "np_inv x vdom vcom0 s"
  shows "np_inv x vdom vcom0 s'"
proof -
  obtain ps n vcom vaff where s: "s = (ps, n, vcom, vaff)" by (cases s)
  note d = np_invD[OF inv[unfolded s]]
  show ?thesis
  proof (cases "u < length ps")
    case False
    then show ?thesis using st inv by (simp add: lpa_par_step_def s)
  next
    case True
    then have u: "u < span x" using d(1) by simp
    from st True obtain p' n' vcom' vaff' where
      m: "lpa_micro False x vdom u (ps ! u) (n, vcom, vaff) = Some (p', n', vcom', vaff')" and
      s': "s' = (ps[u := p'], n', vcom', vaff')"
      by (auto simp: lpa_par_step_def s bind_eq_Some_conv)
    note k = np_micro[OF cl u d(2) d(3)[OF u] m]
    have ok: "np_ok x vdom vcom' w (ps[u := p'] ! w)" if w: "w < span x" for w
    proof (cases "w = u")
      case True
      then show ?thesis using k d(1) u by simp
    next
      case False
      then have "vcom' ! w = vcom ! w" using k by simp
      from np_ok_cong[OF this] d(3)[OF w] False show ?thesis by simp
    qed
    have z: "vcom' = vcom0 \<and> (\<forall>w<span x. np_zero x vdom vcom0 w (ps[u := p'] ! w))" if "n' = 0"
    proof -
      from k that have n: "n = 0" and e: "vcom' = vcom"
        and zz: "np_zero x vdom vcom u (ps ! u) \<longrightarrow> np_zero x vdom vcom u p'"
        by simp_all
      have v0: "vcom = vcom0" using d(4)[OF n] .
      have "np_zero x vdom vcom0 w (ps[u := p'] ! w)" if w: "w < span x" for w
      proof (cases "w = u")
        case True
        then show ?thesis using zz d(5)[OF n u] v0 d(1) u by simp
      next
        case False
        then show ?thesis using d(5)[OF n w] by simp
      qed
      then show ?thesis using e v0 by simp
    qed
    show ?thesis unfolding s' np_inv_def using d(1) k ok z by simp
  qed
qed

lemma np_run:
  assumes cl: "closed x"
  shows "lpa_par_run False x vdom sched s = Some s' \<Longrightarrow> np_inv x vdom vcom0 s \<Longrightarrow>
         np_inv x vdom vcom0 s'"
proof (induction sched arbitrary: s)
  case Nil
  then show ?case by simp
next
  case (Cons u sched)
  from Cons.prems(1) obtain s1 where
    1: "lpa_par_step False x vdom u s = Some s1" and
    2: "lpa_par_run False x vdom sched s1 = Some s'"
    by (auto simp: bind_eq_Some_conv)
  from Cons.IH[OF 2 np_step[OF cl 1 Cons.prems(2)]] show ?case .
qed

lemma np_round:
  assumes cl: "closed x" and lab: "labelled x vdom vcom"
    and r: "lpa_par_round False x vdom sched (vcom, vaff) = Some (n, vcom', vaff')"
  shows "labelled x vdom vcom' \<and>
    (n = 0 \<longrightarrow> vcom' = vcom \<and> (\<forall>u<span x. hasVertex x u \<longrightarrow> stable x vdom vcom u))"
proof -
  from r obtain ps' where
    run: "lpa_par_run False x vdom (sched @ lpa_par_finish x)
            (replicate (span x) Waiting, 0, vcom, vaff) = Some (ps', n, vcom', vaff')"
    by (auto simp: lpa_par_round_def bind_eq_Some_conv)
  have i0: "np_inv x vdom vcom (replicate (span x) Waiting, 0, vcom, vaff)"
    using lab by (simp add: np_inv_def)
  note d = np_invD[OF np_run[OF cl run i0]]
  note c = lpa_round_complete[OF run]
  have "stable x vdom vcom u" if "n = 0" "u < span x" "hasVertex x u" for u
    using d(5)[OF that(1,2)] c that by simp
  then show ?thesis using d(2,4) by blast
qed

lemma np_loop:
  "\<not> PRUNE \<Longrightarrow> closed x \<Longrightarrow> covers x vdom \<Longrightarrow> span x \<le> length vcom \<Longrightarrow>
   labelled x vdom vcom \<Longrightarrow>
   \<exists>vcom' vaff'.
     lpa_par_loop PRUNE x vdom scheds (vcom, vaff) = Some (vcom', vaff') \<and>
     length vcom' = length vcom \<and> (\<forall>w. \<not> present x w \<longrightarrow> vcom' ! w = vcom ! w) \<and>
     labelled x vdom vcom' \<and> (\<forall>u<span x. hasVertex x u \<longrightarrow> stable x vdom vcom' u)"
proof (induction PRUNE x vdom scheds "(vcom, vaff)" arbitrary: vcom vaff
    rule: lpa_par_loop.induct)
  case (1 PRUNE x vdom scheds vcom vaff)
  let ?sched = "case scheds of [] \<Rightarrow> [] | sched # _ \<Rightarrow> sched"
  note np = "1.prems"(1) and cl = "1.prems"(2) and cv = "1.prems"(3) and len = "1.prems"(4)
    and lab = "1.prems"(5)
  have P: "PRUNE = False" using np by simp
  have lenp: "PRUNE \<longrightarrow> span x \<le> length vaff" using np by simp
  from lpa_par_round_kept[OF cl cv len lenp, of ?sched] obtain n vcom1 vaff1 where
    r: "lpa_par_round PRUNE x vdom ?sched (vcom, vaff) = Some (n, vcom1, vaff1)" and
    l: "length vcom1 = length vcom" and
    f: "\<forall>w. \<not> present x w \<longrightarrow> vcom1 ! w = vcom ! w"
    by blast
  note k = np_round[OF cl lab r[unfolded P]]
  have L: "lpa_par_loop PRUNE x vdom scheds (vcom, vaff)
      = (if n = 0 then Some (vcom1, vaff1)
         else lpa_par_loop PRUNE x vdom (tl scheds) (vcom1, vaff1))"
    by (subst lpa_par_loop.simps) (simp add: r del: lpa_par_loop.simps)
  show ?case
  proof (cases "n = 0")
    case True
    then show ?thesis unfolding L using k l f lab by auto
  next
    case False
    have len1: "span x \<le> length vcom1" using l len by simp
    from "1.hyps"[OF r refl refl False np cl cv len1] k obtain vcom' vaff' where
      "lpa_par_loop PRUNE x vdom (tl scheds) (vcom1, vaff1) = Some (vcom', vaff')"
      "length vcom' = length vcom1" "\<forall>w. \<not> present x w \<longrightarrow> vcom' ! w = vcom1 ! w"
      "labelled x vdom vcom'" "\<forall>u<span x. hasVertex x u \<longrightarrow> stable x vdom vcom' u"
      by blast
    then show ?thesis unfolding L using False l f by simp
  qed
qed

lemma lpa_par_result:
  assumes wf: "wellformed x"
    and len: "span x \<le> length vdom" "span x \<le> length vcom"
  shows "\<exists>vcom' vaff'.
     lpa_par False scheds x vdom vcom vaff = Some (vcom', vaff') \<and>
     length vcom' = length vcom \<and>
     (\<forall>u<span x. vcom' ! u = (if hasVertex x u then Min (piece x vdom u) else u)) \<and>
     (\<forall>i. span x \<le> i \<longrightarrow> vcom' ! i = vcom ! i)"
proof -
  have "\<forall>u\<in>set [0..<span x]. u < length vcom \<and> (False \<longrightarrow> u < length vaff)"
    using len by auto
  from lpa_init_spec[OF this] obtain vcom0 vaff0 where
    i: "lpa_init False [0..<span x] (vcom, vaff) = Some (vcom0, vaff0)" and
    l0: "length vcom0 = length vcom" and
    c0: "\<forall>i. vcom0 ! i = (if i \<in> set [0..<span x] then i else vcom ! i)"
    by blast
  have lab0: "labelled x vdom vcom0" using c0 by (simp add: labelled_def)
  have len0: "span x \<le> length vcom0" using len l0 by simp
  note cl = wellformed_closed[OF wf]
  from np_loop[OF _ cl covers_span[OF len(1)] len0 lab0, of False scheds vaff0]
  obtain vcom' vaff' where
    r: "lpa_par_loop False x vdom scheds (vcom0, vaff0) = Some (vcom', vaff')" and
    l: "length vcom' = length vcom0" and
    f: "\<forall>w. \<not> present x w \<longrightarrow> vcom' ! w = vcom0 ! w" and
    lab: "labelled x vdom vcom'" and
    st: "\<forall>u<span x. hasVertex x u \<longrightarrow> stable x vdom vcom' u"
    by auto
  have res: "lpa_par False scheds x vdom vcom vaff = Some (vcom', vaff')"
    using i r by (simp add: lpa_par_def)
  have lab': "\<forall>u<span x. vcom' ! u \<le> u \<and> (u, vcom' ! u) \<in> (sameEdges x vdom)\<^sup>*"
    using lab by (simp add: labelled_def)
  have m: "vcom' ! u = (if hasVertex x u then Min (piece x vdom u) else u)" if u: "u < span x"
    for u
  proof (cases "hasVertex x u")
    case True
    then show ?thesis using stable_label_Min[OF wf lab' st u] by simp
  next
    case False
    then have "\<not> present x u" by (simp add: present_def)
    then show ?thesis using f c0 u False by simp
  qed
  have fr: "vcom' ! i = vcom ! i" if "span x \<le> i" for i
  proof -
    have "\<not> present x i" using that by (simp add: present_def)
    then show ?thesis using f c0 that by simp
  qed
  show ?thesis using res l l0 m fr by auto
qed

section \<open>Running a splitter on its own output\<close>

text \<open>
  When \<open>vcom1\<close> labels every present vertex with the smallest id of its piece, the
  pieces of the graph under the assignment \<open>vcom1\<close> are the pieces under \<open>vdom\<close>
  (\<open>piece_relabel\<close>); so a splitter that computes these labels computes them again from
  its own output.
\<close>

lemma piece_Min:
  assumes wf: "wellformed x" and u: "u < span x" "hasVertex x u"
  shows "Min (piece x vdom u) \<in> piece x vdom u" "Min (piece x vdom u) \<le> u"
proof -
  have f: "finite (piece x vdom u)" using piece_finite[OF wf u] by simp
  have n: "piece x vdom u \<noteq> {}" using piece_refl by blast
  show "Min (piece x vdom u) \<in> piece x vdom u" using Min_in[OF f n] .
  show "Min (piece x vdom u) \<le> u" using Min_le[OF f piece_refl] .
qed

lemma piece_relabel:
  assumes wf: "wellformed x"
    and lab: "\<forall>u<span x. vcom1 ! u = (if hasVertex x u then Min (piece x vdom u) else u)"
  shows "piece x vcom1 u = piece x vdom u"
proof -
  have 1: "sameEdges x vdom \<subseteq> sameEdges x vcom1"
  proof
    fix e assume e: "e \<in> sameEdges x vdom"
    obtain a b where ab: "e = (a, b)" by (cases e)
    from e ab have a: "a < span x" "hasVertex x a" and b: "b \<in> set (edgeKeys x a)"
      by (auto simp: sameEdges_def)
    note w = wellformedD[OF wf a b]
    have "b \<in> piece x vdom a" using e ab by (auto simp: piece_def)
    then have "piece x vdom b = piece x vdom a" by (rule piece_eq[OF wf])
    then have "vcom1 ! b = vcom1 ! a" using lab a w by simp
    then show "e \<in> sameEdges x vcom1" using ab a b by (simp add: sameEdges_def)
  qed
  have 2: "sameEdges x vcom1 \<subseteq> (sameEdges x vdom)\<^sup>*"
  proof
    fix e assume e: "e \<in> sameEdges x vcom1"
    obtain a b where ab: "e = (a, b)" by (cases e)
    from e ab have a: "a < span x" "hasVertex x a" and b: "b \<in> set (edgeKeys x a)"
      and eq: "vcom1 ! b = vcom1 ! a"
      by (auto simp: sameEdges_def)
    note w = wellformedD[OF wf a b]
    have m: "Min (piece x vdom b) = Min (piece x vdom a)" using eq lab a w by simp
    have "Min (piece x vdom a) \<in> piece x vdom a" using piece_Min(1)[OF wf a] .
    moreover have "b \<in> piece x vdom (Min (piece x vdom a))"
      using piece_sym[OF wf piece_Min(1)[OF wf w(1,2), of vdom]] m by simp
    ultimately have "b \<in> piece x vdom a" by (rule piece_trans)
    then show "e \<in> (sameEdges x vdom)\<^sup>*" using ab by (simp add: piece_def)
  qed
  have "(sameEdges x vcom1)\<^sup>* = (sameEdges x vdom)\<^sup>*"
  proof
    show "(sameEdges x vcom1)\<^sup>* \<subseteq> (sameEdges x vdom)\<^sup>*"
      using rtrancl_mono[OF 2] by simp
    show "(sameEdges x vdom)\<^sup>* \<subseteq> (sameEdges x vcom1)\<^sup>*"
      using rtrancl_mono[OF 1] .
  qed
  then show ?thesis by (simp add: piece_def)
qed

lemma relabel_fixed:
  assumes wf: "wellformed x"
    and l1: "\<forall>u<span x. vcom1 ! u = (if hasVertex x u then Min (piece x vdom u) else u)"
    and l2: "\<forall>u<span x. vcom2 ! u = (if hasVertex x u then Min (piece x vcom1 u) else u)"
    and f1: "\<forall>i<length vcom. span x \<le> i \<longrightarrow> vcom1 ! i = vcom ! i"
    and f2: "\<forall>i<length vcom. span x \<le> i \<longrightarrow> vcom2 ! i = vcom ! i"
    and len: "length vcom1 = length vcom" "length vcom2 = length vcom"
  shows "vcom2 = vcom1"
proof (rule nth_equalityI)
  show "length vcom2 = length vcom1" using len by simp
  fix i assume i: "i < length vcom2"
  show "vcom2 ! i = vcom1 ! i"
  proof (cases "i < span x")
    case True
    then show ?thesis using l1 l2 piece_relabel[OF wf l1] by simp
  next
    case False
    then show ?thesis using f1 f2 i len by simp
  qed
qed

lemma labels_below_span:
  assumes wf: "wellformed x"
    and l1: "\<forall>u<span x. vcom1 ! u = (if hasVertex x u then Min (piece x vdom u) else u)"
  shows "\<forall>u<span x. hasVertex x u \<longrightarrow> vcom1 ! u < span x"
proof (intro allI impI)
  fix u assume u: "u < span x" "hasVertex x u"
  have "vcom1 ! u \<le> u" using l1 u piece_Min(2)[OF wf u] by simp
  then show "vcom1 ! u < span x" using u(1) by simp
qed

lemma lpa_idempotent:
  assumes wf: "wellformed x"
    and len: "span x \<le> length vdom" "span x \<le> length vcom" "PRUNE \<longrightarrow> span x \<le> length vaff"
  shows "\<exists>vcom1 vaff1 vaff2.
     splitDisconnectedCommunitiesLpaOmpW PRUNE x vdom vcom vaff = Some (vcom1, vaff1) \<and>
     splitDisconnectedCommunitiesLpaOmpW PRUNE x vcom1 vcom vaff = Some (vcom1, vaff2)"
proof -
  from lpa_result[OF wf len] obtain vcom1 vaff1 where
    r1: "splitDisconnectedCommunitiesLpaOmpW PRUNE x vdom vcom vaff = Some (vcom1, vaff1)" and
    n1: "length vcom1 = length vcom" and
    l1: "\<forall>u<span x. vcom1 ! u = (if hasVertex x u then Min (piece x vdom u) else u)" and
    f1: "\<forall>i. span x \<le> i \<longrightarrow> vcom1 ! i = vcom ! i"
    by blast
  have len1: "span x \<le> length vcom1" using n1 len(2) by simp
  from lpa_result[OF wf len1 len(2,3)] obtain vcom2 vaff2 where
    r2: "splitDisconnectedCommunitiesLpaOmpW PRUNE x vcom1 vcom vaff = Some (vcom2, vaff2)" and
    n2: "length vcom2 = length vcom" and
    l2: "\<forall>u<span x. vcom2 ! u = (if hasVertex x u then Min (piece x vcom1 u) else u)" and
    f2: "\<forall>i. span x \<le> i \<longrightarrow> vcom2 ! i = vcom ! i"
    by blast
  have "vcom2 = vcom1"
    by (rule relabel_fixed[OF wf l1 l2 _ _ n1 n2]) (use f1 f2 in auto)
  then show ?thesis using r1 r2 by blast
qed

lemma dfs_idempotent:
  assumes wf: "wellformed x" and T: "0 < T"
    and len: "span x \<le> length vdom" "span x \<le> length vcom" "span x \<le> length vis"
  shows "\<exists>vcom1 vis1 vis2.
     splitDisconnectedCommunitiesDfsOmpW T x vdom vcom vis = Some (vcom1, vis1) \<and>
     splitDisconnectedCommunitiesDfsOmpW T x vcom1 vcom vis = Some (vcom1, vis2)"
proof -
  from dfs_result[OF wf T len] obtain vcom1 vis1 where
    r1: "splitDisconnectedCommunitiesDfsOmpW T x vdom vcom vis = Some (vcom1, vis1)" and
    n1: "length vcom1 = length vcom" and
    l1: "\<forall>u<span x. vcom1 ! u = (if hasVertex x u then Min (piece x vdom u) else u)" and
    f1: "\<forall>i<length vcom. span x \<le> i \<longrightarrow> vcom1 ! i = vcom ! i"
    by blast
  have len1: "span x \<le> length vcom1" using n1 len(2) by simp
  from dfs_result[OF wf T len1 len(2,3)] obtain vcom2 vis2 where
    r2: "splitDisconnectedCommunitiesDfsOmpW T x vcom1 vcom vis = Some (vcom2, vis2)" and
    n2: "length vcom2 = length vcom" and
    l2: "\<forall>u<span x. vcom2 ! u = (if hasVertex x u then Min (piece x vcom1 u) else u)" and
    f2: "\<forall>i<length vcom. span x \<le> i \<longrightarrow> vcom2 ! i = vcom ! i"
    by blast
  have "vcom2 = vcom1"
    by (rule relabel_fixed[OF wf l1 l2 f1 f2 n1 n2])
  then show ?thesis using r1 r2 by blast
qed

lemma bfs_idempotent:
  assumes wf: "wellformed x"
    and len: "span x \<le> length vdom" "span x \<le> length vcom" "span x \<le> length cbsy"
      "span x \<le> length vis"
    and ids: "\<forall>u<span x. hasVertex x u \<longrightarrow> vdom ! u < span x"
  shows "\<exists>vcom1 cbsy1 vis1 cbsy2 vis2.
     splitDisconnectedCommunitiesBfsOmpW 1 sched x vdom vcom cbsy vis = Some (vcom1, cbsy1, vis1) \<and>
     splitDisconnectedCommunitiesBfsOmpW 1 sched' x vcom1 vcom cbsy vis = Some (vcom1, cbsy2, vis2)"
proof -
  from bfs_result[OF wf len ids] obtain vcom1 cbsy1 vis1 where
    r1: "splitDisconnectedCommunitiesBfsOmpW 1 sched x vdom vcom cbsy vis
           = Some (vcom1, cbsy1, vis1)" and
    n1: "length vcom1 = length vcom" and
    l1: "\<forall>u<span x. vcom1 ! u = (if hasVertex x u then Min (piece x vdom u) else u)" and
    f1: "\<forall>i<length vcom. span x \<le> i \<longrightarrow> vcom1 ! i = vcom ! i"
    by blast
  have len1: "span x \<le> length vcom1" using n1 len(2) by simp
  note ids1 = labels_below_span[OF wf l1]
  from bfs_result[OF wf len1 len(2,3,4) ids1] obtain vcom2 cbsy2 vis2 where
    r2: "splitDisconnectedCommunitiesBfsOmpW 1 sched' x vcom1 vcom cbsy vis
           = Some (vcom2, cbsy2, vis2)" and
    n2: "length vcom2 = length vcom" and
    l2: "\<forall>u<span x. vcom2 ! u = (if hasVertex x u then Min (piece x vcom1 u) else u)" and
    f2: "\<forall>i<length vcom. span x \<le> i \<longrightarrow> vcom2 ! i = vcom ! i"
    by blast
  have "vcom2 = vcom1"
    by (rule relabel_fixed[OF wf l1 l2 f1 f2 n1 n2])
  then show ?thesis using r1 r2 by blast
qed

lemma lpa_par_idempotent:
  assumes wf: "wellformed x"
    and len: "span x \<le> length vdom" "span x \<le> length vcom"
  shows "\<exists>vcom1 vaff1 vaff2.
     lpa_par False scheds x vdom vcom vaff = Some (vcom1, vaff1) \<and>
     lpa_par False scheds' x vcom1 vcom vaff = Some (vcom1, vaff2)"
proof -
  from lpa_par_result[OF wf len] obtain vcom1 vaff1 where
    r1: "lpa_par False scheds x vdom vcom vaff = Some (vcom1, vaff1)" and
    n1: "length vcom1 = length vcom" and
    l1: "\<forall>u<span x. vcom1 ! u = (if hasVertex x u then Min (piece x vdom u) else u)" and
    f1: "\<forall>i. span x \<le> i \<longrightarrow> vcom1 ! i = vcom ! i"
    by blast
  have len1: "span x \<le> length vcom1" using n1 len(2) by simp
  from lpa_par_result[OF wf len1 len(2)] obtain vcom2 vaff2 where
    r2: "lpa_par False scheds' x vcom1 vcom vaff = Some (vcom2, vaff2)" and
    n2: "length vcom2 = length vcom" and
    l2: "\<forall>u<span x. vcom2 ! u = (if hasVertex x u then Min (piece x vcom1 u) else u)" and
    f2: "\<forall>i. span x \<le> i \<longrightarrow> vcom2 ! i = vcom ! i"
    by blast
  have "vcom2 = vcom1"
    by (rule relabel_fixed[OF wf l1 l2 _ _ n1 n2]) (use f1 f2 in auto)
  then show ?thesis using r1 r2 by blast
qed

section \<open>Facts about the concrete inputs\<close>



lemma scenario_ids: "\<forall>u<span scenario. hasVertex scenario u \<longrightarrow> [0,0,0,1,1,0::nat] ! u < 6"
  by (simp add: scenario_def graphOf_def less_Suc_eq numeral_eq_Suc All_less_Suc)





text \<open>
  The labels that the run of C4 returns are not kept by a second run: vertex 2 is alone
  in its community now and keeps its own id.
\<close>

lemma lpa_pruned_rerun_differs:
  "lpa_par True [] scenario [0,0,1,3,3,5] [9,9,9,9,9,9] [False,False,False,False,False,False]
   = Some ([0,0,2,3,3,5], [True,False,True,True,False,True])"
  by code_simp

text \<open>
  With edges that are listed at one end only, pruning leaves a stale label even when one
  thread runs the rounds: line 52 flags the vertices that the changed vertex lists, not
  the vertices that list it.  In \<open>one_way_chain\<close> vertex 2 takes the label 1 of vertex
  1 in the first round; vertex 1 takes the label 0 in the second round and flags vertex
  3 only, so vertex 2 is never rescanned.  Without pruning the labels are right.
\<close>

lemma one_way_reach: "0 \<in> piece one_way_chain [0,0,0,0] 2"
proof -
  have "(2, 1) \<in> sameEdges one_way_chain [0,0,0,0]" "(1, 3) \<in> sameEdges one_way_chain [0,0,0,0]"
    "(3, 0) \<in> sameEdges one_way_chain [0,0,0,0]"
    by (simp_all add: sameEdges_def one_way_chain_def graphOf_def)
  then have "(2, 0) \<in> (sameEdges one_way_chain [0,0,0,0])\<^sup>*"
    by (meson rtrancl.rtrancl_into_rtrancl rtrancl.rtrancl_refl)
  then show ?thesis by (simp add: piece_def)
qed

lemma lpa_pruning_one_way_edges:
  "splitDisconnectedCommunitiesLpaOmpW True one_way_chain [0,0,0,0] [9,9,9,9]
     [False,False,False,False] = Some ([0,0,1,0], [True,False,False,True]) \<and>
   splitDisconnectedCommunitiesLpaOmpW False one_way_chain [0,0,0,0] [9,9,9,9] []
     = Some ([0,0,0,0], [])"
  by (intro conjI; code_simp)

section \<open>Properties of the label propagation splitter\<close>

text \<open>
  C4 fails with pruning when the iterations of a round interleave.  In \<open>scenario\<close>
  with the communities \<open>[0,0,0,1,1,0]\<close> the vertices 0, 1 and 2 are one piece, so the
  label of vertex 2 should be 0.  First round, two threads, chunks of one iteration: one
  thread runs the iteration of vertex 0 (three steps, no change) and starts the iteration
  of vertex 2, which reads the label 1 of its neighbour 1 (two steps).  The other thread
  now runs the whole iteration of vertex 1 (eight steps): it writes the label 0, clears
  the flag of vertex 1, and finds the flags of the neighbours 0 and 2 still set, so line
  52 writes nothing.  The second equation is the state at this point.  The first thread
  then finishes the iteration of vertex 2: it writes the label 1, which is stale by now,
  clears the flag of vertex 2 and sets the flag of vertex 1.  Nothing sets the flag of
  vertex 2 again: only a change of the label of vertex 1 would, and that label is final.
  The third equation is the whole first round; in the second round (fourth equation)
  vertex 1 is rescanned without a change and vertex 2 is skipped, no change is counted,
  and the loop ends with the label 1 at vertex 2 (last equation).
\<close>

theorem lpa_pruning_loses_mark:
  "hasVertex scenario 2 \<and> Min (piece scenario [0,0,0,1,1,0] 2) = 0 \<and>
   lpa_par_run True scenario [0,0,0,1,1,0] [0,0,0,2,2,1,1,1,1,1,1,1,1]
     (replicate 6 Waiting, 0, [0,1,2,3,4,5], [True,True,True,True,True,True])
     = Some ([Finished, Finished, Scanning 0 1 [], Waiting, Waiting, Waiting],
             1, [0,0,2,3,4,5], [True,False,True,True,True,True]) \<and>
   lpa_par_round True scenario [0,0,0,1,1,0] [0,0,0,2,2,1,1,1,1,1,1,1,1]
     ([0,1,2,3,4,5], [True,True,True,True,True,True])
     = Some (3, [0,0,1,3,3,5], [True,True,False,True,False,True]) \<and>
   lpa_par_round True scenario [0,0,0,1,1,0] []
     ([0,0,1,3,3,5], [True,True,False,True,False,True])
     = Some (0, [0,0,1,3,3,5], [True,True,False,True,False,True]) \<and>
   lpa_par True [[0,0,0,2,2,1,1,1,1,1,1,1,1]] scenario [0,0,0,1,1,0] [9,9,9,9,9,9]
     [False,False,False,False,False,False]
     = Some ([0,0,1,3,3,5], [True,True,False,True,False,True])"
proof (intro conjI)
  show "hasVertex scenario 2" by (simp add: scenario_def graphOf_def)
  have s: "span scenario = 6" "hasVertex scenario 2" by (simp_all add: scenario_def graphOf_def)
  from lpa_result[OF wellformed_scenario, of "[0,0,0,1,1,0]" "[9,9,9,9,9,9]" True
      "[False,False,False,False,False,False]"]
  have "\<forall>u<span scenario. [0,0,0,3,3,5::nat] ! u =
      (if hasVertex scenario u then Min (piece scenario [0,0,0,1,1,0] u) else u)"
    using lpa_scenario s(1) by auto
  from this[rule_format, of 2] show "Min (piece scenario [0,0,0,1,1,0] 2) = 0"
    using s by simp
  show "lpa_par_run True scenario [0,0,0,1,1,0] [0,0,0,2,2,1,1,1,1,1,1,1,1]
     (replicate 6 Waiting, 0, [0,1,2,3,4,5], [True,True,True,True,True,True])
     = Some ([Finished, Finished, Scanning 0 1 [], Waiting, Waiting, Waiting],
             1, [0,0,2,3,4,5], [True,False,True,True,True,True])"
    by code_simp
  show "lpa_par_round True scenario [0,0,0,1,1,0] [0,0,0,2,2,1,1,1,1,1,1,1,1]
     ([0,1,2,3,4,5], [True,True,True,True,True,True])
     = Some (3, [0,0,1,3,3,5], [True,True,False,True,False,True])"
    by code_simp
  show "lpa_par_round True scenario [0,0,0,1,1,0] []
     ([0,0,1,3,3,5], [True,True,False,True,False,True])
     = Some (0, [0,0,1,3,3,5], [True,True,False,True,False,True])"
    by code_simp
  show "lpa_par True [[0,0,0,2,2,1,1,1,1,1,1,1,1]] scenario [0,0,0,1,1,0] [9,9,9,9,9,9]
     [False,False,False,False,False,False]
     = Some ([0,0,1,3,3,5], [True,True,False,True,False,True])"
    by code_simp
qed

text \<open>
  C5.  After the initialisation pass no label ever increases.  The body of the round loop
  for a vertex \<open>u\<close> either changes nothing, or counts one change and replaces
  \<open>vcom ! u\<close> by the minimum of its own label and the labels of its same-community
  neighbours, which is then strictly smaller; so a round, and the whole loop, leave
  every label at most what it was.
\<close>

theorem lpa_labels_never_increase:
  "(lpa_vertex PRUNE x vdom u (n, vcom, vaff) = Some (n1, vcom1, vaff1) \<longrightarrow>
      (n1 = n \<and> vcom1 = vcom) \<or>
      (n1 = n + 1 \<and>
       vcom1 = vcom[u := Min (insert (vcom ! u)
                  {vcom ! v |v. v \<in> set (edgeKeys x u) \<and> vdom ! v = vdom ! u})] \<and>
       Min (insert (vcom ! u)
                  {vcom ! v |v. v \<in> set (edgeKeys x u) \<and> vdom ! v = vdom ! u}) < vcom ! u)) \<and>
   (lpa_round PRUNE x vdom us (n, vcom, vaff) = Some (n2, vcom2, vaff2) \<longrightarrow>
      length vcom2 = length vcom \<and> (\<forall>i<length vcom. vcom2 ! i \<le> vcom ! i)) \<and>
   (lpa_loop PRUNE x vdom (vcom, vaff) = Some (vcom3, vaff3) \<longrightarrow>
      length vcom3 = length vcom \<and> (\<forall>i<length vcom. vcom3 ! i \<le> vcom ! i))"
proof (intro conjI impI)
  assume "lpa_vertex PRUNE x vdom u (n, vcom, vaff) = Some (n1, vcom1, vaff1)"
  from lpa_vertex_change[OF this]
  show "(n1 = n \<and> vcom1 = vcom) \<or>
      (n1 = n + 1 \<and>
       vcom1 = vcom[u := Min (insert (vcom ! u)
                  {vcom ! v |v. v \<in> set (edgeKeys x u) \<and> vdom ! v = vdom ! u})] \<and>
       Min (insert (vcom ! u)
                  {vcom ! v |v. v \<in> set (edgeKeys x u) \<and> vdom ! v = vdom ! u}) < vcom ! u)"
    by blast
next
  assume "lpa_round PRUNE x vdom us (n, vcom, vaff) = Some (n2, vcom2, vaff2)"
  from lpa_round_mono[OF this]
  show "length vcom2 = length vcom" "\<forall>i<length vcom. vcom2 ! i \<le> vcom ! i"
    by simp_all
next
  assume "lpa_loop PRUNE x vdom (vcom, vaff) = Some (vcom3, vaff3)"
  from lpa_loop_mono[OF this]
  show "length vcom3 = length vcom" "\<forall>i<length vcom. vcom3 ! i \<le> vcom ! i"
    by simp_all
qed

theorem lpa_labels_never_increase_witness:
  "lpa_vertex True scenario [0,0,0,1,1,0] 1 (0, [0,1,2,3,4,5], [True,True,True,True,True,True])
     = Some (1, [0,0,2,3,4,5], [True,False,True,True,True,True]) \<and>
   Min (insert ([0,1,2,3,4,5] ! 1)
      {[0,1,2,3,4,5] ! v |v. v \<in> set (edgeKeys scenario 1) \<and>
                            [0,0,0,1,1,0::nat] ! v = [0,0,0,1,1,0] ! 1}) < [0,1,2,3,4,5::nat] ! 1 \<and>
   lpa_round True scenario [0,0,0,1,1,0] [0..<6] (0, [0,1,2,3,4,5], [True,True,True,True,True,True])
     = Some (3, [0,0,0,3,3,5], [True,True,False,True,False,True]) \<and>
   [0,0,0,3,3,5::nat] ! 2 \<le> [0,1,2,3,4,5] ! 2 \<and>
   lpa_loop True scenario [0,0,0,1,1,0] ([0,1,2,3,4,5], [True,True,True,True,True,True])
     = Some ([0,0,0,3,3,5], [True,True,False,True,False,True])"
proof -
  have v: "lpa_vertex True scenario [0,0,0,1,1,0] 1
      (0, [0,1,2,3,4,5], [True,True,True,True,True,True])
     = Some (1, [0,0,2,3,4,5], [True,False,True,True,True,True])"
    by (simp add: lpa_eval)
  have r: "lpa_round True scenario [0,0,0,1,1,0] [0..<6]
      (0, [0,1,2,3,4,5], [True,True,True,True,True,True])
     = Some (3, [0,0,0,3,3,5], [True,True,False,True,False,True])"
    by (simp add: lpa_eval)
  have l: "lpa_loop True scenario [0,0,0,1,1,0] ([0,1,2,3,4,5], [True,True,True,True,True,True])
     = Some ([0,0,0,3,3,5], [True,True,False,True,False,True])"
    by (simp add: lpa_eval)
  from lpa_labels_never_increase[of True scenario "[0,0,0,1,1,0]" 1 0 "[0,1,2,3,4,5]"
      "[True,True,True,True,True,True]" 1 "[0,0,2,3,4,5]" "[True,False,True,True,True,True]"
      "[0..<6]" 3 "[0,0,0,3,3,5]" "[True,True,False,True,False,True]"
      "[0,0,0,3,3,5]" "[True,True,False,True,False,True]"] v r l
  have "Min (insert ([0,1,2,3,4,5] ! 1)
      {[0,1,2,3,4,5] ! v |v. v \<in> set (edgeKeys scenario 1) \<and>
                            [0,0,0,1,1,0::nat] ! v = [0,0,0,1,1,0] ! 1}) < [0,1,2,3,4,5::nat] ! 1"
    and "[0,0,0,3,3,5::nat] ! 2 \<le> [0,1,2,3,4,5] ! 2"
    by auto
  then show ?thesis using v r l by simp
qed

text \<open>
  C6.  The round loop terminates: there is a round number \<open>k\<close>, at most the sum of the
  labels at the start, such that every earlier round counted at least one change and
  round \<open>k\<close> is the first that counts none (or that makes an out-of-range access), and
  the loop returns exactly the state after that round.
\<close>

theorem lpa_terminates:
  "\<exists>k\<le>sum_list vcom.
     (\<forall>j<k. \<exists>ndel v a. lpa_iter j PRUNE x vdom (vcom, vaff) = Some (ndel, v, a) \<and> ndel \<noteq> 0) \<and>
     (case lpa_iter k PRUNE x vdom (vcom, vaff) of
        None \<Rightarrow> lpa_loop PRUNE x vdom (vcom, vaff) = None
      | Some (ndel, v, a) \<Rightarrow> ndel = 0 \<and> lpa_loop PRUNE x vdom (vcom, vaff) = Some (v, a))"
  by (rule lpa_loop_rounds)

theorem lpa_terminates_witness:
  "lpa_iter 0 True scenario [0,0,0,1,1,0] ([0,1,2,3,4,5], [True,True,True,True,True,True])
     = Some (3, [0,0,0,3,3,5], [True,True,False,True,False,True]) \<and>
   lpa_iter 1 True scenario [0,0,0,1,1,0] ([0,1,2,3,4,5], [True,True,True,True,True,True])
     = Some (0, [0,0,0,3,3,5], [True,True,False,True,False,True]) \<and>
   (\<exists>k\<le>sum_list [0,1,2,3,4,5].
     (\<forall>j<k. \<exists>ndel v a. lpa_iter j True scenario [0,0,0,1,1,0]
          ([0,1,2,3,4,5], [True,True,True,True,True,True]) = Some (ndel, v, a) \<and> ndel \<noteq> 0) \<and>
     (case lpa_iter k True scenario [0,0,0,1,1,0]
          ([0,1,2,3,4,5], [True,True,True,True,True,True]) of
        None \<Rightarrow> lpa_loop True scenario [0,0,0,1,1,0]
          ([0,1,2,3,4,5], [True,True,True,True,True,True]) = None
      | Some (ndel, v, a) \<Rightarrow> ndel = 0 \<and> lpa_loop True scenario [0,0,0,1,1,0]
          ([0,1,2,3,4,5], [True,True,True,True,True,True]) = Some (v, a)))"
proof -
  have 0: "lpa_iter 0 True scenario [0,0,0,1,1,0] ([0,1,2,3,4,5], [True,True,True,True,True,True])
     = Some (3, [0,0,0,3,3,5], [True,True,False,True,False,True])"
    by (simp add: lpa_eval)
  have 1: "lpa_iter 1 True scenario [0,0,0,1,1,0] ([0,1,2,3,4,5], [True,True,True,True,True,True])
     = Some (0, [0,0,0,3,3,5], [True,True,False,True,False,True])"
    by (simp add: lpa_eval)
  show ?thesis
    using 0 1 lpa_terminates[of "[0,1,2,3,4,5]" True scenario "[0,0,0,1,1,0]"
        "[True,True,True,True,True,True]"]
    by blast
qed

text \<open>
  C8.  With pruning, a flagged vertex that is rescanned without a change of its label
  keeps its flag: line 46 leaves the body before line 51 clears it.  On the graph with
  the single vertex 0 the flag of vertex 0 is still set when the operation returns.
\<close>

theorem lpa_flag_kept_when_unchanged:
  "lpa_init True [0..<span (graphOf [True] [[]])] ([7], [False]) = Some ([0], [True]) \<and>
   lpa_vertex True (graphOf [True] [[]]) [0] 0 (0, [0], [True]) = Some (0, [0], [True]) \<and>
   splitDisconnectedCommunitiesLpaOmpW True (graphOf [True] [[]]) [0] [7] [False]
     = Some ([0], [True])"
  by (simp add: lpa_eval)

section \<open>Properties of the three splitters\<close>

text \<open>
  C1.  The refinement invariant fails for the breadth-first splitter with two workers.
  In \<open>pair_graph\<close> all four vertices are in community 0 and the vertices 0 and 1 are
  joined by an edge, so they are in one piece.  The scan of worker 0 is 0, 1, 2, 3, that
  of worker 1 is 2, 3, 0, 1.  Worker 1 claims the community at vertex 2; worker 0 finds
  the community busy at the vertices 0, 1 and 2 and passes them; worker 1 labels vertex 2
  and releases; worker 0 claims the community at vertex 3; worker 1 finds it busy at 3, 0
  and 1 and passes them.  Both scans are at their end (the last equation gives the state
  after these ten steps), and the vertices 0 and 1 have never been visited: they keep the
  labels 0 and 1 of the initialisation pass.
\<close>

theorem bfs_two_workers_skip_piece:
  "hasVertex pair_graph 0 \<and> hasVertex pair_graph 1 \<and>
   [0,0,0,0::nat] ! 0 = [0,0,0,0] ! 1 \<and> 1 \<in> piece pair_graph [0,0,0,0] 0 \<and>
   splitDisconnectedCommunitiesBfsOmpW 2 [1,0,0,0,1,0,1,1,1,1] pair_graph [0,0,0,0] [9,9,9,9]
     [True,True,True,True] [True,True,True,True]
   = Some ([0,1,2,3], [False,False,False,False], [False,False,True,True]) \<and>
   bfs_scan 0 2 (span pair_graph) = [0,1,2,3] \<and> bfs_scan 1 2 (span pair_graph) = [2,3,0,1] \<and>
   bfs_run pair_graph [0,0,0,0] [1,0,0,0,1,0,1,1,1,1]
     (([0,1,2,3], [False,False,False,False], [False,False,False,False]),
      [([0,1,2,3], None), ([2,3,0,1], None)])
   = Some (([0,1,2,3], [True,False,False,False], [False,False,True,False]),
           [([], Some (3, 0, 3)), ([], None)])"
proof (intro conjI)
  show "hasVertex pair_graph 0" "hasVertex pair_graph 1"
    by (simp_all add: pair_graph_def graphOf_def)
  show "[0,0,0,0::nat] ! 0 = [0,0,0,0] ! 1" by simp
  have "(0, 1) \<in> sameEdges pair_graph [0,0,0,0]"
    by (simp add: sameEdges_def pair_graph_def graphOf_def)
  then show "1 \<in> piece pair_graph [0,0,0,0] 0"
    by (simp add: piece_def)
  show "splitDisconnectedCommunitiesBfsOmpW 2 [1,0,0,0,1,0,1,1,1,1] pair_graph [0,0,0,0] [9,9,9,9]
     [True,True,True,True] [True,True,True,True]
   = Some ([0,1,2,3], [False,False,False,False], [False,False,True,True])"
    by code_simp
  show "bfs_scan 0 2 (span pair_graph) = [0,1,2,3]" "bfs_scan 1 2 (span pair_graph) = [2,3,0,1]"
    by code_simp+
  show "bfs_run pair_graph [0,0,0,0] [1,0,0,0,1,0,1,1,1,1]
     (([0,1,2,3], [False,False,False,False], [False,False,False,False]),
      [([0,1,2,3], None), ([2,3,0,1], None)])
   = Some (([0,1,2,3], [True,False,False,False], [False,False,True,False]),
           [([], Some (3, 0, 3)), ([], None)])"
    by code_simp
qed

text \<open>
  C2.  The three splitters do not always produce the same classes.  On \<open>pair_graph\<close>
  with all vertices in community 0, label propagation and the depth-first splitter put
  the vertices 0 and 1 in one class (label 0), and the breadth-first splitter with two
  workers, under the schedule of C1, leaves them in two classes.
\<close>

theorem splitters_disagree_two_workers:
  "splitDisconnectedCommunitiesLpaOmpW False pair_graph [0,0,0,0] [9,9,9,9] []
     = Some ([0,0,2,3], []) \<and>
   splitDisconnectedCommunitiesDfsOmpW 2 pair_graph [0,0,0,0] [9,9,9,9] [True,True,True,True]
     = Some ([0,0,2,3], [True,True,True,True]) \<and>
   splitDisconnectedCommunitiesBfsOmpW 2 [1,0,0,0,1,0,1,1,1,1] pair_graph [0,0,0,0] [9,9,9,9]
     [True,True,True,True] [True,True,True,True]
     = Some ([0,1,2,3], [False,False,False,False], [False,False,True,True])"
  by (intro conjI; code_simp)

text \<open>
  C3, as stated, fails for the breadth-first splitter with two workers: the label of a
  piece is the vertex at which some worker first claims its community, and that depends
  on the schedule.  In \<open>far_pair_graph\<close> the piece of the vertices 1 and 3 gets the label
  1 in the first run, where worker 0 reaches vertex 1 while worker 1 found the community
  busy, and the label 3 in the second run on the output of the first, under the same
  schedule, where worker 1 (whose scan starts at 2) reaches vertex 3 first.
\<close>

theorem bfs_rerun_differs:
  "splitDisconnectedCommunitiesBfsOmpW 2 [0,1,1,1,1] far_pair_graph [0,0,0,0,0] [9,9,9,9,9]
     [True,True,True,True,True] [True,True,True,True,True]
     = Some ([0,1,2,1,4], [False,False,False,False,False], [True,True,True,True,True]) \<and>
   splitDisconnectedCommunitiesBfsOmpW 2 [0,1,1,1,1] far_pair_graph [0,1,2,1,4] [9,9,9,9,9]
     [True,True,True,True,True] [True,True,True,True,True]
     = Some ([0,3,2,3,4], [False,False,False,False,False], [True,True,True,True,True])"
  by (intro conjI; code_simp)

text \<open>
  C3, amended.  Let the graph be well-formed (every neighbour of a present vertex is a
  present vertex below the span, and every edge is listed at both of its ends) and let
  \<open>vdom\<close> and \<open>vcom\<close> be at least as long as the span.  Then the run that takes the
  output of a first run as its community assignment, with the other buffers as in the
  first run, returns the output of the first run, in these cases: label propagation
  with pruning when both runs are executed by one thread (the empty schedule) and
  \<open>vaff\<close> is at least as long as the span; label propagation without pruning,
  whatever the interleavings \<open>scheds\<close> and \<open>scheds'\<close> of the two runs are; the
  depth-first splitter with any positive number of workers, when \<open>vis\<close> is at least as
  long as the span; the breadth-first splitter with one worker, when \<open>cbsy\<close> and
  \<open>vis\<close> are at least as long as the span and the community id of every present
  vertex is below the span.
\<close>

theorem resplit_identical:
  assumes "wellformed x" "span x \<le> length vdom" "span x \<le> length vcom"
  shows
   "(span x \<le> length vaff \<longrightarrow>
       (\<exists>vcom1 vaff1 vaff2.
          lpa_par True [] x vdom vcom vaff = Some (vcom1, vaff1) \<and>
          lpa_par True [] x vcom1 vcom vaff = Some (vcom1, vaff2))) \<and>
    (\<exists>vcom1 vaff1 vaff2.
          lpa_par False scheds x vdom vcom vaff = Some (vcom1, vaff1) \<and>
          lpa_par False scheds' x vcom1 vcom vaff = Some (vcom1, vaff2)) \<and>
    (0 < T \<and> span x \<le> length vis \<longrightarrow>
       (\<exists>vcom1 vis1 vis2.
          splitDisconnectedCommunitiesDfsOmpW T x vdom vcom vis = Some (vcom1, vis1) \<and>
          splitDisconnectedCommunitiesDfsOmpW T x vcom1 vcom vis = Some (vcom1, vis2))) \<and>
    (span x \<le> length cbsy \<and> span x \<le> length vis \<and>
     (\<forall>u<span x. hasVertex x u \<longrightarrow> vdom ! u < span x) \<longrightarrow>
       (\<exists>vcom1 cbsy1 vis1 cbsy2 vis2.
          splitDisconnectedCommunitiesBfsOmpW 1 sched x vdom vcom cbsy vis
            = Some (vcom1, cbsy1, vis1) \<and>
          splitDisconnectedCommunitiesBfsOmpW 1 sched' x vcom1 vcom cbsy vis
            = Some (vcom1, cbsy2, vis2)))"
proof (intro conjI impI)
  assume "span x \<le> length vaff"
  then have "True \<longrightarrow> span x \<le> length vaff" by simp
  from lpa_idempotent[OF assms this]
  show "\<exists>vcom1 vaff1 vaff2.
          lpa_par True [] x vdom vcom vaff = Some (vcom1, vaff1) \<and>
          lpa_par True [] x vcom1 vcom vaff = Some (vcom1, vaff2)"
    unfolding lpa_par_one_thread .
next
  show "\<exists>vcom1 vaff1 vaff2.
          lpa_par False scheds x vdom vcom vaff = Some (vcom1, vaff1) \<and>
          lpa_par False scheds' x vcom1 vcom vaff = Some (vcom1, vaff2)"
    by (rule lpa_par_idempotent[OF assms])
next
  assume "0 < T \<and> span x \<le> length vis"
  then have a: "0 < T" "span x \<le> length vis" by auto
  from dfs_idempotent[OF assms(1) a(1) assms(2,3) a(2)]
  show "\<exists>vcom1 vis1 vis2.
          splitDisconnectedCommunitiesDfsOmpW T x vdom vcom vis = Some (vcom1, vis1) \<and>
          splitDisconnectedCommunitiesDfsOmpW T x vcom1 vcom vis = Some (vcom1, vis2)" .
next
  assume "span x \<le> length cbsy \<and> span x \<le> length vis \<and>
     (\<forall>u<span x. hasVertex x u \<longrightarrow> vdom ! u < span x)"
  then have a: "span x \<le> length cbsy" "span x \<le> length vis"
    "\<forall>u<span x. hasVertex x u \<longrightarrow> vdom ! u < span x" by auto
  from bfs_idempotent[OF assms a]
  show "\<exists>vcom1 cbsy1 vis1 cbsy2 vis2.
          splitDisconnectedCommunitiesBfsOmpW 1 sched x vdom vcom cbsy vis
            = Some (vcom1, cbsy1, vis1) \<and>
          splitDisconnectedCommunitiesBfsOmpW 1 sched' x vcom1 vcom cbsy vis
            = Some (vcom1, cbsy2, vis2)" .
qed

theorem resplit_identical_witness:
  "wellformed scenario \<and> span scenario \<le> length [0,0,0,1,1,0::nat] \<and>
   span scenario \<le> length [9,9,9,9,9,9::nat] \<and>
   lpa_par True [] scenario [0,0,0,1,1,0] [9,9,9,9,9,9] [False,False,False,False,False,False]
     = Some ([0,0,0,3,3,5], [True,True,False,True,False,True]) \<and>
   (\<exists>vaff2. lpa_par True [] scenario [0,0,0,3,3,5] [9,9,9,9,9,9]
     [False,False,False,False,False,False] = Some ([0,0,0,3,3,5], vaff2)) \<and>
   lpa_par False [[0,0,0,2,2,1,1,1,1,1,1,1,1]] scenario [0,0,0,1,1,0] [9,9,9,9,9,9]
     [False,False,False,False,False,False]
     = Some ([0,0,0,3,3,5], [False,False,False,False,False,False]) \<and>
   (\<exists>vaff2. lpa_par False [[4,1,4,1]] scenario [0,0,0,3,3,5] [9,9,9,9,9,9]
     [False,False,False,False,False,False] = Some ([0,0,0,3,3,5], vaff2)) \<and>
   splitDisconnectedCommunitiesDfsOmpW 2 scenario [0,0,0,1,1,0] [9,9,9,9,9,9]
     [True,True,True,True,True,True]
     = Some ([0,0,0,3,3,5], [True,True,True,True,True,True]) \<and>
   (\<exists>vis2. splitDisconnectedCommunitiesDfsOmpW 2 scenario [0,0,0,3,3,5] [9,9,9,9,9,9]
     [True,True,True,True,True,True] = Some ([0,0,0,3,3,5], vis2)) \<and>
   splitDisconnectedCommunitiesBfsOmpW 1 [0,0] scenario [0,0,0,1,1,0] [9,9,9,9,9,9]
     [True,True,True,True,True,True] [True,True,True,True,True,True]
     = Some ([0,0,0,3,3,5], [False,False,False,False,False,False],
             [True,True,True,True,True,True]) \<and>
   (\<exists>cbsy2 vis2. splitDisconnectedCommunitiesBfsOmpW 1 [] scenario [0,0,0,3,3,5] [9,9,9,9,9,9]
     [True,True,True,True,True,True] [True,True,True,True,True,True]
     = Some ([0,0,0,3,3,5], cbsy2, vis2))"
proof -
  have s: "span scenario = 6" by (simp add: scenario_def graphOf_def)
  have l: "lpa_par True [] scenario [0,0,0,1,1,0] [9,9,9,9,9,9]
     [False,False,False,False,False,False]
     = Some ([0,0,0,3,3,5], [True,True,False,True,False,True])"
    unfolding lpa_par_one_thread by (rule lpa_scenario)
  have p: "lpa_par False [[0,0,0,2,2,1,1,1,1,1,1,1,1]] scenario [0,0,0,1,1,0] [9,9,9,9,9,9]
     [False,False,False,False,False,False]
     = Some ([0,0,0,3,3,5], [False,False,False,False,False,False])"
    by code_simp
  have d: "splitDisconnectedCommunitiesDfsOmpW 2 scenario [0,0,0,1,1,0] [9,9,9,9,9,9]
     [True,True,True,True,True,True]
     = Some ([0,0,0,3,3,5], [True,True,True,True,True,True])"
    by code_simp
  have b: "splitDisconnectedCommunitiesBfsOmpW 1 [0,0] scenario [0,0,0,1,1,0] [9,9,9,9,9,9]
     [True,True,True,True,True,True] [True,True,True,True,True,True]
     = Some ([0,0,0,3,3,5], [False,False,False,False,False,False],
             [True,True,True,True,True,True])"
    by code_simp
  have i: "\<forall>u<span scenario. hasVertex scenario u \<longrightarrow> [0,0,0,1,1,0::nat] ! u < span scenario"
    using scenario_ids s by simp
  from resplit_identical[where x = scenario and vdom = "[0,0,0,1,1,0]"
      and vcom = "[9,9,9,9,9,9]" and vaff = "[False,False,False,False,False,False]"
      and scheds = "[[0,0,0,2,2,1,1,1,1,1,1,1,1]]" and scheds' = "[[4,1,4,1]]" and T = 2
      and vis = "[True,True,True,True,True,True]" and cbsy = "[True,True,True,True,True,True]"
      and sched = "[0,0]" and sched' = "[]", OF wellformed_scenario]
  show ?thesis
    using wellformed_scenario l p d b i s by auto
qed










end
